theory Spec2Isabelle
  imports Main "HOL-Library.Monad_Syntax" "HOL-Library.Multiset"
begin

section \<open>Go slices, indices and runtime panics\<close>

text \<open>
  A slice is modelled by the list of its visible elements (its length, not its capacity).
  Go indices are signed machine integers; they are modelled as \<open>int\<close>, so that a
  subtraction that goes negative is seen as such. Every indexing or slicing expression
  whose index is computed (not guarded by the enclosing loop condition) is a checked
  operation returning \<open>None\<close> where the Go runtime panics. The checks use the length of
  the slice; Go allows an upper slicing bound up to the capacity, so the model panics
  at least as often as the program.
\<close>

type_synonym 'a CmpFunc = "'a \<Rightarrow> 'a \<Rightarrow> int"
type_synonym 'a EqFunc = "'a \<Rightarrow> 'a \<Rightarrow> bool"

text \<open>\<open>a[i]\<close> as a value.\<close>

definition index_at :: "'a list \<Rightarrow> int \<Rightarrow> 'a option" where
  "index_at a i = (if 0 \<le> i \<and> i < int (length a) then Some (a ! nat i) else None)"

text \<open>\<open>a[i] = v\<close>.\<close>

definition store_at :: "'a list \<Rightarrow> int \<Rightarrow> 'a \<Rightarrow> 'a list option" where
  "store_at a i v = (if 0 \<le> i \<and> i < int (length a) then Some (a[nat i := v]) else None)"

text \<open>\<open>a[lo:hi]\<close> as a value (the elements it denotes).\<close>

definition reslice :: "'a list \<Rightarrow> int \<Rightarrow> int \<Rightarrow> 'a list option" where
  "reslice a lo hi =
     (if 0 \<le> lo \<and> lo \<le> hi \<and> hi \<le> int (length a)
      then Some (take (nat (hi - lo)) (drop (nat lo) a)) else None)"

text \<open>
  \<open>copy(a[lo:hi], src)\<close>: overwrites the first \<open>min (hi - lo) (len src)\<close> cells of
  \<open>a[lo:hi]\<close> and returns the number of elements copied. \<open>src\<close> is passed by value, which is
  the behaviour of Go's \<open>copy\<close> on overlapping slices.
\<close>

definition copy_range :: "'a list \<Rightarrow> int \<Rightarrow> int \<Rightarrow> 'a list \<Rightarrow> ('a list \<times> int) option" where
  "copy_range a lo hi src =
     (if 0 \<le> lo \<and> lo \<le> hi \<and> hi \<le> int (length a)
      then (let m = min (nat (hi - lo)) (length src)
            in Some (take (nat lo) a @ take m src @ drop (nat lo + m) a, int m))
      else None)"

text \<open>\<open>copy(a[lo:], src)\<close>.\<close>

definition copy_from :: "'a list \<Rightarrow> int \<Rightarrow> 'a list \<Rightarrow> ('a list \<times> int) option" where
  "copy_from a lo src = copy_range a lo (int (length a)) src"

text \<open>
  \<open>clear(a[lo:])\<close> and \<open>zero(a[lo:])\<close>: every cell from \<open>lo\<close> on receives the zero value
  \<open>z\<close> of the element type.
\<close>

definition clear_from :: "'a \<Rightarrow> 'a list \<Rightarrow> int \<Rightarrow> 'a list option" where
  "clear_from z a lo =
     (if 0 \<le> lo \<and> lo \<le> int (length a)
      then Some (take (nat lo) a @ replicate (length a - nat lo) z) else None)"

subsection \<open>Library functions of the Go distribution\<close>

text \<open>
  \<open>slices.IndexFunc(s, f)\<close>: the first index whose element satisfies \<open>f\<close>; Go returns
  \<open>-1\<close> where the model returns \<open>None\<close>.
\<close>

fun IndexFunc :: "'a list \<Rightarrow> ('a \<Rightarrow> bool) \<Rightarrow> nat option" where
  "IndexFunc [] f = None"
| "IndexFunc (x # xs) f = (if f x then Some 0 else map_option Suc (IndexFunc xs f))"

definition ContainsFunc :: "'a list \<Rightarrow> ('a \<Rightarrow> bool) \<Rightarrow> bool" where
  "ContainsFunc s f = (IndexFunc s f \<noteq> None)"

text \<open>
  \<open>sort.Search(n, f)\<close>: the binary search of the standard library, \<open>h\<close> the midpoint.
\<close>

function sort_Search_loop :: "(nat \<Rightarrow> bool) \<Rightarrow> nat \<Rightarrow> nat \<Rightarrow> nat" where
  "sort_Search_loop f i j =
     (if i < j
      then (if \<not> f ((i + j) div 2)
            then sort_Search_loop f ((i + j) div 2 + 1) j
            else sort_Search_loop f i ((i + j) div 2))
      else i)"
  by pat_completeness auto
termination
  by (relation "measure (\<lambda>(f, i, j). j - i)") auto

definition sort_Search :: "nat \<Rightarrow> (nat \<Rightarrow> bool) \<Rightarrow> nat" where
  "sort_Search n f = sort_Search_loop f 0 n"

text \<open>
  \<open>slices.BinarySearchFunc(x, target, cmp)\<close>: the same loop with the test
  \<open>cmp(x[h], target) < 0\<close>, and the flag \<open>i < n && cmp(x[i], target) == 0\<close>.
\<close>

definition BinarySearchFunc :: "'a list \<Rightarrow> 'a \<Rightarrow> 'a CmpFunc \<Rightarrow> nat \<times> bool" where
  "BinarySearchFunc x target cmp =
     (let n = length x;
          i = sort_Search_loop (\<lambda>h. \<not> cmp (x ! h) target < 0) 0 n
      in (i, i < n \<and> cmp (x ! i) target = 0))"

text \<open>
  \<open>slices.SortStableFunc(list, cmp)\<close> sorts in place and keeps the original order of
  elements that compare equal. It is modelled by insertion sort, which is what the
  library runs on blocks of up to twenty elements; an element moves left while it is
  strictly less than its left neighbour. On longer lists the library merges the sorted
  blocks. For a \<open>cmp\<close> that is a strict weak ordering there is one stably sorted
  arrangement of a list, so the library and the model return the same list; for any other
  \<open>cmp\<close> and more than twenty elements the two may return different permutations of the
  list, and what is proved of such a \<open>cmp\<close> holds for every list that is sorted next.
\<close>

fun insertLeft :: "'a CmpFunc \<Rightarrow> 'a \<Rightarrow> 'a list \<Rightarrow> 'a list" where
  "insertLeft cmp x [] = [x]"
| "insertLeft cmp x (y # ys) = (if cmp x y < 0 then y # insertLeft cmp x ys else x # y # ys)"

definition SortStableFunc :: "'a list \<Rightarrow> 'a CmpFunc \<Rightarrow> 'a list" where
  "SortStableFunc list cmp = rev (foldl (\<lambda>acc x. insertLeft cmp x acc) [] list)"

section \<open>Sequence algorithms (sorted.go, internal/slicesx/slicesx.go)\<close>

text \<open>
  \<open>runEq\<close>: the run of elements at the front that compare equal to the first one.
\<close>

fun runEq :: "'a list \<Rightarrow> 'a CmpFunc \<Rightarrow> 'a list" where
  "runEq [] cmp = []"
| "runEq (v0 # rest) cmp = v0 # takeWhile (\<lambda>v. cmp v0 v = 0) rest"

subsection \<open>Batched insertion\<close>

text \<open>
  An \<open>insert[E]\<close> is a pair of the index \<open>i\<close> and the element \<open>e\<close>.
  \<open>doInserts\<close> is the loop of \<open>insertInto\<close>; it receives the inserts last one first
  (\<open>v\<close> runs from \<open>len(inserts) - 1\<close> down to \<open>0\<close>).
\<close>

fun doInserts :: "(int \<times> 'a) list \<Rightarrow> 'a list \<Rightarrow> int \<Rightarrow> int \<Rightarrow> 'a list option" where
  "doInserts [] a i k = Some a"
| "doInserts ((x, e) # rest) a i k =
     (let n = i - x in
      do {
        src \<leftarrow> reslice a x (x + n);
        (a1, m) \<leftarrow> copy_range a (k - n) k src;
        a2 \<leftarrow> store_at a1 (k - (n + 1)) e;
        doInserts rest a2 x (k - (n + 1))
      })"

text \<open>
  \<open>slices.Grow(a, k)[0:k]\<close> lengthens the slice to \<open>k\<close> cells; the new cells hold the
  zero value \<open>z\<close>.
\<close>

definition insertInto :: "'a \<Rightarrow> 'a list \<Rightarrow> 'a list \<Rightarrow> (int \<times> 'a) list \<Rightarrow> 'a list option" where
  "insertInto z a tail inserts =
     (let extra = int (length inserts) + int (length tail);
          i = int (length a);
          k = int (length a) + extra;
          grown = a @ replicate (nat (k - int (length a))) z;
          k1 = k - int (length tail)
      in do {
        (a1, m) \<leftarrow> copy_from grown k1 tail;
        doInserts (rev inserts) a1 i k1
      })"

text \<open>
  The inner loop of \<open>mergeSortedLists\<close> over the run \<open>br\<close> of B: an element of B whose
  identity is found in the run \<open>ar\<close> of A overwrites it, any other one is scheduled
  for insertion at \<open>ai\<close>, the end of A's run.
\<close>

fun mergeRun :: "'a EqFunc \<Rightarrow> int \<Rightarrow> 'a list \<Rightarrow> 'a list \<Rightarrow> (int \<times> 'a) list
    \<Rightarrow> 'a list \<times> (int \<times> 'a) list" where
  "mergeRun eq ai [] ar inserts = (ar, inserts)"
| "mergeRun eq ai (be # br) ar inserts =
     (case IndexFunc ar (\<lambda>ae. eq be ae) of
        Some i \<Rightarrow> mergeRun eq ai br (ar[i := be]) inserts
      | None \<Rightarrow> mergeRun eq ai br ar (inserts @ [(ai, be)]))"

function mergeSortedLists_loop :: "'a CmpFunc \<Rightarrow> 'a EqFunc \<Rightarrow> nat \<Rightarrow> 'a list \<Rightarrow> 'a list
    \<Rightarrow> nat \<Rightarrow> nat \<Rightarrow> (int \<times> 'a) list \<Rightarrow> 'a list \<times> nat \<times> (int \<times> 'a) list" where
  "mergeSortedLists_loop cmp eq an a b ai bi inserts =
     (if ai < an \<and> bi < length b
      then (if cmp (a ! ai) (b ! bi) < 0
            then mergeSortedLists_loop cmp eq an a b (ai + 1) bi inserts
            else if cmp (a ! ai) (b ! bi) > 0
            then mergeSortedLists_loop cmp eq an a b ai (bi + 1) (inserts @ [(int ai, b ! bi)])
            else mergeSortedLists_loop cmp eq an
                   (take ai a
                     @ fst (mergeRun eq (int (ai + length (runEq (drop ai a) cmp)))
                              (runEq (drop bi b) cmp) (runEq (drop ai a) cmp) inserts)
                     @ drop (ai + length (runEq (drop ai a) cmp)) a)
                   b
                   (ai + length (runEq (drop ai a) cmp))
                   (bi + length (runEq (drop bi b) cmp))
                   (snd (mergeRun eq (int (ai + length (runEq (drop ai a) cmp)))
                              (runEq (drop bi b) cmp) (runEq (drop ai a) cmp) inserts)))
      else (a, bi, inserts))"
  by pat_completeness auto
termination
proof (relation "measure (\<lambda>(cmp, eq, an, a, b, ai, bi, inserts). (an - ai) + (length b - bi))",
       goal_cases)
  case (4 cmp eq an a b ai bi inserts)
  then have "drop bi b \<noteq> []" by simp
  then obtain n where n: "length (runEq (drop bi b) cmp) = Suc n"
    by (cases "drop bi b") simp_all
  have "length (runEq (drop bi b) cmp) \<le> length (drop bi b)"
    by (cases "drop bi b") (simp_all add: length_takeWhile_le)
  with n 4 show ?case by simp arith
qed auto

text \<open>\<open>mergeSortedLists\<close> (sorted.go) and \<open>MergeSorted\<close> (slicesx.go) are the same code.\<close>

definition mergeSortedLists :: "'a \<Rightarrow> 'a list \<Rightarrow> 'a list \<Rightarrow> 'a CmpFunc \<Rightarrow> 'a EqFunc \<Rightarrow> 'a list option" where
  "mergeSortedLists z a b cmp eq =
     (case mergeSortedLists_loop cmp eq (length a) a b 0 0 [] of
        (a', bi, inserts) \<Rightarrow> insertInto z a' (drop bi b) inserts)"

definition MergeSorted :: "'a \<Rightarrow> 'a list \<Rightarrow> 'a list \<Rightarrow> 'a CmpFunc \<Rightarrow> 'a EqFunc \<Rightarrow> 'a list option" where
  "MergeSorted = mergeSortedLists"

subsection \<open>Batched deletion\<close>

text \<open>
  \<open>deleteFrom_loop\<close> is the loop of \<open>deleteFrom\<close> over \<open>deletes[1:]\<close>; \<open>en\<close> is the
  source's \<open>end\<close>.
\<close>

fun deleteFrom_loop :: "'a list \<Rightarrow> int list \<Rightarrow> int \<Rightarrow> int \<Rightarrow> ('a list \<times> int \<times> int) option" where
  "deleteFrom_loop a [] dst src = Some (a, dst, src)"
| "deleteFrom_loop a (en # rest) dst src =
     do {
       seg \<leftarrow> reslice a src en;
       (a1, m) \<leftarrow> copy_from a dst seg;
       deleteFrom_loop a1 rest (dst + m) (en + 1)
     }"

definition deleteFrom :: "'a \<Rightarrow> 'a list \<Rightarrow> int list \<Rightarrow> 'a list option" where
  "deleteFrom z a deletes =
     (let n = int (length a); d = int (length deletes)
      in case deletes of
           [] \<Rightarrow> Some a
         | d0 # rest \<Rightarrow>
             do {
               (a1, dst, src) \<leftarrow> deleteFrom_loop a rest d0 (d0 + 1);
               seg \<leftarrow> reslice a1 src (int (length a1));
               (a2, m) \<leftarrow> copy_from a1 dst seg;
               a3 \<leftarrow> clear_from z a2 (n - d);
               reslice a3 0 (n - d)
             })"

function diffSortedLists_loop :: "'a CmpFunc \<Rightarrow> 'a EqFunc \<Rightarrow> 'a list \<Rightarrow> 'a list
    \<Rightarrow> nat \<Rightarrow> nat \<Rightarrow> int list \<Rightarrow> int list" where
  "diffSortedLists_loop cmp eq a b ai bi deletes =
     (if ai < length a \<and> bi < length b
      then (if cmp (a ! ai) (b ! bi) < 0
            then diffSortedLists_loop cmp eq a b (ai + 1) bi deletes
            else if cmp (a ! ai) (b ! bi) > 0
            then diffSortedLists_loop cmp eq a b ai (bi + 1) deletes
            else diffSortedLists_loop cmp eq a b
                   (ai + length (runEq (drop ai a) cmp))
                   (bi + length (runEq (drop bi b) cmp))
                   (deletes @
                     map (\<lambda>i. int (ai + i))
                       (filter (\<lambda>i. ContainsFunc (runEq (drop bi b) cmp)
                                       (\<lambda>be. eq (runEq (drop ai a) cmp ! i) be))
                          [0 ..< length (runEq (drop ai a) cmp)])))
      else deletes)"
  by pat_completeness auto
termination
proof (relation "measure (\<lambda>(cmp, eq, a, b, ai, bi, deletes). (length a - ai) + (length b - bi))",
       goal_cases)
  case (4 cmp eq a b ai bi deletes)
  then have "drop bi b \<noteq> []" by simp
  then obtain n where n: "length (runEq (drop bi b) cmp) = Suc n"
    by (cases "drop bi b") simp_all
  have "length (runEq (drop bi b) cmp) \<le> length (drop bi b)"
    by (cases "drop bi b") (simp_all add: length_takeWhile_le)
  with n 4 show ?case by simp arith
qed auto

text \<open>\<open>diffSortedLists\<close> (sorted.go) and \<open>DeleteSorted\<close> (slicesx.go) are the same code.\<close>

definition diffSortedLists :: "'a \<Rightarrow> 'a list \<Rightarrow> 'a list \<Rightarrow> 'a CmpFunc \<Rightarrow> 'a EqFunc \<Rightarrow> 'a list option" where
  "diffSortedLists z a b cmp eq = deleteFrom z a (diffSortedLists_loop cmp eq a b 0 0 [])"

definition DeleteSorted :: "'a \<Rightarrow> 'a list \<Rightarrow> 'a list \<Rightarrow> 'a CmpFunc \<Rightarrow> 'a EqFunc \<Rightarrow> 'a list option" where
  "DeleteSorted = diffSortedLists"

subsection \<open>Stable sort and removal of duplicates\<close>

text \<open>
  \<open>uniqEqSlow\<close> works in place on the slice it is given. The model returns the cells of
  that slice after the call together with the slice \<open>list[:dst]\<close> that the function
  returns. The closure \<open>eqFn\<close> reads \<open>list[src]\<close> at the time of each call.
\<close>

function uniqEqSlow_loop :: "'a EqFunc \<Rightarrow> nat \<Rightarrow> 'a list \<Rightarrow> nat \<Rightarrow> int \<Rightarrow> ('a list \<times> int) option" where
  "uniqEqSlow_loop eq n list src dst =
     (if src < n
      then do {
             pre \<leftarrow> reslice list 0 dst;
             (case IndexFunc pre (\<lambda>a. eq (list ! src) a) of
                Some idx \<Rightarrow>
                  do {
                    l1 \<leftarrow> store_at list (int idx) (list ! src);
                    uniqEqSlow_loop eq n l1 (src + 1) dst
                  }
              | None \<Rightarrow>
                  do {
                    l1 \<leftarrow> store_at list dst (list ! src);
                    uniqEqSlow_loop eq n l1 (src + 1) (dst + 1)
                  })
           }
      else Some (list, dst))"
  by pat_completeness auto
termination
  by (relation "measure (\<lambda>(eq, n, list, src, dst). n - src)") auto

definition uniqEqSlow :: "'a \<Rightarrow> 'a list \<Rightarrow> 'a EqFunc \<Rightarrow> ('a list \<times> 'a list) option" where
  "uniqEqSlow z list eq =
     (let n = length list
      in if n < 2 then Some (list, list)
         else do {
                (l1, dst) \<leftarrow> uniqEqSlow_loop eq n list 1 1;
                l2 \<leftarrow> clear_from z l1 dst;
                res \<leftarrow> reslice l2 0 dst;
                Some (l2, res)
              })"

text \<open>
  The loop of \<open>uniqCmpEq\<close>. \<open>uniqEqSlow(list[src:i], eq)\<close> rewrites the cells
  \<open>list[src:i]\<close>, and \<open>copy\<close> then moves its result to \<open>list[dst:]\<close>.
\<close>

function uniqCmpEq_loop :: "'a \<Rightarrow> 'a CmpFunc \<Rightarrow> 'a EqFunc \<Rightarrow> nat \<Rightarrow> 'a list \<Rightarrow> nat \<Rightarrow> nat \<Rightarrow> int \<Rightarrow> 'a
    \<Rightarrow> ('a list \<times> nat \<times> int) option" where
  "uniqCmpEq_loop z cmp eq n list i src dst prev =
     (if i < n
      then (if cmp (list ! i) prev = 0
            then uniqCmpEq_loop z cmp eq n list (i + 1) src dst prev
            else do {
                   run \<leftarrow> reslice list (int src) (int i);
                   (run1, res) \<leftarrow> uniqEqSlow z run eq;
                   (list2, m) \<leftarrow> copy_from (take src list @ run1 @ drop i list) dst res;
                   uniqCmpEq_loop z cmp eq n list2 (i + 1) i (dst + m) (list ! i)
                 })
      else Some (list, src, dst))"
  by pat_completeness auto
termination
  by (relation "measure (\<lambda>(z, cmp, eq, n, list, i, src, dst, prev). n - i)") auto

text \<open>
  \<open>uniqCmpEq\<close> (sorted.go) and \<open>UniqSortedFuncs\<close> (slicesx.go) are the same code; the
  source returns \<open>nil\<close>, the empty slice, for an empty list.
\<close>

definition uniqCmpEq :: "'a \<Rightarrow> 'a list \<Rightarrow> 'a CmpFunc \<Rightarrow> 'a EqFunc \<Rightarrow> 'a list option" where
  "uniqCmpEq z list cmp eq =
     (let n = length list
      in if n = 0 then Some []
         else do {
                (l1, src, dst) \<leftarrow> uniqCmpEq_loop z cmp eq n list 1 0 0 (list ! 0);
                run \<leftarrow> reslice l1 (int src) (int (length l1));
                (run1, res) \<leftarrow> uniqEqSlow z run eq;
                (l3, m) \<leftarrow> copy_from (take src l1 @ run1) dst res;
                l4 \<leftarrow> clear_from z l3 (dst + m);
                reslice l4 0 (dst + m)
              })"

definition UniqSortedFuncs :: "'a \<Rightarrow> 'a list \<Rightarrow> 'a CmpFunc \<Rightarrow> 'a EqFunc \<Rightarrow> 'a list option" where
  "UniqSortedFuncs = uniqCmpEq"

definition stableSortCmp :: "'a list \<Rightarrow> 'a CmpFunc \<Rightarrow> 'a list" where
  "stableSortCmp list cmp = SortStableFunc list cmp"

definition stableSortUniqCmpEq :: "'a \<Rightarrow> 'a list \<Rightarrow> 'a CmpFunc \<Rightarrow> 'a EqFunc \<Rightarrow> 'a list option" where
  "stableSortUniqCmpEq z list cmp eq = uniqCmpEq z (stableSortCmp list cmp) cmp eq"

definition StableSortUniqFuncs :: "'a \<Rightarrow> 'a list \<Rightarrow> 'a CmpFunc \<Rightarrow> 'a EqFunc \<Rightarrow> 'a list option" where
  "StableSortUniqFuncs z list cmp eq = UniqSortedFuncs z (SortStableFunc list cmp) cmp eq"

section \<open>The comparator sorted set (sorted.go)\<close>

text \<open>\<open>cmp.Compare\<close> and \<open>equal\<close> on an ordered element type.\<close>

definition cmp_Compare :: "'a::linorder \<Rightarrow> 'a \<Rightarrow> int" where
  "cmp_Compare a b = (if a < b then - 1 else if a > b then 1 else 0)"

definition equal :: "'a \<Rightarrow> 'a \<Rightarrow> bool" where
  "equal a b = (a = b)"

text \<open>The struct \<open>sorted[E]\<close>; the fields \<open>cmp\<close> and \<open>eq\<close> are \<open>cmpFn\<close> and \<open>eqFn\<close>.\<close>

record 'a sortedSet =
  elems :: "'a list"
  cmpFn :: "'a CmpFunc"
  eqFn :: "'a EqFunc"

text \<open>
  The other operand of a binary operation is a value of the interface \<open>Set[E]\<close>: the
  receiver itself, or a set of any representation, which the receiver uses through
  \<open>Elems\<close>, \<open>Range\<close> (both give \<open>otherElems\<close>) and \<open>Contains\<close> only.
\<close>

datatype 'a other = Self | Other (otherElems: "'a list") (otherContains: "'a \<Rightarrow> bool")

text \<open>The scan of \<open>search\<close> through the elements whose sort key matches.\<close>

function search_scan :: "'a CmpFunc \<Rightarrow> 'a EqFunc \<Rightarrow> 'a list \<Rightarrow> 'a \<Rightarrow> nat \<Rightarrow> nat \<times> bool" where
  "search_scan cmp eq es elem idx =
     (if idx < length es \<and> cmp elem (es ! idx) = 0
      then (if eq (es ! idx) elem then (idx, True)
            else search_scan cmp eq es elem (idx + 1))
      else (idx, False))"
  by pat_completeness auto
termination
  by (relation "measure (\<lambda>(cmp, eq, es, elem, idx). length es - idx)") auto

definition search :: "'a sortedSet \<Rightarrow> 'a \<Rightarrow> nat \<times> bool" where
  "search s elem =
     (let n = length (elems s);
          idx = sort_Search n (\<lambda>i. cmpFn s elem (elems s ! i) \<le> 0)
      in search_scan (cmpFn s) (eqFn s) (elems s) elem idx)"

definition Contains :: "'a sortedSet \<Rightarrow> 'a \<Rightarrow> bool" where
  "Contains s elem = snd (search s elem)"

definition Len :: "'a sortedSet \<Rightarrow> int" where
  "Len s = int (length (elems s))"

text \<open>\<open>Elems\<close> returns \<open>slices.Clone(set.elems)\<close>: the same elements in a new array.\<close>

definition Elems :: "'a sortedSet \<Rightarrow> 'a list" where
  "Elems s = elems s"

definition Clone :: "'a sortedSet \<Rightarrow> 'a sortedSet" where
  "Clone s = \<lparr>elems = elems s, cmpFn = cmpFn s, eqFn = eqFn s\<rparr>"

definition Insert :: "'a sortedSet \<Rightarrow> 'a \<Rightarrow> 'a sortedSet option" where
  "Insert s elem =
     (case search s elem of
        (idx, found) \<Rightarrow>
          if found
          then do {
                 es \<leftarrow> store_at (elems s) (int idx) elem;
                 Some (s\<lparr>elems := es\<rparr>)
               }
          else do {
                 let grown = elems s @ [elem];
                 src \<leftarrow> reslice grown (int idx) (int (length grown));
                 (es1, m) \<leftarrow> copy_from grown (int idx + 1) src;
                 es2 \<leftarrow> store_at es1 (int idx) elem;
                 Some (s\<lparr>elems := es2\<rparr>)
               })"

definition insertAll :: "'a \<Rightarrow> 'a sortedSet \<Rightarrow> 'a list \<Rightarrow> 'a sortedSet option" where
  "insertAll z s es =
     do {
       es1 \<leftarrow> stableSortUniqCmpEq z es (cmpFn s) (eqFn s);
       merged \<leftarrow> mergeSortedLists z (elems s) es1 (cmpFn s) (eqFn s);
       Some (s\<lparr>elems := merged\<rparr>)
     }"

definition InsertAll :: "'a \<Rightarrow> 'a sortedSet \<Rightarrow> 'a list \<Rightarrow> 'a sortedSet option" where
  "InsertAll z s es = insertAll z s es"

definition InsertSet :: "'a \<Rightarrow> 'a sortedSet \<Rightarrow> 'a other \<Rightarrow> 'a sortedSet option" where
  "InsertSet z s other =
     (case other of
        Self \<Rightarrow> Some s
      | Other es c \<Rightarrow> insertAll z s es)"

definition Remove :: "'a \<Rightarrow> 'a sortedSet \<Rightarrow> 'a \<Rightarrow> 'a sortedSet option" where
  "Remove z s elem =
     (case search s elem of
        (idx, found) \<Rightarrow>
          if \<not> found then Some s
          else do {
                 let last = int (length (elems s)) - 1;
                 src \<leftarrow> reslice (elems s) (int idx + 1) (int (length (elems s)));
                 (es1, m) \<leftarrow> copy_from (elems s) (int idx) src;
                 es2 \<leftarrow> store_at es1 last z;
                 es3 \<leftarrow> reslice es2 0 last;
                 Some (s\<lparr>elems := es3\<rparr>)
               })"

definition removeAll_sorted :: "'a \<Rightarrow> 'a sortedSet \<Rightarrow> 'a list \<Rightarrow> 'a sortedSet option" where
  "removeAll_sorted z s es =
     do {
       diffed \<leftarrow> diffSortedLists z (elems s) (stableSortCmp es (cmpFn s)) (cmpFn s) (eqFn s);
       Some (s\<lparr>elems := diffed\<rparr>)
     }"

definition RemoveAll :: "'a \<Rightarrow> 'a sortedSet \<Rightarrow> 'a list \<Rightarrow> 'a sortedSet option" where
  "RemoveAll z s es = removeAll_sorted z s es"

definition RemoveSet :: "'a \<Rightarrow> 'a sortedSet \<Rightarrow> 'a other \<Rightarrow> 'a sortedSet option" where
  "RemoveSet z s other =
     (case other of
        Self \<Rightarrow> removeAll_sorted z s (Elems s)
      | Other es c \<Rightarrow> removeAll_sorted z s es)"


definition Union :: "'a \<Rightarrow> 'a sortedSet \<Rightarrow> 'a other \<Rightarrow> 'a sortedSet option" where
  "Union z s other =
     (case other of
        Self \<Rightarrow> insertAll z (Clone s) (Elems s)
      | Other es c \<Rightarrow> insertAll z (Clone s) es)"

definition Difference :: "'a sortedSet \<Rightarrow> 'a other \<Rightarrow> 'a sortedSet" where
  "Difference s other =
     \<lparr>elems = filter (\<lambda>e. \<not> (case other of Self \<Rightarrow> Contains s | Other es c \<Rightarrow> c) e) (elems s),
      cmpFn = cmpFn s, eqFn = eqFn s\<rparr>"

definition SymmetricDifference :: "'a \<Rightarrow> 'a sortedSet \<Rightarrow> 'a other \<Rightarrow> 'a sortedSet option" where
  "SymmetricDifference z s other =
     insertAll z (Difference s other)
       (filter (\<lambda>e. \<not> Contains s e) (case other of Self \<Rightarrow> elems s | Other es c \<Rightarrow> es))"

definition NewSortedCmpEqFunc :: "'a \<Rightarrow> 'a CmpFunc \<Rightarrow> 'a EqFunc \<Rightarrow> 'a list \<Rightarrow> 'a sortedSet option" where
  "NewSortedCmpEqFunc z cmp eq es =
     do {
       es1 \<leftarrow> stableSortUniqCmpEq z es cmp eq;
       Some \<lparr>elems = es1, cmpFn = cmp, eqFn = eq\<rparr>
     }"


section \<open>The comparator sorted set of version 2 (funcSorted)\<close>

text \<open>
  The struct \<open>funcSorted[E]\<close> has the same three fields as \<open>sorted[E]\<close> (\<open>list\<close>, \<open>cmp\<close>,
  \<open>eq\<close>) and is modelled by the same record, \<open>list\<close> being \<open>elems\<close>. Its \<open>search\<close> uses
  \<open>slices.BinarySearchFunc\<close> and then ranges over \<open>s.list[i:]\<close>; \<open>pos\<close> is \<open>i + j\<close> and
  \<open>n\<close> is \<open>len(s.list)\<close>.
\<close>

fun funcSorted_scan :: "'a CmpFunc \<Rightarrow> 'a EqFunc \<Rightarrow> 'a \<Rightarrow> 'a list \<Rightarrow> nat \<Rightarrow> nat \<Rightarrow> nat \<times> bool" where
  "funcSorted_scan cmp eq e [] pos n = (n, False)"
| "funcSorted_scan cmp eq e (v # vs) pos n =
     (if cmp e v \<noteq> 0 then (pos, False)
      else if eq e v then (pos, True)
      else funcSorted_scan cmp eq e vs (pos + 1) n)"

definition funcSorted_search :: "'a sortedSet \<Rightarrow> 'a \<Rightarrow> nat \<times> bool" where
  "funcSorted_search s e =
     (case BinarySearchFunc (elems s) e (cmpFn s) of
        (i, ok) \<Rightarrow>
          if \<not> ok then (i, False)
          else funcSorted_scan (cmpFn s) (eqFn s) e (drop i (elems s)) i (length (elems s)))"

definition funcSorted_Contains :: "'a sortedSet \<Rightarrow> 'a \<Rightarrow> bool" where
  "funcSorted_Contains s e = snd (funcSorted_search s e)"

definition funcSorted_insert :: "'a sortedSet \<Rightarrow> 'a \<Rightarrow> 'a sortedSet option" where
  "funcSorted_insert s e =
     (case funcSorted_search s e of
        (i, ok) \<Rightarrow>
          if ok
          then do {
                 es \<leftarrow> store_at (elems s) (int i) e;
                 Some (s\<lparr>elems := es\<rparr>)
               }
          else do {
                 let grown = elems s @ [e];
                 src \<leftarrow> reslice grown (int i) (int (length grown));
                 (es1, m) \<leftarrow> copy_from grown (int i + 1) src;
                 es2 \<leftarrow> store_at es1 (int i) e;
                 Some (s\<lparr>elems := es2\<rparr>)
               })"

definition funcSorted_insertAll :: "'a \<Rightarrow> 'a sortedSet \<Rightarrow> 'a list \<Rightarrow> 'a sortedSet option" where
  "funcSorted_insertAll z s unsorted =
     do {
       es1 \<leftarrow> StableSortUniqFuncs z unsorted (cmpFn s) (eqFn s);
       merged \<leftarrow> MergeSorted z (elems s) es1 (cmpFn s) (eqFn s);
       Some (s\<lparr>elems := merged\<rparr>)
     }"

definition funcSorted_insertSet :: "'a \<Rightarrow> 'a sortedSet \<Rightarrow> 'a other \<Rightarrow> 'a sortedSet option" where
  "funcSorted_insertSet z s other =
     (case other of
        Self \<Rightarrow> Some s
      | Other es c \<Rightarrow> funcSorted_insertAll z s es)"

definition funcSorted_remove :: "'a \<Rightarrow> 'a sortedSet \<Rightarrow> 'a \<Rightarrow> 'a sortedSet option" where
  "funcSorted_remove z s e =
     (case funcSorted_search s e of
        (i, ok) \<Rightarrow>
          if \<not> ok then Some s
          else do {
                 let k = int (length (elems s)) - 1;
                 src \<leftarrow> reslice (elems s) (int i + 1) (int (length (elems s)));
                 (es1, m) \<leftarrow> copy_from (elems s) (int i) src;
                 es2 \<leftarrow> clear_from z es1 k;
                 es3 \<leftarrow> reslice es2 0 k;
                 Some (s\<lparr>elems := es3\<rparr>)
               })"

definition funcSorted_removeAll :: "'a \<Rightarrow> 'a sortedSet \<Rightarrow> 'a list \<Rightarrow> 'a sortedSet option" where
  "funcSorted_removeAll z s unsorted =
     do {
       diffed \<leftarrow> DeleteSorted z (elems s) (SortStableFunc unsorted (cmpFn s)) (cmpFn s) (eqFn s);
       Some (s\<lparr>elems := diffed\<rparr>)
     }"

definition funcSorted_removeSet :: "'a \<Rightarrow> 'a sortedSet \<Rightarrow> 'a other \<Rightarrow> 'a sortedSet option" where
  "funcSorted_removeSet z s other =
     (case other of
        Self \<Rightarrow> do {
                  es1 \<leftarrow> clear_from z (elems s) 0;
                  es2 \<leftarrow> reslice es1 0 0;
                  Some (s\<lparr>elems := es2\<rparr>)
                }
      | Other es c \<Rightarrow> funcSorted_removeAll z s es)"

definition funcSort :: "'a \<Rightarrow> 'a list \<Rightarrow> 'a CmpFunc \<Rightarrow> 'a EqFunc \<Rightarrow> 'a sortedSet option" where
  "funcSort z es cmp eq =
     do {
       es1 \<leftarrow> StableSortUniqFuncs z es cmp eq;
       Some \<lparr>elems = es1, cmpFn = cmp, eqFn = eq\<rparr>
     }"

definition NewSortedMutableFuncs :: "'a \<Rightarrow> 'a CmpFunc \<Rightarrow> 'a EqFunc \<Rightarrow> 'a list \<Rightarrow> 'a sortedSet option" where
  "NewSortedMutableFuncs z cmp eq es = funcSort z es cmp eq"


definition funcSorted_union :: "'a \<Rightarrow> 'a sortedSet \<Rightarrow> 'a other \<Rightarrow> 'a sortedSet option" where
  "funcSorted_union z s other =
     (case other of
        Self \<Rightarrow> funcSorted_insertAll z (Clone s) (Elems s)
      | Other es c \<Rightarrow> funcSorted_insertAll z (Clone s) es)"

definition funcSorted_difference :: "'a sortedSet \<Rightarrow> 'a other \<Rightarrow> 'a sortedSet" where
  "funcSorted_difference s other =
     \<lparr>elems = filter (\<lambda>e. \<not> (case other of Self \<Rightarrow> funcSorted_Contains s | Other es c \<Rightarrow> c) e)
                (elems s),
      cmpFn = cmpFn s, eqFn = eqFn s\<rparr>"

definition funcSorted_symmetricDifference :: "'a \<Rightarrow> 'a sortedSet \<Rightarrow> 'a other \<Rightarrow> 'a sortedSet option" where
  "funcSorted_symmetricDifference z s other =
     funcSorted_insertAll z (funcSorted_difference s other)
       (filter (\<lambda>e. \<not> funcSorted_Contains s e) (case other of Self \<Rightarrow> elems s | Other es c \<Rightarrow> es))"

section \<open>Sequence algorithms for ordered element types\<close>

text \<open>
  \<open>mergeUniqSortedLists\<close> (sorted.go) and \<open>MergeSortedUniq\<close> (slicesx.go) are the same
  code, and so are \<open>diffUniqSortedLists\<close> and \<open>DeleteSortedUniq\<close>. The order key is the
  identity: an element of B equal to the current element of A overwrites it.
\<close>

function mergeUniqSortedLists_loop :: "nat \<Rightarrow> 'a::linorder list \<Rightarrow> 'a list \<Rightarrow> nat \<Rightarrow> nat
    \<Rightarrow> (int \<times> 'a) list \<Rightarrow> 'a list \<times> nat \<times> (int \<times> 'a) list" where
  "mergeUniqSortedLists_loop an a b ai bi inserts =
     (if ai < an \<and> bi < length b
      then (if a ! ai < b ! bi
            then mergeUniqSortedLists_loop an a b (ai + 1) bi inserts
            else if a ! ai > b ! bi
            then mergeUniqSortedLists_loop an a b ai (bi + 1) (inserts @ [(int ai, b ! bi)])
            else mergeUniqSortedLists_loop an (a[ai := b ! bi]) b (ai + 1) (bi + 1) inserts)
      else (a, bi, inserts))"
  by pat_completeness auto
termination
  by (relation "measure (\<lambda>(an, a, b, ai, bi, inserts). (an - ai) + (length b - bi))") auto

definition mergeUniqSortedLists :: "'a \<Rightarrow> 'a::linorder list \<Rightarrow> 'a list \<Rightarrow> 'a list option" where
  "mergeUniqSortedLists z a b =
     (case mergeUniqSortedLists_loop (length a) a b 0 0 [] of
        (a', bi, inserts) \<Rightarrow> insertInto z a' (drop bi b) inserts)"

definition MergeSortedUniq :: "'a \<Rightarrow> 'a::linorder list \<Rightarrow> 'a list \<Rightarrow> 'a list option" where
  "MergeSortedUniq = mergeUniqSortedLists"

function diffUniqSortedLists_loop :: "'a::linorder list \<Rightarrow> 'a list \<Rightarrow> nat \<Rightarrow> nat \<Rightarrow> int list
    \<Rightarrow> int list" where
  "diffUniqSortedLists_loop a b ai bi deletes =
     (if ai < length a \<and> bi < length b
      then (if a ! ai < b ! bi
            then diffUniqSortedLists_loop a b (ai + 1) bi deletes
            else if a ! ai > b ! bi
            then diffUniqSortedLists_loop a b ai (bi + 1) deletes
            else diffUniqSortedLists_loop a b (ai + 1) (bi + 1) (deletes @ [int ai]))
      else deletes)"
  by pat_completeness auto
termination
  by (relation "measure (\<lambda>(a, b, ai, bi, deletes). (length a - ai) + (length b - bi))") auto

definition diffUniqSortedLists :: "'a \<Rightarrow> 'a::linorder list \<Rightarrow> 'a list \<Rightarrow> 'a list option" where
  "diffUniqSortedLists z a b = deleteFrom z a (diffUniqSortedLists_loop a b 0 0 [])"

definition DeleteSortedUniq :: "'a \<Rightarrow> 'a::linorder list \<Rightarrow> 'a list \<Rightarrow> 'a list option" where
  "DeleteSortedUniq = diffUniqSortedLists"

text \<open>
  \<open>slices.Compact\<close> of the Go library replaces each run of consecutive equal elements
  by one of them.
\<close>

definition slices_Compact :: "'a list \<Rightarrow> 'a list" where
  "slices_Compact list = remdups_adj list"

section \<open>The natural-order sorted set of version 2 (ordered)\<close>

text \<open>
  The struct \<open>ordered[E]\<close> has the single field \<open>list\<close> and is modelled by that list.
  The element type is ordered; floating-point NaN values, which Go's ordered types
  include, are outside this model.

  \<open>slices.BinarySearch(x, target)\<close> is the loop of \<open>sort.Search\<close> with the test
  \<open>x[h] < target\<close>, and the flag \<open>i < n && x[i] == target\<close>.
\<close>

definition BinarySearch :: "'a::linorder list \<Rightarrow> 'a \<Rightarrow> nat \<times> bool" where
  "BinarySearch x target =
     (let n = length x;
          i = sort_Search_loop (\<lambda>h. \<not> x ! h < target) 0 n
      in (i, i < n \<and> x ! i = target))"

definition ordered_Contains :: "'a::linorder list \<Rightarrow> 'a \<Rightarrow> bool" where
  "ordered_Contains list e = snd (BinarySearch list e)"

definition ordered_insert :: "'a::linorder list \<Rightarrow> 'a \<Rightarrow> 'a list option" where
  "ordered_insert list e =
     (case BinarySearch list e of
        (i, ok) \<Rightarrow>
          if ok then store_at list (int i) e
          else do {
                 let grown = list @ [e];
                 src \<leftarrow> reslice grown (int i) (int (length grown));
                 (l1, m) \<leftarrow> copy_from grown (int i + 1) src;
                 store_at l1 (int i) e
               })"

section \<open>Backing arrays: who shares storage with whom\<close>

text \<open>
  Where a claim depends on aliasing, slices are modelled with an explicit store. The
  store is the list of the arrays allocated so far, an address is an index into it, and
  a slice header is the address of its backing array and its length (its capacity is
  the length of the array). Allocation appends a new array to the store.
\<close>

type_synonym 'a store = "'a list list"

record slice =
  sptr :: nat
  slen :: nat

definition view :: "'a store \<Rightarrow> slice \<Rightarrow> 'a list" where
  "view st sl = take (slen sl) (st ! sptr sl)"

text \<open>\<open>slices.Clone(s)\<close>: a new array holding the elements of \<open>s\<close>.\<close>

definition slices_Clone :: "'a store \<Rightarrow> slice \<Rightarrow> 'a store \<times> slice" where
  "slices_Clone st sl = (st @ [view st sl], \<lparr>sptr = length st, slen = slen sl\<rparr>)"

text \<open>
  A set object in the store: the slice header of its field \<open>elems\<close> (\<open>list\<close> in
  version 2) and its two functions. \<open>deref\<close> reads the set's value.
\<close>

record 'a sortedRef =
  ref :: slice
  refCmp :: "'a CmpFunc"
  refEq :: "'a EqFunc"

definition deref :: "'a store \<Rightarrow> 'a sortedRef \<Rightarrow> 'a sortedSet" where
  "deref st r = \<lparr>elems = view st (ref r), cmpFn = refCmp r, eqFn = refEq r\<rparr>"

text \<open>\<open>Elems\<close> is \<open>slices.Clone(set.elems)\<close> in both versions.\<close>

definition Elems_ref :: "'a store \<Rightarrow> 'a sortedRef \<Rightarrow> 'a store \<times> slice" where
  "Elems_ref st r = slices_Clone st (ref r)"

text \<open>
  A caller's assignment \<open>s[i] = v\<close> through a slice it holds.
\<close>

definition assign_through :: "'a store \<Rightarrow> slice \<Rightarrow> int \<Rightarrow> 'a \<Rightarrow> 'a store option" where
  "assign_through st sl i v =
     do {
       cells \<leftarrow> store_at (view st sl) i v;
       Some (st[sptr sl := cells @ drop (slen sl) (st ! sptr sl)])
     }"

text \<open>
  Every mutating method works on the receiver's own slice: it writes the cells of the
  receiver's backing array in place (\<open>set.elems[idx] = elem\<close>, \<open>copy\<close>, \<open>zero\<close>), or
  lets \<open>append\<close> or \<open>slices.Grow\<close> move the elements to a new array when the capacity
  does not suffice; its temporaries (\<open>slices.Clone(elems)\<close>, \<open>other.Elems()\<close>) are new
  arrays. \<open>writeBack\<close> stores the method's resulting list \<open>ys\<close> accordingly: cells that
  the new length vacates hold the zero value \<open>z\<close>.
\<close>

definition writeBack :: "'a \<Rightarrow> 'a store \<Rightarrow> slice \<Rightarrow> 'a list \<Rightarrow> 'a store \<times> slice" where
  "writeBack z st sl ys =
     (if length ys \<le> length (st ! sptr sl)
      then (st[sptr sl := ys @ replicate (slen sl - length ys) z
                             @ drop (max (slen sl) (length ys)) (st ! sptr sl)],
            \<lparr>sptr = sptr sl, slen = length ys\<rparr>)
      else (st @ [ys], \<lparr>sptr = length st, slen = length ys\<rparr>))"

definition mutate_ref :: "'a \<Rightarrow> ('a sortedSet \<Rightarrow> 'a sortedSet option) \<Rightarrow> 'a store \<Rightarrow> 'a sortedRef
    \<Rightarrow> ('a store \<times> 'a sortedRef) option" where
  "mutate_ref z mth st r =
     do {
       s' \<leftarrow> mth (deref st r);
       let (st', sl') = writeBack z st (ref r) (elems s');
       Some (st', r\<lparr>ref := sl'\<rparr>)
     }"

definition Insert_ref :: "'a \<Rightarrow> 'a store \<Rightarrow> 'a sortedRef \<Rightarrow> 'a \<Rightarrow> ('a store \<times> 'a sortedRef) option" where
  "Insert_ref z st r e = mutate_ref z (\<lambda>s. Insert s e) st r"

definition Remove_ref :: "'a \<Rightarrow> 'a store \<Rightarrow> 'a sortedRef \<Rightarrow> 'a \<Rightarrow> ('a store \<times> 'a sortedRef) option" where
  "Remove_ref z st r e = mutate_ref z (\<lambda>s. Remove z s e) st r"

definition InsertAll_ref :: "'a \<Rightarrow> 'a store \<Rightarrow> 'a sortedRef \<Rightarrow> 'a list \<Rightarrow> ('a store \<times> 'a sortedRef) option" where
  "InsertAll_ref z st r es = mutate_ref z (\<lambda>s. InsertAll z s es) st r"

definition RemoveAll_ref :: "'a \<Rightarrow> 'a store \<Rightarrow> 'a sortedRef \<Rightarrow> 'a list \<Rightarrow> ('a store \<times> 'a sortedRef) option" where
  "RemoveAll_ref z st r es = mutate_ref z (\<lambda>s. RemoveAll z s es) st r"

text \<open>
  \<open>insertAll\<close> and \<open>insertSet\<close> of \<open>ordered[E]\<close>. The type switch of \<open>insertSet\<close> has
  three cases: another \<open>ordered[E]\<close>, whose list is merged as it is; any other value
  that implements \<open>SortedView[E]\<close>, whose \<open>Elems()\<close> are compacted and merged without
  sorting; and every other view, whose \<open>Elems()\<close> go through \<open>insertAll\<close>. A
  \<open>funcSorted[E]\<close> has the methods of \<open>SortedView[E]\<close>, so it takes the second case.
\<close>

datatype 'a view =
    OrderedView "'a list"
  | FuncSortedView "'a sortedSet"
  | TableView "'a list"

definition ordered_insertAll :: "'a \<Rightarrow> 'a::linorder list \<Rightarrow> 'a list \<Rightarrow> 'a list option" where
  "ordered_insertAll z list unsorted =
     MergeSortedUniq z list (slices_Compact (SortStableFunc unsorted cmp_Compare))"

definition ordered_insertSet :: "'a \<Rightarrow> 'a::linorder list \<Rightarrow> 'a view \<Rightarrow> 'a list option" where
  "ordered_insertSet z list other =
     (case other of
        OrderedView l \<Rightarrow> MergeSortedUniq z list l
      | FuncSortedView s \<Rightarrow> MergeSortedUniq z list (slices_Compact (Elems s))
      | TableView es \<Rightarrow> ordered_insertAll z list es)"

text \<open>
  \<open>order\<close> is the constructor behind \<open>NewSortedMutable\<close> and \<open>NewSortedImmutable\<close> of
  version 2: it clones the arguments, stable-sorts the clone by \<open>cmp.Compare\<close> and
  compacts it.
\<close>

definition order :: "'a::linorder list \<Rightarrow> 'a list" where
  "order es = slices_Compact (SortStableFunc es cmp_Compare)"

section \<open>Functional descriptions of the algorithms\<close>

text \<open>
  The definitions of this section are not translations of the source. They describe,
  by recursion on lists, what the in-place loops above compute; the lemmas below prove
  that each loop returns exactly that, for every comparison and equality function.
\<close>

text \<open>
  \<open>spliced r a i\<close>: the first \<open>i\<close> elements of \<open>a\<close> with the inserts \<open>r\<close> (last one
  first) put in front of the positions they name.
\<close>

fun spliced :: "(nat \<times> 'a) list \<Rightarrow> 'a list \<Rightarrow> nat \<Rightarrow> 'a list" where
  "spliced [] a i = take i a"
| "spliced ((x, e) # rest) a i = spliced rest a x @ [e] @ take (i - x) (drop x a)"

fun descending :: "(nat \<times> 'a) list \<Rightarrow> nat \<Rightarrow> bool" where
  "descending [] i = True"
| "descending ((x, e) # rest) i = (x \<le> i \<and> descending rest x)"

definition natpos :: "(int \<times> 'a) list \<Rightarrow> (nat \<times> 'a) list" where
  "natpos ins = map (\<lambda>(x, e). (nat x, e)) ins"

definition positions_ok :: "(int \<times> 'a) list \<Rightarrow> nat \<Rightarrow> bool" where
  "positions_ok ins n \<longleftrightarrow> (\<forall>p \<in> set ins. 0 \<le> fst p) \<and> descending (rev (natpos ins)) n"

definition woven :: "'a list \<Rightarrow> (int \<times> 'a) list \<Rightarrow> 'a list" where
  "woven a ins = spliced (rev (natpos ins)) a (length a)"

text \<open>
  The inner loop of the merge without the bookkeeping of positions: the rewritten run
  of A and the elements of B's run that are new.
\<close>

fun mergeRunF :: "'a EqFunc \<Rightarrow> 'a list \<Rightarrow> 'a list \<Rightarrow> 'a list \<times> 'a list" where
  "mergeRunF eq [] ar = (ar, [])"
| "mergeRunF eq (be # br) ar =
     (case IndexFunc ar (\<lambda>ae. eq be ae) of
        Some i \<Rightarrow> mergeRunF eq br (ar[i := be])
      | None \<Rightarrow> (fst (mergeRunF eq br ar), be # snd (mergeRunF eq br ar)))"

text \<open>The merge of B into A as a function of the two lists.\<close>

function mergeF :: "'a CmpFunc \<Rightarrow> 'a EqFunc \<Rightarrow> 'a list \<Rightarrow> 'a list \<Rightarrow> 'a list" where
  "mergeF cmp eq [] b = b"
| "mergeF cmp eq (x # a) [] = x # a"
| "mergeF cmp eq (x # a) (y # b) =
     (if cmp x y < 0 then x # mergeF cmp eq a (y # b)
      else if cmp x y > 0 then y # mergeF cmp eq (x # a) b
      else fst (mergeRunF eq (runEq (y # b) cmp) (runEq (x # a) cmp))
           @ snd (mergeRunF eq (runEq (y # b) cmp) (runEq (x # a) cmp))
           @ mergeF cmp eq (drop (length (runEq (x # a) cmp)) (x # a))
                           (drop (length (runEq (y # b) cmp)) (y # b)))"
  by pat_completeness auto
termination
  by (relation "measure (\<lambda>(cmp, eq, a, b). length a + length b)") auto

text \<open>\<open>keepNot D off xs\<close>: the elements of \<open>xs\<close> whose index, counted from \<open>off\<close>, is not in \<open>D\<close>.\<close>

fun keepNot :: "nat set \<Rightarrow> nat \<Rightarrow> 'a list \<Rightarrow> 'a list" where
  "keepNot D off [] = []"
| "keepNot D off (x # xs) = (if off \<in> D then keepNot D (Suc off) xs else x # keepNot D (Suc off) xs)"

text \<open>The difference A - B as a function of the two lists.\<close>

function diffF :: "'a CmpFunc \<Rightarrow> 'a EqFunc \<Rightarrow> 'a list \<Rightarrow> 'a list \<Rightarrow> 'a list" where
  "diffF cmp eq [] b = []"
| "diffF cmp eq (x # a) [] = x # a"
| "diffF cmp eq (x # a) (y # b) =
     (if cmp x y < 0 then x # diffF cmp eq a (y # b)
      else if cmp x y > 0 then diffF cmp eq (x # a) b
      else filter (\<lambda>ae. \<not> ContainsFunc (runEq (y # b) cmp) (\<lambda>be. eq ae be)) (runEq (x # a) cmp)
           @ diffF cmp eq (drop (length (runEq (x # a) cmp)) (x # a))
                          (drop (length (runEq (y # b) cmp)) (y # b)))"
  by pat_completeness auto
termination
  by (relation "measure (\<lambda>(cmp, eq, a, b). length a + length b)") auto

text \<open>The merge and the difference for ordered element types.\<close>

fun mergeUniqF :: "'a::linorder list \<Rightarrow> 'a list \<Rightarrow> 'a list" where
  "mergeUniqF [] b = b"
| "mergeUniqF (x # a) [] = x # a"
| "mergeUniqF (x # a) (y # b) =
     (if x < y then x # mergeUniqF a (y # b)
      else if x > y then y # mergeUniqF (x # a) b
      else y # mergeUniqF a b)"

fun diffUniqF :: "'a::linorder list \<Rightarrow> 'a list \<Rightarrow> 'a list" where
  "diffUniqF [] b = []"
| "diffUniqF (x # a) [] = x # a"
| "diffUniqF (x # a) (y # b) =
     (if x < y then x # diffUniqF a (y # b)
      else if x > y then diffUniqF (x # a) b
      else diffUniqF a b)"

text \<open>
  The removal of duplicates within one run: an element whose identity is already kept
  overwrites the kept value, a new identity is appended.
\<close>

definition dedupStep :: "'a EqFunc \<Rightarrow> 'a list \<Rightarrow> 'a \<Rightarrow> 'a list" where
  "dedupStep eq acc x =
     (case IndexFunc acc (\<lambda>a. eq x a) of Some idx \<Rightarrow> acc[idx := x] | None \<Rightarrow> acc @ [x])"

definition dedupF :: "'a EqFunc \<Rightarrow> 'a list \<Rightarrow> 'a list" where
  "dedupF eq run = (case run of [] \<Rightarrow> [] | x # xs \<Rightarrow> foldl (dedupStep eq) [x] xs)"

function uniqF :: "'a CmpFunc \<Rightarrow> 'a EqFunc \<Rightarrow> 'a list \<Rightarrow> 'a list" where
  "uniqF cmp eq [] = []"
| "uniqF cmp eq (x # xs) =
     dedupF eq (x # takeWhile (\<lambda>v. cmp v x = 0) xs)
     @ uniqF cmp eq (dropWhile (\<lambda>v. cmp v x = 0) xs)"
  by pat_completeness auto
termination
  by (relation "measure (\<lambda>(cmp, eq, xs). length xs)") (auto simp: length_dropWhile_le less_Suc_eq_le)

section \<open>Preconditions on the caller's functions\<close>

text \<open>
  \<open>cmp_ok\<close>: the comparison function is a three-way comparison of a total preorder.
  \<open>eq_ok\<close>: the equality function is an equivalence relation, and elements that are
  identical have the same sort key.
\<close>

definition cmp_ok :: "'a CmpFunc \<Rightarrow> bool" where
  "cmp_ok cmp \<longleftrightarrow>
     (\<forall>a. cmp a a = 0) \<and>
     (\<forall>a b. (cmp a b < 0) = (cmp b a > 0)) \<and>
     (\<forall>a b c. cmp a b \<le> 0 \<and> cmp b c \<le> 0 \<longrightarrow> cmp a c \<le> 0)"

definition eq_ok :: "'a CmpFunc \<Rightarrow> 'a EqFunc \<Rightarrow> bool" where
  "eq_ok cmp eq \<longleftrightarrow>
     (\<forall>a. eq a a) \<and>
     (\<forall>a b. eq a b \<longrightarrow> eq b a) \<and>
     (\<forall>a b c. eq a b \<and> eq b c \<longrightarrow> eq a c) \<and>
     (\<forall>a b. eq a b \<longrightarrow> cmp a b = 0)"

definition sortedBy :: "'a CmpFunc \<Rightarrow> 'a list \<Rightarrow> bool" where
  "sortedBy cmp xs = sorted_wrt (\<lambda>a b. cmp a b \<le> 0) xs"

definition uniqueBy :: "'a EqFunc \<Rightarrow> 'a list \<Rightarrow> bool" where
  "uniqueBy eq xs = sorted_wrt (\<lambda>a b. \<not> eq a b) xs"

text \<open>
  The invariant of a sorted set: its functions satisfy the preconditions, its elements
  are in non-decreasing order of sort key, and no two of them have the same identity.
\<close>

definition wellFormed :: "'a sortedSet \<Rightarrow> bool" where
  "wellFormed s \<longleftrightarrow>
     cmp_ok (cmpFn s) \<and> eq_ok (cmpFn s) (eqFn s) \<and>
     sortedBy (cmpFn s) (elems s) \<and> uniqueBy (eqFn s) (elems s)"

section \<open>Comparison functions used in the scenarios\<close>

text \<open>
  Strings ordered by length; pairs of a key and a payload, ordered and identified by
  the key.
\<close>

definition byLength :: "string CmpFunc" where
  "byLength a b = cmp_Compare (length a) (length b)"

definition byKey :: "(int \<times> string) CmpFunc" where
  "byKey a b = cmp_Compare (fst a) (fst b)"

definition sameKey :: "(int \<times> string) EqFunc" where
  "sameKey a b = (fst a = fst b)"

definition byDescending :: "int CmpFunc" where
  "byDescending a b = cmp_Compare b a"

definition byTens :: "(int \<times> string) CmpFunc" where
  "byTens a b = cmp_Compare (fst a div 10) (fst b div 10)"

text \<open>
  The union of two sequences as the description of the merge gives it: every element of
  \<open>b\<close>, and the elements of \<open>a\<close> whose identity matches no element of \<open>b\<close>.
\<close>

definition mergeSpec :: "'a EqFunc \<Rightarrow> 'a list \<Rightarrow> 'a list \<Rightarrow> 'a set" where
  "mergeSpec eq a b = set b \<union> {x \<in> set a. \<not> (\<exists>y \<in> set b. eq y x)}"

section \<open>Inserting the elements of a list one at a time\<close>

text \<open>
  The reference behaviour of \<open>InsertSet\<close>: one call of \<open>Insert\<close> for each element of the
  other set's \<open>Elems()\<close>, in their order, on the natural-order set of version 2 and on
  the comparator sets.
\<close>

definition ordered_insertEach :: "'a::linorder list \<Rightarrow> 'a list \<Rightarrow> 'a list option" where
  "ordered_insertEach l es = foldl (\<lambda>acc e. Option.bind acc (\<lambda>l'. ordered_insert l' e)) (Some l) es"

definition insertEach :: "'a sortedSet \<Rightarrow> 'a list \<Rightarrow> 'a sortedSet option" where
  "insertEach s es = foldl (\<lambda>acc e. Option.bind acc (\<lambda>s'. Insert s' e)) (Some s) es"

section \<open>Removal of duplicates, as the description words it\<close>

text \<open>
  \<open>runsOf\<close> cuts a list into its runs: a run starts at an element and goes on while the
  elements have the sort key of that element. \<open>dedupSpec\<close> keeps one element for each
  identity of a list, the identities in the order of their first occurrences, each with
  the value of its last occurrence.
\<close>

function runsOf :: "'a CmpFunc \<Rightarrow> 'a list \<Rightarrow> 'a list list" where
  "runsOf cmp [] = []"
| "runsOf cmp (x # xs) =
     (x # takeWhile (\<lambda>v. cmp x v = 0) xs) # runsOf cmp (dropWhile (\<lambda>v. cmp x v = 0) xs)"
  by pat_completeness auto
termination
  by (relation "measure (\<lambda>(cmp, xs). length xs)") (auto simp: length_dropWhile_le less_Suc_eq_le)

function dedupSpec :: "'a EqFunc \<Rightarrow> 'a list \<Rightarrow> 'a list" where
  "dedupSpec eq [] = []"
| "dedupSpec eq (x # xs) =
     last (x # filter (\<lambda>v. eq x v) xs) # dedupSpec eq (filter (\<lambda>v. \<not> eq x v) xs)"
  by pat_completeness auto
termination
  by (relation "measure (\<lambda>(eq, xs). length xs)") (auto simp: less_Suc_eq_le)

section \<open>Sequences of public operations\<close>







section \<open>The loops compute the functional descriptions\<close>

text \<open>
  The defining equations of the loops are unconditional and recursive; they are used by
  explicit unfolding only.
\<close>

declare sort_Search_loop.simps [simp del]
declare mergeSortedLists_loop.simps [simp del]
declare diffSortedLists_loop.simps [simp del]
declare uniqEqSlow_loop.simps [simp del]
declare uniqCmpEq_loop.simps [simp del]
declare search_scan.simps [simp del]
declare mergeUniqSortedLists_loop.simps [simp del]
declare diffUniqSortedLists_loop.simps [simp del]

lemma reslice_nat:
  "p \<le> q \<Longrightarrow> q \<le> length a \<Longrightarrow> reslice a (int p) (int q) = Some (take (q - p) (drop p a))"
  by (simp add: reslice_def nat_diff_distrib')

lemma copy_range_nat:
  "p \<le> q \<Longrightarrow> q \<le> length a \<Longrightarrow>
   copy_range a (int p) (int q) src =
     Some (take p a @ take (min (q - p) (length src)) src @ drop (p + min (q - p) (length src)) a,
           int (min (q - p) (length src)))"
  by (simp add: copy_range_def Let_def nat_diff_distrib')

lemma copy_from_nat:
  "p \<le> length a \<Longrightarrow>
   copy_from a (int p) src =
     Some (take p a @ take (min (length a - p) (length src)) src
             @ drop (p + min (length a - p) (length src)) a,
           int (min (length a - p) (length src)))"
  by (simp add: copy_from_def copy_range_nat)

lemma store_at_nat:
  "p < length a \<Longrightarrow> store_at a (int p) v = Some (a[p := v])"
  by (simp add: store_at_def)

lemma clear_from_nat:
  "p \<le> length a \<Longrightarrow> clear_from z a (int p) = Some (take p a @ replicate (length a - p) z)"
  by (simp add: clear_from_def)

lemma spliced_cong:
  "descending r i \<Longrightarrow> take i a = take i a' \<Longrightarrow> spliced r a i = spliced r a' i"
proof (induction r arbitrary: i)
  case Nil
  then show ?case by simp
next
  case (Cons p r)
  obtain x e where p: "p = (x, e)" by (cases p)
  from Cons.prems p have xi: "x \<le> i" and d: "descending r x" by simp_all
  from Cons.prems(2) xi have t: "take x a = take x a'"
    by (metis min.absorb1 take_take)
  have "take (i - x) (drop x a) = drop x (take i a)" by (simp add: drop_take)
  also have "\<dots> = drop x (take i a')" using Cons.prems(2) by simp
  also have "\<dots> = take (i - x) (drop x a')" by (simp add: drop_take)
  finally show ?case using Cons.IH[OF d t] p by simp
qed

lemma doInserts_spliced:
  "descending r i \<Longrightarrow> k = i + length r \<Longrightarrow> k \<le> length cur \<Longrightarrow>
   doInserts (map (\<lambda>(x, e). (int x, e)) r) cur (int i) (int k) = Some (spliced r cur i @ drop k cur)"
proof (induction r arbitrary: i k cur)
  case Nil
  then show ?case by simp
next
  case (Cons p r)
  obtain x e where p: "p = (x, e)" by (cases p)
  from Cons.prems p have xi: "x \<le> i" and d: "descending r x" by simp_all
  define n where "n = i - x"
  define src where "src = take n (drop x cur)"
  define k' where "k' = x + length r"
  have k: "k = k' + n + 1" using Cons.prems(2) xi by (simp add: n_def k'_def)
  have il: "i \<le> length cur" using Cons.prems(2,3) by simp
  have lsrc: "length src = n" using il xi by (simp add: src_def n_def)
  define cur1 where "cur1 = take (k - n) cur @ src @ drop k cur"
  define cur2 where "cur2 = cur1[k' := e]"
  have e1: "int i - int x = int n" using xi by (simp add: n_def)
  have e2: "int k - int n = int (k - n)" using k by simp
  have e3: "int x + int n = int (x + n)" by simp
  have e4: "int k - (int n + 1) = int k'" using k by simp
  have r1: "reslice cur (int x) (int (x + n)) = Some src"
    using xi il by (subst reslice_nat) (simp_all add: src_def n_def)
  have r2: "copy_range cur (int (k - n)) (int k) src = Some (cur1, int n)"
    using Cons.prems(3) k lsrc by (subst copy_range_nat) (simp_all add: cur1_def)
  have l1: "length cur1 = length cur" using Cons.prems(3) k lsrc by (simp add: cur1_def)
  have r3: "store_at cur1 (int k') e = Some cur2"
    using l1 Cons.prems(3) k by (subst store_at_nat) (simp_all add: cur2_def)
  have l2: "length cur2 = length cur" using l1 by (simp add: cur2_def)
  have step: "doInserts (map (\<lambda>(x, e). (int x, e)) (p # r)) cur (int i) (int k)
      = doInserts (map (\<lambda>(x, e). (int x, e)) r) cur2 (int x) (int k')"
    by (simp add: p e1 e2 e3 e4 r1 r2 r3 del: of_nat_add)
  have ih: "doInserts (map (\<lambda>(x, e). (int x, e)) r) cur2 (int x) (int k')
      = Some (spliced r cur2 x @ drop k' cur2)"
    using Cons.IH[OF d, of k' cur2] l2 Cons.prems(3) k by (simp add: k'_def)
  have xk': "x \<le> k'" by (simp add: k'_def)
  have knl: "k - n \<le> length cur" using Cons.prems(3) by simp
  have xkn: "x \<le> k - n" using k xk' by simp
  have "take x cur1 = take x cur"
    using knl xkn by (simp add: cur1_def)
  then have tk: "take x cur2 = take x cur"
    using xk' by (simp add: cur2_def)
  have sp: "spliced r cur2 x = spliced r cur x" by (rule spliced_cong[OF d tk])
  have kk: "k - n = k' + 1" using k by simp
  have "cur1 = take k' cur @ (cur ! k') # src @ drop k cur"
    using Cons.prems(3) k by (simp add: cur1_def kk take_Suc_conv_app_nth)
  then have "cur2 = take k' cur @ e # src @ drop k cur"
    using Cons.prems(3) k by (simp add: cur2_def list_update_append)
  then have dr: "drop k' cur2 = e # src @ drop k cur"
    using Cons.prems(3) k by simp
  show ?case unfolding step ih sp dr by (simp add: p src_def n_def)
qed

lemma natpos_map_int:
  "\<forall>p \<in> set ins. 0 \<le> fst p \<Longrightarrow> map (\<lambda>(x, e). (int x, e)) (natpos ins) = ins"
  by (induction ins) (auto simp: natpos_def)

lemma natpos_rev: "natpos (rev ins) = rev (natpos ins)"
  by (simp add: natpos_def rev_map)

lemma natpos_append: "natpos (xs @ ys) = natpos xs @ natpos ys"
  by (simp add: natpos_def)

lemma descending_le: "descending r i \<Longrightarrow> i \<le> j \<Longrightarrow> descending r j"
  by (cases r) auto

lemma insertInto_woven:
  assumes ok: "positions_ok ins (length a)"
  shows "insertInto z a tail ins = Some (woven a ins @ tail)"
proof -
  define r where "r = rev (natpos ins)"
  have nn: "\<forall>p \<in> set (rev ins). 0 \<le> fst p" using ok by (simp add: positions_ok_def)
  have d: "descending r (length a)" using ok by (simp add: positions_ok_def r_def)
  have rr: "rev ins = map (\<lambda>(x, e). (int x, e)) r"
    using natpos_map_int[OF nn] by (simp add: r_def natpos_rev)
  define k1 where "k1 = length a + length ins"
  define grown where "grown = a @ replicate (length ins + length tail) z"
  define a1 where "a1 = take k1 grown @ tail"
  have lr: "length r = length ins" by (simp add: r_def natpos_def)
  have lg: "length grown = k1 + length tail" by (simp add: grown_def k1_def)
  have c: "copy_from grown (int k1) tail = Some (a1, int (length tail))"
    using lg by (subst copy_from_nat) (simp_all add: a1_def)
  have la1: "k1 \<le> length a1" using lg by (simp add: a1_def)
  have ta: "take (length a) a1 = take (length a) a"
    by (simp add: a1_def grown_def k1_def)
  have "doInserts (map (\<lambda>(x, e). (int x, e)) r) a1 (int (length a)) (int k1)
      = Some (spliced r a1 (length a) @ drop k1 a1)"
    by (rule doInserts_spliced[OF d _ la1]) (simp add: k1_def lr)
  moreover have "spliced r a1 (length a) = spliced r a (length a)"
    by (rule spliced_cong[OF d ta])
  moreover have "drop k1 a1 = tail" using lg by (simp add: a1_def)
  ultimately have di: "doInserts (rev ins) a1 (int (length a)) (int k1) = Some (woven a ins @ tail)"
    by (simp add: rr woven_def r_def)
  have e1: "int (length a) + (int (length ins) + int (length tail)) - int (length tail) = int k1"
    by (simp add: k1_def)
  have e2: "a @ replicate (nat (int (length a) + (int (length ins) + int (length tail)) - int (length a))) z = grown"
    by (simp add: grown_def nat_add_distrib)
  show ?thesis
    unfolding insertInto_def Let_def e1 e2 by (simp add: c di)
qed

lemma woven_Nil [simp]: "woven a [] = a"
  by (simp add: woven_def natpos_def)

lemma spliced_append:
  "descending r (length a) \<Longrightarrow> spliced r (a @ ys) (length a + length ys) = spliced r a (length a) @ ys"
proof (cases r)
  case Nil
  then show ?thesis by simp
next
  case (Cons p r')
  obtain x e where p: "p = (x, e)" by (cases p)
  assume "descending r (length a)"
  with Cons p have xl: "x \<le> length a" and d: "descending r' x" by simp_all
  have "spliced r' (a @ ys) x = spliced r' a x"
    by (rule spliced_cong[OF d]) (use xl in simp)
  then show ?thesis using Cons p xl by simp
qed

lemma woven_append:
  "positions_ok ins (length a) \<Longrightarrow> woven (a @ ys) ins = woven a ins @ ys"
  using spliced_append[of "rev (natpos ins)" a ys] by (simp add: woven_def positions_ok_def)

lemma woven_snoc:
  "positions_ok ins (length a) \<Longrightarrow> woven a (ins @ [(int (length a), e)]) = woven a ins @ [e]"
  by (simp add: woven_def positions_ok_def natpos_append natpos_def)

lemma positions_ok_snoc:
  "positions_ok ins n \<Longrightarrow> positions_ok (ins @ [(int n, e)]) n"
  by (simp add: positions_ok_def natpos_append natpos_def)

lemma positions_ok_mono:
  "positions_ok ins n \<Longrightarrow> n \<le> m \<Longrightarrow> positions_ok ins m"
  by (auto simp: positions_ok_def intro: descending_le)

lemma positions_ok_Nil [simp]: "positions_ok [] n"
  by (simp add: positions_ok_def natpos_def)

lemma mergeRun_F:
  "mergeRun eq p br ar ins
     = (fst (mergeRunF eq br ar), ins @ map (\<lambda>e. (p, e)) (snd (mergeRunF eq br ar)))"
  by (induction br arbitrary: ar ins) (auto split: option.splits)

lemma IndexFunc_less: "IndexFunc xs f = Some i \<Longrightarrow> i < length xs"
  by (induction xs arbitrary: i) (auto split: if_splits)

lemma length_mergeRunF [simp]: "length (fst (mergeRunF eq br ar)) = length ar"
  by (induction br arbitrary: ar) (auto split: option.splits)

lemma length_runEq_le: "length (runEq xs cmp) \<le> length xs"
  by (cases xs) (simp_all add: length_takeWhile_le)

lemma runEq_nonempty: "xs \<noteq> [] \<Longrightarrow> 0 < length (runEq xs cmp)"
  by (cases xs) simp_all

lemma positions_ok_same:
  "positions_ok ins n \<Longrightarrow> n \<le> m \<Longrightarrow> positions_ok (ins @ map (\<lambda>e. (int m, e)) news) m"
proof (induction news rule: rev_induct)
  case Nil
  then show ?case by (simp add: positions_ok_mono)
next
  case (snoc e news)
  then have "positions_ok ((ins @ map (\<lambda>e. (int m, e)) news) @ [(int m, e)]) m"
    by (intro positions_ok_snoc) simp
  then show ?case by simp
qed

lemma woven_same:
  "positions_ok ins (length a) \<Longrightarrow>
   woven a (ins @ map (\<lambda>e. (int (length a), e)) news) = woven a ins @ news"
proof (induction news rule: rev_induct)
  case Nil
  then show ?case by simp
next
  case (snoc e news)
  have ok: "positions_ok (ins @ map (\<lambda>e. (int (length a), e)) news) (length a)"
    using snoc.prems by (rule positions_ok_same) simp
  have "woven a ((ins @ map (\<lambda>e. (int (length a), e)) news) @ [(int (length a), e)])
      = woven a (ins @ map (\<lambda>e. (int (length a), e)) news) @ [e]"
    by (rule woven_snoc[OF ok])
  with snoc show ?case by simp
qed

lemma mergeF_Nil2 [simp]: "mergeF cmp eq a [] = a"
  by (cases a) simp_all

lemma merge_loop:
  "length a = an \<Longrightarrow> ai \<le> an \<Longrightarrow> bi \<le> length b \<Longrightarrow> positions_ok ins ai \<Longrightarrow>
   (case mergeSortedLists_loop cmp eq an a b ai bi ins of
      (a', bi', ins') \<Rightarrow>
        length a' = an \<and> positions_ok ins' an \<and>
        woven a' ins' @ drop bi' b = woven (take ai a) ins @ mergeF cmp eq (drop ai a) (drop bi b))"
proof (induction cmp eq an a b ai bi ins rule: mergeSortedLists_loop.induct)
  case (1 cmp eq an a b ai bi inserts)
  note prems = "1.prems"
  show ?case
  proof (cases "ai < an \<and> bi < length b")
    case False
    have w: "woven a inserts = woven (take ai a) inserts @ drop ai a"
      using woven_append[of inserts "take ai a" "drop ai a"] prems by simp
    have m: "mergeF cmp eq (drop ai a) (drop bi b) = drop ai a @ drop bi b"
    proof (cases "ai < an")
      case True
      with False prems have "drop bi b = []" by simp
      then show ?thesis by simp
    next
      case False
      with prems have "drop ai a = []" by simp
      then show ?thesis by simp
    qed
    have "mergeSortedLists_loop cmp eq an a b ai bi inserts = (a, bi, inserts)"
      by (subst mergeSortedLists_loop.simps) (simp only: False if_False simp_thms)
    then show ?thesis using prems w m by (simp add: positions_ok_mono)
  next
    case True
    then have ai: "ai < an" and bi: "bi < length b" by simp_all
    have da: "drop ai a = a ! ai # drop (Suc ai) a"
      using ai prems by (simp add: Cons_nth_drop_Suc)
    have db: "drop bi b = b ! bi # drop (Suc bi) b"
      using bi by (simp add: Cons_nth_drop_Suc)
    have tk: "take (Suc ai) a = take ai a @ [a ! ai]"
      using ai prems by (simp add: take_Suc_conv_app_nth)
    have okt: "positions_ok inserts (length (take ai a))" using prems by simp
    consider (lt) "cmp (a ! ai) (b ! bi) < 0"
      | (gt) "\<not> cmp (a ! ai) (b ! bi) < 0" "cmp (a ! ai) (b ! bi) > 0"
      | (eq) "\<not> cmp (a ! ai) (b ! bi) < 0" "\<not> cmp (a ! ai) (b ! bi) > 0"
      by blast
    then show ?thesis
    proof cases
      case lt
      have step: "mergeSortedLists_loop cmp eq an a b ai bi inserts
          = mergeSortedLists_loop cmp eq an a b (Suc ai) bi inserts"
        by (subst mergeSortedLists_loop.simps) (simp only: ai bi lt if_True simp_thms Suc_eq_plus1)
      have ih: "case mergeSortedLists_loop cmp eq an a b (Suc ai) bi inserts of
          (a', bi', ins') \<Rightarrow> length a' = an \<and> positions_ok ins' an \<and>
            woven a' ins' @ drop bi' b
              = woven (take (Suc ai) a) inserts @ mergeF cmp eq (drop (Suc ai) a) (drop bi b)"
        using "1.IH"(1)[OF True lt] prems ai by (simp add: positions_ok_mono)
      have w: "woven (take (Suc ai) a) inserts = woven (take ai a) inserts @ [a ! ai]"
        using woven_append[OF okt, of "[a ! ai]"] tk by simp
      have m: "mergeF cmp eq (drop ai a) (drop bi b)
          = a ! ai # mergeF cmp eq (drop (Suc ai) a) (drop bi b)"
        using lt by (simp add: da) (simp add: db)
      show ?thesis unfolding step using ih by (simp add: w m split: prod.splits)
    next
      case gt
      have step: "mergeSortedLists_loop cmp eq an a b ai bi inserts
          = mergeSortedLists_loop cmp eq an a b ai (Suc bi) (inserts @ [(int ai, b ! bi)])"
        by (subst mergeSortedLists_loop.simps) (simp only: ai bi gt if_True if_False simp_thms Suc_eq_plus1)
      have ih: "case mergeSortedLists_loop cmp eq an a b ai (Suc bi) (inserts @ [(int ai, b ! bi)]) of
          (a', bi', ins') \<Rightarrow> length a' = an \<and> positions_ok ins' an \<and>
            woven a' ins' @ drop bi' b
              = woven (take ai a) (inserts @ [(int ai, b ! bi)])
                @ mergeF cmp eq (drop ai a) (drop (Suc bi) b)"
        using "1.IH"(2)[OF True gt] prems bi by (simp add: positions_ok_snoc)
      have w: "woven (take ai a) (inserts @ [(int ai, b ! bi)]) = woven (take ai a) inserts @ [b ! bi]"
        using woven_snoc[OF okt, of "b ! bi"] prems by simp
      have m: "mergeF cmp eq (drop ai a) (drop bi b)
          = b ! bi # mergeF cmp eq (drop ai a) (drop (Suc bi) b)"
        using gt by (simp add: db) (simp add: da)
      show ?thesis unfolding step using ih by (simp add: w m split: prod.splits)
    next
      case eq
      define ar where "ar = runEq (drop ai a) cmp"
      define br where "br = runEq (drop bi b) cmp"
      define ai' where "ai' = ai + length ar"
      define bi' where "bi' = bi + length br"
      define ar' where "ar' = fst (mergeRunF eq br ar)"
      define news where "news = snd (mergeRunF eq br ar)"
      define a1 where "a1 = take ai a @ ar' @ drop ai' a"
      define ins1 where "ins1 = inserts @ map (\<lambda>e. (int ai', e)) news"
      have mr: "mergeRun eq (int ai') br ar inserts = (ar', ins1)"
        by (simp add: mergeRun_F ar'_def news_def ins1_def)
      have mr1: "fst (mergeRun eq (int (ai + length (runEq (drop ai a) cmp)))
                       (runEq (drop bi b) cmp) (runEq (drop ai a) cmp) inserts) = ar'"
        using mr by (simp add: ai'_def ar_def br_def)
      have mr2: "snd (mergeRun eq (int (ai + length (runEq (drop ai a) cmp)))
                       (runEq (drop bi b) cmp) (runEq (drop ai a) cmp) inserts) = ins1"
        using mr by (simp add: ai'_def ar_def br_def)
      have step: "mergeSortedLists_loop cmp eq an a b ai bi inserts
          = mergeSortedLists_loop cmp eq an a1 b ai' bi' ins1"
        unfolding a1_def ai'_def bi'_def ar_def br_def
        by (subst mergeSortedLists_loop.simps) (simp only: ai bi eq if_True if_False simp_thms mr1 mr2)
      have lar: "length ar \<le> an - ai"
        using length_runEq_le[of "drop ai a" cmp] prems by (simp add: ar_def)
      have lbr: "length br \<le> length b - bi"
        using length_runEq_le[of "drop bi b" cmp] by (simp add: br_def)
      have ai'le: "ai' \<le> an" using lar ai by (simp add: ai'_def)
      have bi'le: "bi' \<le> length b" using lbr bi by (simp add: bi'_def)
      have la1: "length a1 = an" using prems ai'le lar by (simp add: a1_def ar'_def ai'_def)
      have ok1: "positions_ok ins1 ai'"
        unfolding ins1_def by (rule positions_ok_same[OF prems(4)]) (simp add: ai'_def)
      have ih: "case mergeSortedLists_loop cmp eq an a1 b ai' bi' ins1 of
          (a', bi'', ins') \<Rightarrow> length a' = an \<and> positions_ok ins' an \<and>
            woven a' ins' @ drop bi'' b
              = woven (take ai' a1) ins1 @ mergeF cmp eq (drop ai' a1) (drop bi' b)"
        using "1.IH"(3)[OF True eq, unfolded mr1 mr2, folded ar_def br_def, folded ai'_def bi'_def,
                         folded a1_def] la1 ai'le bi'le ok1
        by simp
      have lta: "length (take ai a @ ar') = ai'" using prems ai by (simp add: ar'_def ai'_def)
      have t1: "take ai' a1 = take ai a @ ar'"
        using lta unfolding a1_def by (metis append.assoc append_eq_conv_conj)
      have d1: "drop ai' a1 = drop ai' a"
        using lta unfolding a1_def by (metis append.assoc append_eq_conv_conj)
      have ok2: "positions_ok inserts (length (take ai a @ ar'))"
        using prems lta by (auto intro: positions_ok_mono simp: ai'_def)
      have w: "woven (take ai' a1) ins1 = woven (take ai a) inserts @ ar' @ news"
      proof -
        have "woven (take ai a @ ar') ins1 = woven (take ai a @ ar') inserts @ news"
          using woven_same[OF ok2, of news, unfolded lta] by (simp only: ins1_def)
        also have "woven (take ai a @ ar') inserts = woven (take ai a) inserts @ ar'"
          by (rule woven_append[OF okt])
        finally show ?thesis by (simp add: t1)
      qed
      have dd: "drop (length ar) (drop ai a) = drop ai' a" by (simp add: ai'_def add.commute)
      have dd2: "drop (length br) (drop bi b) = drop bi' b" by (simp add: bi'_def add.commute)
      have m: "mergeF cmp eq (drop ai a) (drop bi b)
          = ar' @ news @ mergeF cmp eq (drop ai' a) (drop bi' b)"
        unfolding dd[symmetric] dd2[symmetric] ar'_def news_def ar_def br_def
        using eq by (simp add: da) (simp add: db)
      show ?thesis unfolding step using ih by (simp add: w m d1 split: prod.splits)
    qed
  qed
qed

lemma mergeSortedLists_F: "mergeSortedLists z a b cmp eq = Some (mergeF cmp eq a b)"
proof -
  obtain a' bi' ins' where l: "mergeSortedLists_loop cmp eq (length a) a b 0 0 [] = (a', bi', ins')"
    by (cases "mergeSortedLists_loop cmp eq (length a) a b 0 0 []") auto
  from merge_loop[of a "length a" 0 0 b "[]" cmp eq] l
  have la: "length a' = length a" and ok: "positions_ok ins' (length a)"
    and w: "woven a' ins' @ drop bi' b = mergeF cmp eq a b"
    by simp_all
  show ?thesis
    using insertInto_woven[of ins' a' z "drop bi' b"] ok la w
    by (simp add: mergeSortedLists_def l)
qed

lemma copy_from_fit:
  "p + length src \<le> length a \<Longrightarrow>
   copy_from a (int p) src = Some (take p a @ src @ drop (p + length src) a, int (length src))"
proof -
  assume h: "p + length src \<le> length a"
  then have "min (length a - p) (length src) = length src" by simp
  then show ?thesis using h by (subst copy_from_nat) simp_all
qed

lemma take_app_len: "length xs = n \<Longrightarrow> take n (xs @ ys) = xs"
  by simp

lemma drop_app_len: "length xs = n \<Longrightarrow> drop n (xs @ ys) = ys"
  by simp

lemma keepNot_cong:
  "(\<And>i. off \<le> i \<Longrightarrow> i < off + length xs \<Longrightarrow> (i \<in> D) = (i \<in> D')) \<Longrightarrow>
   keepNot D off xs = keepNot D' off xs"
proof (induction xs arbitrary: off)
  case Nil
  then show ?case by simp
next
  case (Cons x xs)
  have "keepNot D (Suc off) xs = keepNot D' (Suc off) xs"
    by (rule Cons.IH) (use Cons.prems in simp)
  moreover have "(off \<in> D) = (off \<in> D')" by (rule Cons.prems) simp_all
  ultimately show ?case by simp
qed

lemma keepNot_none:
  "(\<And>i. off \<le> i \<Longrightarrow> i < off + length xs \<Longrightarrow> i \<notin> D) \<Longrightarrow> keepNot D off xs = xs"
proof (induction xs arbitrary: off)
  case Nil
  then show ?case by simp
next
  case (Cons x xs)
  have "keepNot D (Suc off) xs = xs" by (rule Cons.IH) (use Cons.prems in simp)
  moreover have "off \<notin> D" by (rule Cons.prems) simp_all
  ultimately show ?case by simp
qed

lemma keepNot_append:
  "keepNot D off (xs @ ys) = keepNot D off xs @ keepNot D (off + length xs) ys"
  by (induction xs arbitrary: off) simp_all

lemma keepNot_filter:
  "(\<And>i. i < length xs \<Longrightarrow> (off + i \<in> D) = P (xs ! i)) \<Longrightarrow>
   keepNot D off xs = filter (\<lambda>x. \<not> P x) xs"
proof (induction xs arbitrary: off)
  case Nil
  then show ?case by simp
next
  case (Cons x xs)
  have "keepNot D (Suc off) xs = filter (\<lambda>x. \<not> P x) xs"
  proof (rule Cons.IH)
    fix i assume "i < length xs"
    then show "(Suc off + i \<in> D) = P (xs ! i)" using Cons.prems[of "Suc i"] by simp
  qed
  moreover have "(off \<in> D) = P x" using Cons.prems[of 0] by simp
  ultimately show ?case by simp
qed

lemma deleteFrom_loop_keep:
  "sorted_wrt (<) ds \<Longrightarrow> (\<forall>d \<in> set ds. src \<le> d \<and> d < length cur) \<Longrightarrow> dst \<le> src \<Longrightarrow>
   src \<le> length cur \<Longrightarrow>
   \<exists>cur' dst' src'.
     deleteFrom_loop cur (map int ds) (int dst) (int src) = Some (cur', int dst', int src') \<and>
     length cur' = length cur \<and> dst' \<le> src' \<and> src' \<le> length cur \<and>
     src' - dst' = src - dst + length ds \<and>
     take dst' cur' @ drop src' cur' = take dst cur @ keepNot (set ds) src (drop src cur)"
proof (induction ds arbitrary: cur dst src)
  case Nil
  have "keepNot {} src (drop src cur) = drop src cur" by (rule keepNot_none) simp
  then show ?case using Nil by simp
next
  case (Cons d ds)
  from Cons.prems have sd: "src \<le> d" and dl: "d < length cur" by simp_all
  define seg where "seg = take (d - src) (drop src cur)"
  define m where "m = d - src"
  have lseg: "length seg = m" using sd dl by (simp add: seg_def m_def)
  define cur1 where "cur1 = take dst cur @ seg @ drop (dst + m) cur"
  have dm: "dst + m \<le> d" using Cons.prems(3) sd by (simp add: m_def)
  have l1: "length cur1 = length cur" using dm dl lseg by (simp add: cur1_def)
  have r1: "reslice cur (int src) (int d) = Some seg"
    using sd dl by (subst reslice_nat) (simp_all add: seg_def)
  have dstl: "dst \<le> length cur" using Cons.prems(3,4) by simp
  have r2: "copy_from cur (int dst) seg = Some (cur1, int m)"
    using dm dl lseg by (subst copy_from_fit) (simp_all add: cur1_def)
  have step: "deleteFrom_loop cur (map int (d # ds)) (int dst) (int src)
      = deleteFrom_loop cur1 (map int ds) (int (dst + m)) (int (Suc d))"
    by (simp add: r1 r2 add.commute)
  have s': "sorted_wrt (<) ds" using Cons.prems(1) by simp
  have b': "\<forall>d' \<in> set ds. Suc d \<le> d' \<and> d' < length cur1"
    using Cons.prems(1,2) l1 by auto
  from Cons.IH[OF s' b', of "dst + m"] dm dl l1
  obtain cur' dst' src' where
    res: "deleteFrom_loop cur1 (map int ds) (int (dst + m)) (int (Suc d)) = Some (cur', int dst', int src')"
    and lc: "length cur' = length cur1" and ds': "dst' \<le> src'" and sl: "src' \<le> length cur1"
    and diff: "src' - dst' = Suc d - (dst + m) + length ds"
    and eq: "take dst' cur' @ drop src' cur'
        = take (dst + m) cur1 @ keepNot (set ds) (Suc d) (drop (Suc d) cur1)"
    by auto
  have lpre: "length (take dst cur @ seg) = dst + m" using dstl lseg by simp
  have t1: "take (dst + m) cur1 = take dst cur @ seg"
    using take_app_len[OF lpre, of "drop (dst + m) cur"] by (simp add: cur1_def)
  have d1: "drop (Suc d) cur1 = drop (Suc d) cur"
  proof -
    have "drop (dst + m) cur1 = drop (dst + m) cur"
      using drop_app_len[OF lpre, of "drop (dst + m) cur"] by (simp add: cur1_def)
    then have "drop (Suc d - (dst + m)) (drop (dst + m) cur1) = drop (Suc d - (dst + m)) (drop (dst + m) cur)"
      by simp
    then show ?thesis using dm by simp
  qed
  have split: "drop src cur = seg @ cur ! d # drop (Suc d) cur"
  proof -
    have "drop src cur = take (d - src) (drop src cur) @ drop (d - src) (drop src cur)"
      by (rule append_take_drop_id[symmetric])
    also have "drop (d - src) (drop src cur) = drop d cur" using sd by simp
    also have "\<dots> = cur ! d # drop (Suc d) cur" using dl by (simp add: Cons_nth_drop_Suc)
    finally show ?thesis by (simp add: seg_def)
  qed
  have k1: "keepNot (set (d # ds)) src seg = seg"
  proof (rule keepNot_none)
    fix i assume "src \<le> i" "i < src + length seg"
    then have "i < d" using lseg sd by (simp add: m_def)
    then show "i \<notin> set (d # ds)" using Cons.prems(1) by auto
  qed
  have k2: "keepNot (set (d # ds)) (Suc d) (drop (Suc d) cur) = keepNot (set ds) (Suc d) (drop (Suc d) cur)"
    by (rule keepNot_cong) auto
  have sm: "src + length seg = d" using lseg sd by (simp add: m_def)
  have k: "keepNot (set (d # ds)) src (drop src cur) = seg @ keepNot (set ds) (Suc d) (drop (Suc d) cur)"
    unfolding split keepNot_append k1 sm using k2 by simp
  have diff': "src' - dst' = src - dst + length (d # ds)"
    using diff dm sd Cons.prems(3) by (simp add: m_def)
  show ?case
    unfolding step using res lc ds' sl l1 diff' eq t1 d1 k by simp
qed

lemma deleteFrom_keep:
  assumes s: "sorted_wrt (<) ds" and b: "\<forall>d \<in> set ds. d < length a"
  shows "deleteFrom z a (map int ds) = Some (keepNot (set ds) 0 a)"
proof (cases ds)
  case Nil
  have "keepNot {} 0 a = a" by (rule keepNot_none) simp
  then show ?thesis using Nil by (simp add: deleteFrom_def)
next
  case (Cons d0 rest)
  from s b Cons have s': "sorted_wrt (<) rest" and b': "\<forall>d \<in> set rest. Suc d0 \<le> d \<and> d < length a"
    and d0: "d0 < length a" by auto
  from deleteFrom_loop_keep[OF s' b', of d0] d0
  obtain cur' dst' src' where
    res: "deleteFrom_loop a (map int rest) (int d0) (int (Suc d0)) = Some (cur', int dst', int src')"
    and lc: "length cur' = length a" and ds': "dst' \<le> src'" and sl: "src' \<le> length a"
    and diff: "src' - dst' = Suc d0 - d0 + length rest"
    and eq: "take dst' cur' @ drop src' cur' = take d0 a @ keepNot (set rest) (Suc d0) (drop (Suc d0) a)"
    by auto
  define n where "n = length a"
  define seg where "seg = drop src' cur'"
  define a2 where "a2 = take dst' cur' @ seg @ drop (dst' + length seg) cur'"
  define nd where "nd = dst' + length seg"
  have lseg: "length seg = n - src'" by (simp add: seg_def lc n_def)
  have r1: "reslice cur' (int src') (int (length cur')) = Some seg"
    using sl lc by (subst reslice_nat) (simp_all add: seg_def)
  have r2: "copy_from cur' (int dst') seg = Some (a2, int (length seg))"
    using ds' sl lc lseg by (subst copy_from_fit) (simp_all add: a2_def n_def)
  have la2: "length a2 = n" using ds' sl lc lseg by (simp add: a2_def n_def)
  have ndn: "nd \<le> n" using ds' sl lseg by (simp add: nd_def n_def)
  have nd_eq: "int n - int (length ds) = int nd"
    using diff ds' sl lseg Cons by (simp add: nd_def n_def)
  have r3: "clear_from z a2 (int nd) = Some (take nd a2 @ replicate (n - nd) z)"
    using ndn la2 by (subst clear_from_nat) simp_all
  have r4: "reslice (take nd a2 @ replicate (n - nd) z) 0 (int nd) = Some (take nd a2)"
    using ndn la2 reslice_nat[of 0 nd "take nd a2 @ replicate (n - nd) z"] by simp
  have lpre: "length (take dst' cur' @ seg) = nd" using ds' sl lc by (simp add: nd_def)
  have tk: "take nd a2 = take dst' cur' @ seg"
    using take_app_len[OF lpre, of "drop (dst' + length seg) cur'"] by (simp add: a2_def)
  have split: "a = take d0 a @ a ! d0 # drop (Suc d0) a"
    using d0 by (simp add: id_take_nth_drop[symmetric])
  have k1: "keepNot (set ds) 0 (take d0 a) = take d0 a"
  proof (rule keepNot_none)
    fix i assume "i < 0 + length (take d0 a)"
    then have "i < d0" by simp
    then show "i \<notin> set ds" using s Cons by auto
  qed
  have k2: "keepNot (set ds) (Suc d0) (drop (Suc d0) a) = keepNot (set rest) (Suc d0) (drop (Suc d0) a)"
    unfolding Cons by (rule keepNot_cong) auto
  have "keepNot (set ds) 0 a = keepNot (set ds) 0 (take d0 a @ a ! d0 # drop (Suc d0) a)"
    using split by simp
  also have "\<dots> = take d0 a @ keepNot (set rest) (Suc d0) (drop (Suc d0) a)"
    unfolding keepNot_append k1 using k2 d0 Cons by (simp add: min.absorb2)
  finally have k: "keepNot (set ds) 0 a = take dst' cur' @ seg" using eq by (simp add: seg_def)
  have e0: "int d0 + 1 = int (Suc d0)" by simp
  show ?thesis
    unfolding deleteFrom_def Let_def Cons list.map list.case e0 res
    using r1 r2 r3 r4 tk k nd_eq Cons by (simp add: n_def[symmetric] la2)
qed

subsection \<open>Binary search and \<open>search\<close>\<close>

lemma sort_Search_loop_bounds:
  "i \<le> j \<Longrightarrow> i \<le> sort_Search_loop f i j \<and> sort_Search_loop f i j \<le> j"
proof (induction f i j rule: sort_Search_loop.induct)
  case (1 f i j)
  show ?case
  proof (cases "i < j")
    case False
    then have "sort_Search_loop f i j = i" by (subst sort_Search_loop.simps) simp
    then show ?thesis using "1.prems" by simp
  next
    case True
    define h where "h = (i + j) div 2"
    have h: "i \<le> h" "h < j" using True by (simp_all add: h_def)
    show ?thesis
    proof (cases "f h")
      case f: True
      have e: "sort_Search_loop f i j = sort_Search_loop f i h"
        using True f by (subst sort_Search_loop.simps) (simp add: h_def)
      show ?thesis unfolding e using "1.IH"(2)[OF True, folded h_def] f h by simp
    next
      case f: False
      have e: "sort_Search_loop f i j = sort_Search_loop f (h + 1) j"
        using True f by (subst sort_Search_loop.simps) (simp add: h_def)
      show ?thesis unfolding e using "1.IH"(1)[OF True, folded h_def] f h by simp
    qed
  qed
qed

lemma sort_Search_loop_least:
  "i \<le> j \<Longrightarrow> j \<le> n \<Longrightarrow> (\<And>k k'. k \<le> k' \<Longrightarrow> k' < n \<Longrightarrow> f k \<Longrightarrow> f k') \<Longrightarrow>
   (\<And>k. k < i \<Longrightarrow> \<not> f k) \<Longrightarrow> (\<And>k. j \<le> k \<Longrightarrow> k < n \<Longrightarrow> f k) \<Longrightarrow>
   (\<forall>k < sort_Search_loop f i j. \<not> f k) \<and> (\<forall>k. sort_Search_loop f i j \<le> k \<and> k < n \<longrightarrow> f k)"
proof (induction f i j rule: sort_Search_loop.induct)
  case (1 f i j)
  show ?case
  proof (cases "i < j")
    case False
    then have "sort_Search_loop f i j = i" by (subst sort_Search_loop.simps) simp
    moreover have "i = j" using False "1.prems"(1) by simp
    ultimately show ?thesis using "1.prems"(4,5) by auto
  next
    case True
    define h where "h = (i + j) div 2"
    have h: "i \<le> h" "h < j" using True by (simp_all add: h_def)
    show ?thesis
    proof (cases "f h")
      case f: True
      have e: "sort_Search_loop f i j = sort_Search_loop f i h"
        using True f by (subst sort_Search_loop.simps) (simp add: h_def)
      have up: "\<And>k. h \<le> k \<Longrightarrow> k < n \<Longrightarrow> f k"
        using "1.prems"(3)[of h] f by blast
      show ?thesis unfolding e
        using "1.IH"(2)[OF True, folded h_def] f h "1.prems"(2,3,4) up by simp
    next
      case f: False
      have e: "sort_Search_loop f i j = sort_Search_loop f (h + 1) j"
        using True f by (subst sort_Search_loop.simps) (simp add: h_def)
      have lo: "\<And>k. k < h + 1 \<Longrightarrow> \<not> f k"
      proof
        fix k assume "k < h + 1" "f k"
        then have "f h" using "1.prems"(3)[of k h] h "1.prems"(2) by simp
        with f show False by simp
      qed
      show ?thesis unfolding e
        using "1.IH"(1)[OF True, folded h_def] f h "1.prems"(2,3,5) lo by simp
    qed
  qed
qed

lemma cmp_ok_refl: "cmp_ok cmp \<Longrightarrow> cmp a a = 0"
  by (simp add: cmp_ok_def)

lemma cmp_ok_flip: "cmp_ok cmp \<Longrightarrow> (cmp a b < 0) = (0 < cmp b a)"
  by (simp add: cmp_ok_def)

lemma cmp_ok_sym0: "cmp_ok cmp \<Longrightarrow> (cmp a b = 0) = (cmp b a = 0)"
  using cmp_ok_flip[of cmp a b] cmp_ok_flip[of cmp b a] by linarith

lemma cmp_ok_trans: "cmp_ok cmp \<Longrightarrow> cmp a b \<le> 0 \<Longrightarrow> cmp b c \<le> 0 \<Longrightarrow> cmp a c \<le> 0"
  unfolding cmp_ok_def by blast

lemma cmp_ok_ge: "cmp_ok cmp \<Longrightarrow> (0 \<le> cmp a b) = (cmp b a \<le> 0)"
  using cmp_ok_flip[of cmp a b] by linarith

lemma cmp_ok_trans_lt1: "cmp_ok cmp \<Longrightarrow> cmp a b < 0 \<Longrightarrow> cmp b c \<le> 0 \<Longrightarrow> cmp a c < 0"
proof (rule ccontr)
  assume ok: "cmp_ok cmp" and ab: "cmp a b < 0" and bc: "cmp b c \<le> 0" and n: "\<not> cmp a c < 0"
  from n have "cmp c a \<le> 0" using cmp_ok_ge[OF ok, of a c] by simp
  with bc have "cmp b a \<le> 0" using cmp_ok_trans[OF ok] by blast
  with ab show False using cmp_ok_flip[OF ok, of a b] by simp
qed

lemma cmp_ok_trans_lt2: "cmp_ok cmp \<Longrightarrow> cmp a b \<le> 0 \<Longrightarrow> cmp b c < 0 \<Longrightarrow> cmp a c < 0"
proof (rule ccontr)
  assume ok: "cmp_ok cmp" and ab: "cmp a b \<le> 0" and bc: "cmp b c < 0" and n: "\<not> cmp a c < 0"
  from n have "cmp c a \<le> 0" using cmp_ok_ge[OF ok, of a c] by simp
  with ab have "cmp c b \<le> 0" using cmp_ok_trans[OF ok] by blast
  with bc show False using cmp_ok_flip[OF ok, of b c] by simp
qed

lemma cmp_ok_eq_left: "cmp_ok cmp \<Longrightarrow> cmp a b = 0 \<Longrightarrow> cmp a c = cmp b c \<or> (cmp a c < 0 \<and> cmp b c < 0) \<or> (cmp a c > 0 \<and> cmp b c > 0)"
proof -
  assume ok: "cmp_ok cmp" and ab: "cmp a b = 0"
  have ba: "cmp b a = 0" using ab cmp_ok_sym0[OF ok] by blast
  consider "cmp a c < 0" | "cmp a c = 0" | "cmp a c > 0" by linarith
  then show ?thesis
  proof cases
    case 1
    then have "cmp b c < 0" using cmp_ok_trans_lt2[OF ok, of b a c] ba by simp
    with 1 show ?thesis by simp
  next
    case 2
    have "cmp b c \<le> 0" using cmp_ok_trans[OF ok, of b a c] ba 2 by simp
    moreover have "cmp c a = 0" using 2 cmp_ok_sym0[OF ok] by blast
    then have "cmp c b \<le> 0" using cmp_ok_trans[OF ok, of c a b] ab by simp
    then have "0 \<le> cmp b c" using cmp_ok_ge[OF ok, of b c] by simp
    ultimately show ?thesis using 2 by simp
  next
    case 3
    then have "cmp c a < 0" using cmp_ok_flip[OF ok, of c a] by simp
    then have "cmp c b < 0" using cmp_ok_trans_lt1[OF ok, of c a b] ab by simp
    then have "cmp b c > 0" using cmp_ok_flip[OF ok, of c b] by simp
    with 3 show ?thesis by simp
  qed
qed

lemma sortedBy_nth:
  "sortedBy cmp es \<Longrightarrow> i < j \<Longrightarrow> j < length es \<Longrightarrow> cmp (es ! i) (es ! j) \<le> 0"
  by (simp add: sortedBy_def sorted_wrt_iff_nth_less)

lemma sortedBy_nth_le:
  "cmp_ok cmp \<Longrightarrow> sortedBy cmp es \<Longrightarrow> i \<le> j \<Longrightarrow> j < length es \<Longrightarrow> cmp (es ! i) (es ! j) \<le> 0"
  using sortedBy_nth[of cmp es i j] cmp_ok_refl[of cmp "es ! i"] by (cases "i = j") auto

lemma search_scan_found:
  "search_scan cmp eq es elem idx = (r, True) \<Longrightarrow>
   idx \<le> r \<and> r < length es \<and> eq (es ! r) elem \<and> cmp elem (es ! r) = 0 \<and>
   (\<forall>k. idx \<le> k \<and> k < r \<longrightarrow> \<not> eq (es ! k) elem \<and> cmp elem (es ! k) = 0)"
proof (induction cmp eq es elem idx rule: search_scan.induct)
  case (1 cmp eq es elem idx)
  show ?case
  proof (cases "idx < length es \<and> cmp elem (es ! idx) = 0")
    case False
    then have "search_scan cmp eq es elem idx = (idx, False)"
      by (subst search_scan.simps) auto
    with "1.prems" show ?thesis by simp
  next
    case True
    show ?thesis
    proof (cases "eq (es ! idx) elem")
      case e: True
      have "search_scan cmp eq es elem idx = (idx, True)"
        using True e by (subst search_scan.simps) simp
      with "1.prems" True e show ?thesis by auto
    next
      case e: False
      have "search_scan cmp eq es elem idx = search_scan cmp eq es elem (idx + 1)"
        using True e by (subst search_scan.simps) simp
      with "1.prems" have "search_scan cmp eq es elem (idx + 1) = (r, True)" by simp
      from "1.IH"[OF True e this]
      have ih: "idx + 1 \<le> r" "r < length es" "eq (es ! r) elem" "cmp elem (es ! r) = 0"
        and ihk: "\<And>k. idx + 1 \<le> k \<Longrightarrow> k < r \<Longrightarrow> \<not> eq (es ! k) elem \<and> cmp elem (es ! k) = 0"
        by simp_all
      have "\<not> eq (es ! k) elem \<and> cmp elem (es ! k) = 0" if "idx \<le> k" "k < r" for k
      proof (cases "k = idx")
        case True
        then show ?thesis using e \<open>idx < length es \<and> cmp elem (es ! idx) = 0\<close> by simp
      next
        case False
        then show ?thesis using ihk[of k] that by simp
      qed
      then show ?thesis using ih by simp
    qed
  qed
qed

lemma search_scan_notfound:
  "search_scan cmp eq es elem idx = (r, False) \<Longrightarrow> idx \<le> length es \<Longrightarrow>
   idx \<le> r \<and> r \<le> length es \<and> (r < length es \<longrightarrow> cmp elem (es ! r) \<noteq> 0) \<and>
   (\<forall>k. idx \<le> k \<and> k < r \<longrightarrow> \<not> eq (es ! k) elem \<and> cmp elem (es ! k) = 0)"
proof (induction cmp eq es elem idx rule: search_scan.induct)
  case (1 cmp eq es elem idx)
  show ?case
  proof (cases "idx < length es \<and> cmp elem (es ! idx) = 0")
    case False
    then have "search_scan cmp eq es elem idx = (idx, False)"
      by (subst search_scan.simps) auto
    with "1.prems" False show ?thesis by auto
  next
    case True
    show ?thesis
    proof (cases "eq (es ! idx) elem")
      case e: True
      have "search_scan cmp eq es elem idx = (idx, True)"
        using True e by (subst search_scan.simps) simp
      with "1.prems" show ?thesis by simp
    next
      case e: False
      have "search_scan cmp eq es elem idx = search_scan cmp eq es elem (idx + 1)"
        using True e by (subst search_scan.simps) simp
      with "1.prems" have "search_scan cmp eq es elem (idx + 1) = (r, False)" by simp
      from "1.IH"[OF True e this] True
      have ih: "idx + 1 \<le> r" "r \<le> length es" "r < length es \<longrightarrow> cmp elem (es ! r) \<noteq> 0"
        and ihk: "\<And>k. idx + 1 \<le> k \<Longrightarrow> k < r \<Longrightarrow> \<not> eq (es ! k) elem \<and> cmp elem (es ! k) = 0"
        by simp_all
      have "\<not> eq (es ! k) elem \<and> cmp elem (es ! k) = 0" if "idx \<le> k" "k < r" for k
      proof (cases "k = idx")
        case True
        then show ?thesis using e \<open>idx < length es \<and> cmp elem (es ! idx) = 0\<close> by simp
      next
        case False
        then show ?thesis using ihk[of k] that by simp
      qed
      then show ?thesis using ih by simp
    qed
  qed
qed

lemma search_bounds:
  "search s elem = (r, found) \<Longrightarrow> r \<le> length (elems s) \<and> (found \<longrightarrow> r < length (elems s))"
proof -
  assume h: "search s elem = (r, found)"
  define idx where "idx = sort_Search (length (elems s)) (\<lambda>i. cmpFn s elem (elems s ! i) \<le> 0)"
  have b: "idx \<le> length (elems s)"
    using sort_Search_loop_bounds[of 0 "length (elems s)"] by (simp add: idx_def sort_Search_def)
  have sc: "search_scan (cmpFn s) (eqFn s) (elems s) elem idx = (r, found)"
    using h by (simp add: search_def Let_def idx_def)
  show ?thesis
  proof (cases found)
    case True
    with sc search_scan_found[of "cmpFn s" "eqFn s" "elems s" elem idx r] show ?thesis by simp
  next
    case False
    with sc search_scan_notfound[of "cmpFn s" "eqFn s" "elems s" elem idx r] b show ?thesis by simp
  qed
qed

lemma search_found:
  assumes ok: "cmp_ok (cmpFn s)" and so: "sortedBy (cmpFn s) (elems s)"
    and h: "search s elem = (r, True)"
  shows "r < length (elems s) \<and> eqFn s (elems s ! r) elem \<and> cmpFn s elem (elems s ! r) = 0 \<and>
         (\<forall>k < r. cmpFn s (elems s ! k) elem \<le> 0)"
proof -
  define cmp where "cmp = cmpFn s"
  define es where "es = elems s"
  define f where "f = (\<lambda>i. cmp elem (es ! i) \<le> 0)"
  define idx where "idx = sort_Search (length es) f"
  have mono: "\<And>k k'. k \<le> k' \<Longrightarrow> k' < length es \<Longrightarrow> f k \<Longrightarrow> f k'"
    unfolding f_def using cmp_ok_trans[OF ok] sortedBy_nth_le[OF ok so] by (auto simp: cmp_def es_def)
  have least: "(\<forall>k < idx. \<not> f k)"
    using sort_Search_loop_least[of 0 "length es" "length es" f] mono
    by (simp add: idx_def sort_Search_def)
  have sc: "search_scan cmp (eqFn s) es elem idx = (r, True)"
    using h by (simp add: search_def Let_def idx_def f_def cmp_def es_def)
  from search_scan_found[OF sc]
  have r: "idx \<le> r" "r < length es" "eqFn s (es ! r) elem" "cmp elem (es ! r) = 0"
    and rk: "\<And>k. idx \<le> k \<Longrightarrow> k < r \<Longrightarrow> cmp elem (es ! k) = 0" by simp_all
  have "cmp (es ! k) elem \<le> 0" if "k < r" for k
  proof (cases "k < idx")
    case True
    then have "0 < cmp elem (es ! k)" using least[rule_format, of k] by (simp add: f_def)
    then show ?thesis using cmp_ok_flip[OF ok, of "es ! k" elem] by (simp add: cmp_def)
  next
    case False
    then have "cmp elem (es ! k) = 0" using rk[of k] that by simp
    then show ?thesis using cmp_ok_sym0[OF ok, of elem "es ! k"] by (simp add: cmp_def)
  qed
  then show ?thesis using r by (simp add: cmp_def es_def)
qed

lemma search_notfound:
  assumes ok: "cmp_ok (cmpFn s)" and so: "sortedBy (cmpFn s) (elems s)"
    and h: "search s elem = (r, False)"
  shows "r \<le> length (elems s) \<and>
         (\<forall>k < r. cmpFn s (elems s ! k) elem \<le> 0) \<and>
         (\<forall>k. r \<le> k \<and> k < length (elems s) \<longrightarrow> cmpFn s elem (elems s ! k) < 0) \<and>
         (\<forall>k < length (elems s). cmpFn s elem (elems s ! k) = 0 \<longrightarrow> \<not> eqFn s (elems s ! k) elem)"
proof -
  define cmp where "cmp = cmpFn s"
  define es where "es = elems s"
  define f where "f = (\<lambda>i. cmp elem (es ! i) \<le> 0)"
  define idx where "idx = sort_Search (length es) f"
  have ok': "cmp_ok cmp" using ok by (simp add: cmp_def)
  have so': "sortedBy cmp es" using so by (simp add: cmp_def es_def)
  have mono: "\<And>k k'. k \<le> k' \<Longrightarrow> k' < length es \<Longrightarrow> f k \<Longrightarrow> f k'"
    unfolding f_def using cmp_ok_trans[OF ok'] sortedBy_nth_le[OF ok' so'] by auto
  have least: "(\<forall>k < idx. \<not> f k)" and above: "\<forall>k. idx \<le> k \<and> k < length es \<longrightarrow> f k"
    using sort_Search_loop_least[of 0 "length es" "length es" f] mono
    by (simp_all add: idx_def sort_Search_def)
  have b: "idx \<le> length es"
    using sort_Search_loop_bounds[of 0 "length es"] by (simp add: idx_def sort_Search_def)
  have sc: "search_scan cmp (eqFn s) es elem idx = (r, False)"
    using h by (simp add: search_def Let_def idx_def f_def cmp_def es_def)
  from search_scan_notfound[OF sc b]
  have r: "idx \<le> r" "r \<le> length es" and rn: "r < length es \<Longrightarrow> cmp elem (es ! r) \<noteq> 0"
    and rk: "\<And>k. idx \<le> k \<Longrightarrow> k < r \<Longrightarrow> \<not> eqFn s (es ! k) elem \<and> cmp elem (es ! k) = 0"
    by simp_all
  have before: "cmp (es ! k) elem \<le> 0" if "k < r" for k
  proof (cases "k < idx")
    case True
    then have "0 < cmp elem (es ! k)" using least[rule_format, of k] by (simp add: f_def)
    then show ?thesis using cmp_ok_flip[OF ok', of "es ! k" elem] by simp
  next
    case False
    then have "cmp elem (es ! k) = 0" using rk[of k] that by simp
    then show ?thesis using cmp_ok_sym0[OF ok', of elem "es ! k"] by simp
  qed
  have after: "cmp elem (es ! k) < 0" if "r \<le> k" "k < length es" for k
  proof -
    have rl: "r < length es" using that by simp
    have "cmp elem (es ! r) \<le> 0" using above r rl by (simp add: f_def)
    with rn[OF rl] have "cmp elem (es ! r) < 0" by simp
    moreover have "cmp (es ! r) (es ! k) \<le> 0" using sortedBy_nth_le[OF ok' so' that] .
    ultimately show ?thesis using cmp_ok_trans_lt1[OF ok'] by blast
  qed
  have noeq: "\<not> eqFn s (es ! k) elem" if "k < length es" "cmp elem (es ! k) = 0" for k
  proof -
    have "\<not> k < idx" using least that by (auto simp: f_def)
    moreover have "k < r" using after[of k] that by (cases "r \<le> k") simp_all
    ultimately show ?thesis using rk[of k] by simp
  qed
  show ?thesis using r before after noeq by (simp add: cmp_def es_def)
qed

lemma Insert_found:
  "search s elem = (idx, True) \<Longrightarrow> Insert s elem = Some (s\<lparr>elems := (elems s)[idx := elem]\<rparr>)"
  using search_bounds[of s elem idx True] by (simp add: Insert_def store_at_nat)

lemma Insert_notfound:
  assumes h: "search s elem = (idx, False)"
  shows "Insert s elem = Some (s\<lparr>elems := take idx (elems s) @ elem # drop idx (elems s)\<rparr>)"
proof -
  define es where "es = elems s"
  have b: "idx \<le> length es" using search_bounds[OF h] by (simp add: es_def)
  define grown where "grown = es @ [elem]"
  define src where "src = drop idx es @ [elem]"
  define es1 where "es1 = take (Suc idx) grown @ drop idx es"
  have r1: "reslice grown (int idx) (int (length grown)) = Some src"
    using b by (subst reslice_nat) (simp_all add: grown_def src_def)
  have mn: "min (length grown - Suc idx) (length src) = length es - idx"
    using b by (simp add: grown_def src_def)
  have t: "take (length es - idx) src = drop idx es" using b by (simp add: src_def)
  have d: "drop (Suc idx + (length es - idx)) grown = []" using b by (simp add: grown_def)
  have lg: "Suc idx \<le> length grown" using b by (simp add: grown_def)
  have r2: "copy_from grown (int (Suc idx)) src = Some (es1, int (length es - idx))"
    using copy_from_nat[OF lg, of src] unfolding mn t d by (simp add: es1_def)
  have l1: "idx < length es1" using b by (simp add: es1_def grown_def)
  have r3: "store_at es1 (int idx) elem = Some (es1[idx := elem])"
    using l1 by (rule store_at_nat)
  have "take (Suc idx) grown = take idx grown @ [grown ! idx]"
    using lg by (simp add: take_Suc_conv_app_nth)
  moreover have "take idx grown = take idx es" using b by (simp add: grown_def)
  ultimately have "take (Suc idx) grown = take idx es @ [grown ! idx]" by simp
  then have "es1[idx := elem] = take idx es @ elem # drop idx es"
    using b by (simp add: es1_def list_update_append)
  moreover have e: "int idx + 1 = int (Suc idx)" by simp
  ultimately show ?thesis
    unfolding Insert_def h es_def[symmetric]
    by (simp add: Let_def grown_def[symmetric] r1 e r2 r3 del: of_nat_Suc)
qed

lemma Insert_total: "\<exists>s'. Insert s elem = Some s'"
proof (cases "search s elem")
  case (Pair idx found)
  then show ?thesis using Insert_found[of s elem idx] Insert_notfound[of s elem idx]
    by (cases found) auto
qed

subsection \<open>Single-element insertion keeps the invariant\<close>

lemma eq_ok_refl: "eq_ok cmp eq \<Longrightarrow> eq a a"
  by (simp add: eq_ok_def)

lemma eq_ok_sym: "eq_ok cmp eq \<Longrightarrow> eq a b \<Longrightarrow> eq b a"
  unfolding eq_ok_def by blast

lemma eq_ok_trans: "eq_ok cmp eq \<Longrightarrow> eq a b \<Longrightarrow> eq b c \<Longrightarrow> eq a c"
  unfolding eq_ok_def by blast

lemma eq_ok_cmp: "eq_ok cmp eq \<Longrightarrow> eq a b \<Longrightarrow> cmp a b = 0"
  unfolding eq_ok_def by blast

lemma uniqueBy_nth:
  "eq_ok cmp eq \<Longrightarrow> uniqueBy eq es \<Longrightarrow> i < length es \<Longrightarrow> j < length es \<Longrightarrow> i \<noteq> j \<Longrightarrow>
   \<not> eq (es ! i) (es ! j)"
proof -
  assume ok: "eq_ok cmp eq" and u: "uniqueBy eq es" and b: "i < length es" "j < length es" "i \<noteq> j"
  have lt: "\<And>i j. i < j \<Longrightarrow> j < length es \<Longrightarrow> \<not> eq (es ! i) (es ! j)"
    using u by (simp add: uniqueBy_def sorted_wrt_iff_nth_less)
  show ?thesis
  proof (cases "i < j")
    case True
    then show ?thesis using lt b by simp
  next
    case False
    then have "j < i" using b by simp
    then have "\<not> eq (es ! j) (es ! i)" using lt b by simp
    then show ?thesis using eq_ok_sym[OF ok] by blast
  qed
qed

lemma search_unique:
  assumes wf: "wellFormed s" and i: "i < length (elems s)" and e: "eqFn s (elems s ! i) elem"
  shows "search s elem = (i, True)"
proof -
  have ok: "cmp_ok (cmpFn s)" and eok: "eq_ok (cmpFn s) (eqFn s)"
    and so: "sortedBy (cmpFn s) (elems s)" and un: "uniqueBy (eqFn s) (elems s)"
    using wf by (simp_all add: wellFormed_def)
  obtain r found where h: "search s elem = (r, found)" by (cases "search s elem")
  show ?thesis
  proof (cases found)
    case True
    have h': "search s elem = (r, True)" using h True by simp
    from search_found[OF ok so h']
    have r: "r < length (elems s)" "eqFn s (elems s ! r) elem" by simp_all
    have "eqFn s (elems s ! i) (elems s ! r)"
      using eq_ok_trans[OF eok e] eq_ok_sym[OF eok r(2)] by blast
    then have "i = r" using uniqueBy_nth[OF eok un i r(1)] by blast
    then show ?thesis using h True by simp
  next
    case False
    have "cmpFn s (elems s ! i) elem = 0" using eq_ok_cmp[OF eok e] .
    then have "cmpFn s elem (elems s ! i) = 0" using cmp_ok_sym0[OF ok] by blast
    moreover have h': "search s elem = (r, False)" using h False by simp
    ultimately have "\<not> eqFn s (elems s ! i) elem"
      using search_notfound[OF ok so h'] i by simp
    with e show ?thesis by simp
  qed
qed

lemma sortedBy_update:
  assumes ok: "cmp_ok cmp" and so: "sortedBy cmp es" and i: "i < length es"
    and c: "cmp e (es ! i) = 0"
  shows "sortedBy cmp (es[i := e])"
  unfolding sortedBy_def sorted_wrt_iff_nth_less
proof (intro allI impI)
  fix p q assume pq: "p < q" and q: "q < length (es[i := e])"
  have ql: "q < length es" using q by simp
  have base: "cmp (es ! p) (es ! q) \<le> 0" using sortedBy_nth[OF so pq ql] .
  have c': "cmp (es ! i) e = 0" using c cmp_ok_sym0[OF ok] by blast
  consider "p = i" | "q = i" | "p \<noteq> i" "q \<noteq> i" by blast
  then show "cmp (es[i := e] ! p) (es[i := e] ! q) \<le> 0"
  proof cases
    case 1
    then have "cmp e (es ! q) \<le> 0" using cmp_ok_trans[OF ok, of e "es ! i" "es ! q"] c base by simp
    then show ?thesis using 1 pq i ql by simp
  next
    case 2
    then have "cmp (es ! p) e \<le> 0" using cmp_ok_trans[OF ok, of "es ! p" "es ! i" e] c' base by simp
    then show ?thesis using 2 pq i ql by simp
  next
    case 3
    then show ?thesis using base pq ql by simp
  qed
qed

lemma uniqueBy_update:
  assumes eok: "eq_ok cmp eq" and un: "uniqueBy eq es" and i: "i < length es"
    and c: "eq (es ! i) e"
  shows "uniqueBy eq (es[i := e])"
  unfolding uniqueBy_def sorted_wrt_iff_nth_less
proof (intro allI impI)
  fix p q assume pq: "p < q" and q: "q < length (es[i := e])"
  have ql: "q < length es" and pl: "p < length es" using q pq by simp_all
  have base: "\<not> eq (es ! p) (es ! q)" using uniqueBy_nth[OF eok un pl ql] pq by simp
  consider "p = i" | "q = i" | "p \<noteq> i" "q \<noteq> i" by blast
  then show "\<not> eq (es[i := e] ! p) (es[i := e] ! q)"
  proof cases
    case 1
    have "\<not> eq e (es ! q)"
    proof
      assume "eq e (es ! q)"
      then have "eq (es ! i) (es ! q)" using eq_ok_trans[OF eok c] by blast
      with base 1 show False by simp
    qed
    then show ?thesis using 1 pq i ql by simp
  next
    case 2
    have "\<not> eq (es ! p) e"
    proof
      assume "eq (es ! p) e"
      then have "eq (es ! p) (es ! i)" using eq_ok_trans[OF eok _ eq_ok_sym[OF eok c]] by blast
      with base 2 show False by simp
    qed
    then show ?thesis using 2 pq i ql by simp
  next
    case 3
    then show ?thesis using base pq ql by simp
  qed
qed

lemma set_take_nth: "x \<in> set (take n es) \<Longrightarrow> \<exists>k. k < n \<and> k < length es \<and> x = es ! k"
  by (auto simp: in_set_conv_nth)

lemma set_drop_nth: "x \<in> set (drop n es) \<Longrightarrow> \<exists>k. n \<le> k \<and> k < length es \<and> x = es ! k"
proof -
  assume "x \<in> set (drop n es)"
  then obtain j where "j < length (drop n es)" "x = drop n es ! j" by (auto simp: in_set_conv_nth)
  then have "n \<le> n + j \<and> n + j < length es \<and> x = es ! (n + j)" by auto
  then show ?thesis by blast
qed

lemma sortedBy_insert:
  assumes so: "sortedBy cmp es"
    and lo: "\<forall>k < r. k < length es \<longrightarrow> cmp (es ! k) e \<le> 0"
    and hi: "\<forall>k. r \<le> k \<and> k < length es \<longrightarrow> cmp e (es ! k) \<le> 0"
  shows "sortedBy cmp (take r es @ e # drop r es)"
proof -
  have "sorted_wrt (\<lambda>a b. cmp a b \<le> 0) (take r es @ drop r es)"
    using so by (simp add: sortedBy_def)
  then have a: "sorted_wrt (\<lambda>a b. cmp a b \<le> 0) (take r es)"
    and b: "sorted_wrt (\<lambda>a b. cmp a b \<le> 0) (drop r es)"
    and c: "\<forall>x \<in> set (take r es). \<forall>y \<in> set (drop r es). cmp x y \<le> 0"
    unfolding sorted_wrt_append by simp_all
  have d: "\<forall>x \<in> set (take r es). cmp x e \<le> 0" using lo set_take_nth[of _ r es] by blast
  have f: "\<forall>y \<in> set (drop r es). cmp e y \<le> 0" using hi set_drop_nth[of _ r es] by blast
  show ?thesis unfolding sortedBy_def sorted_wrt_append using a b c d f by simp
qed

lemma uniqueBy_insert:
  assumes eok: "eq_ok cmp eq" and un: "uniqueBy eq es"
    and no: "\<forall>k < length es. \<not> eq (es ! k) e"
  shows "uniqueBy eq (take r es @ e # drop r es)"
proof -
  have "sorted_wrt (\<lambda>a b. \<not> eq a b) (take r es @ drop r es)"
    using un by (simp add: uniqueBy_def)
  then have a: "sorted_wrt (\<lambda>a b. \<not> eq a b) (take r es)"
    and b: "sorted_wrt (\<lambda>a b. \<not> eq a b) (drop r es)"
    and c: "\<forall>x \<in> set (take r es). \<forall>y \<in> set (drop r es). \<not> eq x y"
    unfolding sorted_wrt_append by simp_all
  have n: "\<forall>x \<in> set es. \<not> eq x e" using no by (auto simp: in_set_conv_nth)
  have d: "\<forall>x \<in> set (take r es). \<not> eq x e" using n in_set_takeD by fastforce
  have f: "\<forall>y \<in> set (drop r es). \<not> eq e y" using n in_set_dropD eq_ok_sym[OF eok] by fastforce
  show ?thesis unfolding uniqueBy_def sorted_wrt_append using a b c d f by simp
qed

lemma Insert_wellFormed:
  assumes wf: "wellFormed s"
  shows "\<exists>s'. Insert s elem = Some s' \<and> wellFormed s' \<and> cmpFn s' = cmpFn s \<and> eqFn s' = eqFn s \<and>
              (\<exists>i < length (elems s'). elems s' ! i = elem)"
proof -
  have ok: "cmp_ok (cmpFn s)" and eok: "eq_ok (cmpFn s) (eqFn s)"
    and so: "sortedBy (cmpFn s) (elems s)" and un: "uniqueBy (eqFn s) (elems s)"
    using wf by (simp_all add: wellFormed_def)
  obtain r found where h: "search s elem = (r, found)" by (cases "search s elem")
  show ?thesis
  proof (cases found)
    case True
    have h': "search s elem = (r, True)" using h True by simp
    from search_found[OF ok so h']
    have r: "r < length (elems s)" "eqFn s (elems s ! r) elem" "cmpFn s elem (elems s ! r) = 0"
      by simp_all
    have "wellFormed (s\<lparr>elems := (elems s)[r := elem]\<rparr>)"
      using ok eok sortedBy_update[OF ok so r(1) r(3)] uniqueBy_update[OF eok un r(1) r(2)]
      by (simp add: wellFormed_def)
    then show ?thesis using Insert_found[OF h'] r(1)
      by (auto intro!: exI[of _ r])
  next
    case False
    have h': "search s elem = (r, False)" using h False by simp
    from search_notfound[OF ok so h']
    have r: "r \<le> length (elems s)"
      and lo: "\<forall>k < r. cmpFn s (elems s ! k) elem \<le> 0"
      and hi: "\<forall>k. r \<le> k \<and> k < length (elems s) \<longrightarrow> cmpFn s elem (elems s ! k) < 0"
      and no: "\<forall>k < length (elems s). cmpFn s elem (elems s ! k) = 0 \<longrightarrow> \<not> eqFn s (elems s ! k) elem"
      by simp_all
    have no': "\<forall>k < length (elems s). \<not> eqFn s (elems s ! k) elem"
    proof (intro allI impI notI)
      fix k assume k: "k < length (elems s)" and e: "eqFn s (elems s ! k) elem"
      have "cmpFn s (elems s ! k) elem = 0" using eq_ok_cmp[OF eok e] .
      then have "cmpFn s elem (elems s ! k) = 0" using cmp_ok_sym0[OF ok] by blast
      with no k e show False by simp
    qed
    have hi': "\<forall>k. r \<le> k \<and> k < length (elems s) \<longrightarrow> cmpFn s elem (elems s ! k) \<le> 0"
      using hi by (simp add: less_imp_le)
    have "wellFormed (s\<lparr>elems := take r (elems s) @ elem # drop r (elems s)\<rparr>)"
      using ok eok sortedBy_insert[OF so _ hi'] lo uniqueBy_insert[OF eok un no', of r]
      by (simp add: wellFormed_def)
    moreover have "(take r (elems s) @ elem # drop r (elems s)) ! r = elem"
      using r by (simp add: nth_append)
    ultimately show ?thesis using Insert_notfound[OF h'] r
      by (auto intro!: exI[of _ r])
  qed
qed

subsection \<open>The search of version 2 finds the same position\<close>

lemma funcSorted_scan_eq:
  "drop i es = xs \<Longrightarrow> i \<le> length es \<Longrightarrow> (\<And>a b. eq a b = eq b a) \<Longrightarrow>
   funcSorted_scan cmp eq e xs i (length es) = search_scan cmp eq es e i"
proof (induction xs arbitrary: i)
  case Nil
  then have "i = length es" by simp
  then show ?case by (subst search_scan.simps) simp
next
  case (Cons v vs)
  have il: "i < length es" using Cons.prems(1) by (cases "i < length es") auto
  have v: "es ! i = v" and vs: "drop (Suc i) es = vs"
    using Cons.prems(1) il by (simp_all add: Cons_nth_drop_Suc[symmetric])
  have ih: "funcSorted_scan cmp eq e vs (Suc i) (length es) = search_scan cmp eq es e (Suc i)"
    using Cons.IH[OF vs _ Cons.prems(3)] il by simp
  show ?case
    using il v ih Cons.prems(3)[of e v]
    by (subst search_scan.simps) simp
qed

lemma funcSorted_search_eq:
  assumes ok: "cmp_ok (cmpFn s)" and sym: "\<And>a b. eqFn s a b = eqFn s b a"
  shows "funcSorted_search s e = search s e"
proof -
  define es where "es = elems s"
  define cmp where "cmp = cmpFn s"
  have f: "(\<lambda>h. \<not> cmp (es ! h) e < 0) = (\<lambda>i. cmp e (es ! i) \<le> 0)"
    using cmp_ok_flip[OF ok] by (auto simp: cmp_def fun_eq_iff not_less)
  define i where "i = sort_Search (length es) (\<lambda>i. cmp e (es ! i) \<le> 0)"
  have ok': "cmp_ok cmp" using ok by (simp add: cmp_def)
  have bs: "BinarySearchFunc es e cmp = (i, i < length es \<and> cmp e (es ! i) = 0)"
    unfolding BinarySearchFunc_def Let_def f i_def sort_Search_def
    using cmp_ok_sym0[OF ok'] by auto
  have b: "i \<le> length es"
    using sort_Search_loop_bounds[of 0 "length es"] by (simp add: i_def sort_Search_def)
  have s1: "search s e = search_scan cmp (eqFn s) es e i"
    by (simp add: search_def Let_def i_def es_def cmp_def)
  show ?thesis
  proof (cases "i < length es \<and> cmp e (es ! i) = 0")
    case True
    have "funcSorted_scan cmp (eqFn s) e (drop i es) i (length es) = search_scan cmp (eqFn s) es e i"
      by (rule funcSorted_scan_eq[OF refl b sym])
    then show ?thesis using True s1 bs
      by (simp add: funcSorted_search_def es_def[symmetric] cmp_def[symmetric])
  next
    case False
    then have "search_scan cmp (eqFn s) es e i = (i, False)"
      by (subst search_scan.simps) auto
    then show ?thesis using False s1 bs
      by (simp add: funcSorted_search_def es_def[symmetric] cmp_def[symmetric])
  qed
qed

lemma wellFormed_sym: "wellFormed s \<Longrightarrow> eqFn s a b = eqFn s b a"
  using eq_ok_sym[of "cmpFn s" "eqFn s"] by (auto simp: wellFormed_def)

lemma funcSorted_insert_eq:
  "wellFormed s \<Longrightarrow> funcSorted_insert s e = Insert s e"
  using funcSorted_search_eq[of s e] wellFormed_sym[of s]
  by (simp add: funcSorted_insert_def Insert_def wellFormed_def)

lemma funcSorted_Contains_eq:
  "wellFormed s \<Longrightarrow> funcSorted_Contains s e = Contains s e"
  using funcSorted_search_eq[of s e] wellFormed_sym[of s]
  by (simp add: funcSorted_Contains_def Contains_def wellFormed_def)

subsection \<open>Instances of the preconditions\<close>

lemma cmp_ok_Compare: "cmp_ok (\<lambda>a b. cmp_Compare (f a) (f b))"
  by (auto simp: cmp_ok_def cmp_Compare_def)

lemma cmp_ok_cmp_Compare: "cmp_ok cmp_Compare"
  by (auto simp: cmp_ok_def cmp_Compare_def)

lemma eq_ok_equal: "eq_ok (\<lambda>a b. cmp_Compare (f a) (f b)) equal"
  by (auto simp: eq_ok_def cmp_Compare_def equal_def)

lemma eq_ok_cmp_Compare_equal: "eq_ok cmp_Compare equal"
  by (auto simp: eq_ok_def cmp_Compare_def equal_def)

lemma eq_ok_same: "eq_ok (\<lambda>a b. cmp_Compare (f a) (f b)) (\<lambda>a b. f a = f b)"
  by (auto simp: eq_ok_def cmp_Compare_def)

lemma cmp_ok_byLength: "cmp_ok byLength"
  unfolding byLength_def by (rule cmp_ok_Compare)

lemma eq_ok_byLength: "eq_ok byLength equal"
  unfolding byLength_def by (rule eq_ok_equal)

lemma cmp_ok_byKey: "cmp_ok byKey"
  unfolding byKey_def by (rule cmp_ok_Compare)

lemma eq_ok_byKey: "eq_ok byKey sameKey"
  unfolding byKey_def sameKey_def by (rule eq_ok_same)

lemma eq_ok_byKey_equal: "eq_ok byKey equal"
  unfolding byKey_def by (rule eq_ok_equal)

lemma wellFormed_natural:
  "sorted_wrt (<) l \<Longrightarrow> wellFormed \<lparr>elems = l, cmpFn = cmp_Compare, eqFn = equal\<rparr>"
proof -
  assume s: "sorted_wrt (<) l"
  have "sorted_wrt (\<lambda>a b. cmp_Compare a b \<le> 0) l"
    by (rule sorted_wrt_mono_rel[OF _ s]) (simp add: cmp_Compare_def)
  moreover have "sorted_wrt (\<lambda>a b. \<not> equal a b) l"
    by (rule sorted_wrt_mono_rel[OF _ s]) (simp add: equal_def)
  ultimately show ?thesis
    by (simp add: wellFormed_def sortedBy_def uniqueBy_def cmp_ok_cmp_Compare eq_ok_cmp_Compare_equal)
qed

lemma natural_wellFormed:
  "wellFormed s \<Longrightarrow> cmpFn s = cmp_Compare \<Longrightarrow> eqFn s = equal \<Longrightarrow> sorted_wrt (<) (elems s)"
proof -
  assume wf: "wellFormed s" and c: "cmpFn s = cmp_Compare" and e: "eqFn s = equal"
  have "\<And>i j. i < j \<Longrightarrow> j < length (elems s) \<Longrightarrow> elems s ! i < elems s ! j"
  proof -
    fix i j assume ij: "i < j" "j < length (elems s)"
    have "cmp_Compare (elems s ! i) (elems s ! j) \<le> 0"
      using wf c ij by (simp add: wellFormed_def sortedBy_def sorted_wrt_iff_nth_less)
    moreover have "\<not> equal (elems s ! i) (elems s ! j)"
      using wf e ij by (simp add: wellFormed_def uniqueBy_def sorted_wrt_iff_nth_less)
    ultimately show "elems s ! i < elems s ! j"
      by (auto simp: cmp_Compare_def equal_def split: if_splits)
  qed
  then show ?thesis by (simp add: sorted_wrt_iff_nth_less)
qed

subsection \<open>The natural-order set is the comparator set of \<open>cmp.Compare\<close> and \<open>==\<close>\<close>

lemma BinarySearch_search:
  "BinarySearch l e = search \<lparr>elems = l, cmpFn = cmp_Compare, eqFn = equal\<rparr> e"
proof -
  have f: "(\<lambda>i. cmp_Compare e (l ! i) \<le> 0) = (\<lambda>h. \<not> l ! h < e)"
    by (auto simp: cmp_Compare_def fun_eq_iff)
  define i where "i = sort_Search_loop (\<lambda>h. \<not> l ! h < e) 0 (length l)"
  have "search_scan cmp_Compare equal l e i = (i, i < length l \<and> l ! i = e)"
    by (subst search_scan.simps) (auto simp: cmp_Compare_def equal_def)
  then show ?thesis
    by (simp add: BinarySearch_def search_def Let_def sort_Search_def f i_def)
qed

lemma ordered_insert_Insert:
  "ordered_insert l e = map_option elems (Insert \<lparr>elems = l, cmpFn = cmp_Compare, eqFn = equal\<rparr> e)"
  by (cases "search \<lparr>elems = l, cmpFn = cmp_Compare, eqFn = equal\<rparr> e")
     (auto simp: ordered_insert_def Insert_def BinarySearch_search Let_def
           split: Option.bind_splits prod.splits)

lemma Contains_iff:
  assumes wf: "wellFormed s"
  shows "Contains s e = (\<exists>x \<in> set (elems s). eqFn s x e)"
proof -
  have ok: "cmp_ok (cmpFn s)" and eok: "eq_ok (cmpFn s) (eqFn s)"
    and so: "sortedBy (cmpFn s) (elems s)"
    using wf by (simp_all add: wellFormed_def)
  obtain r found where h: "search s e = (r, found)" by (cases "search s e")
  show ?thesis
  proof (cases found)
    case True
    then have h': "search s e = (r, True)" using h by simp
    from search_found[OF ok so h'] have "elems s ! r \<in> set (elems s)" "eqFn s (elems s ! r) e"
      by simp_all
    then show ?thesis using h True by (auto simp: Contains_def)
  next
    case False
    have "\<not> eqFn s x e" if "x \<in> set (elems s)" for x
    proof
      assume e: "eqFn s x e"
      from that obtain i where i: "i < length (elems s)" "x = elems s ! i"
        by (auto simp: in_set_conv_nth)
      have "search s e = (i, True)" using search_unique[OF wf i(1)] e i(2) by simp
      with h False show False by simp
    qed
    then show ?thesis using h False by (auto simp: Contains_def)
  qed
qed

lemma mutate_ref_frame:
  assumes m: "mutate_ref z mth st r = Some (st', r')" and a: "sptr (ref r) < length st"
    and p: "p < length st" "p \<noteq> sptr (ref r)"
  shows "st' ! p = st ! p"
proof -
  from m obtain s' where s': "mth (deref st r) = Some s'"
    and w: "writeBack z st (ref r) (elems s') = (st', ref r')"
    by (auto simp: mutate_ref_def Let_def split: Option.bind_splits prod.splits)
  show ?thesis
    using w p by (auto simp: writeBack_def nth_append split: if_splits)
qed

subsection \<open>The difference loop\<close>

lemma diffF_Nil2 [simp]: "diffF cmp eq a [] = a"
  by (cases a) simp_all

lemma runEq_prefix: "runEq xs cmp = take (length (runEq xs cmp)) xs"
proof (cases xs)
  case Nil
  then show ?thesis by simp
next
  case (Cons x rest)
  have "takeWhile (\<lambda>v. cmp x v = 0) rest
      = take (length (takeWhile (\<lambda>v. cmp x v = 0) rest)) rest"
    by (rule takeWhile_eq_take)
  then show ?thesis using Cons by simp
qed

lemma keepNot_split:
  "ai \<le> length a \<Longrightarrow> \<forall>d \<in> D. d < ai \<Longrightarrow> keepNot D 0 a = keepNot D 0 (take ai a) @ drop ai a"
proof -
  assume a: "ai \<le> length a" and d: "\<forall>d \<in> D. d < ai"
  have "keepNot D 0 a = keepNot D 0 (take ai a) @ keepNot D ai (drop ai a)"
    using keepNot_append[of D 0 "take ai a" "drop ai a"] a by (simp add: min.absorb2)
  moreover have "keepNot D ai (drop ai a) = drop ai a"
    by (rule keepNot_none) (use d in auto)
  ultimately show ?thesis by simp
qed

lemma diff_loop:
  "deletes = map int ds \<Longrightarrow> ai \<le> length a \<Longrightarrow> sorted_wrt (<) ds \<Longrightarrow> \<forall>d \<in> set ds. d < ai \<Longrightarrow>
   \<exists>ds'. diffSortedLists_loop cmp eq a b ai bi deletes = map int ds' \<and>
         sorted_wrt (<) ds' \<and> (\<forall>d \<in> set ds'. d < length a) \<and>
         keepNot (set ds') 0 a = keepNot (set ds) 0 (take ai a) @ diffF cmp eq (drop ai a) (drop bi b)"
proof (induction cmp eq a b ai bi deletes arbitrary: ds rule: diffSortedLists_loop.induct)
  case (1 cmp eq a b ai bi deletes)
  note prems = "1.prems"
  show ?case
  proof (cases "ai < length a \<and> bi < length b")
    case False
    have e: "diffSortedLists_loop cmp eq a b ai bi deletes = deletes"
      by (subst diffSortedLists_loop.simps) (simp only: False if_False simp_thms)
    have m: "diffF cmp eq (drop ai a) (drop bi b) = drop ai a"
    proof (cases "ai < length a")
      case True
      with False have "drop bi b = []" by simp
      then show ?thesis by simp
    next
      case False
      then have "drop ai a = []" by simp
      then show ?thesis by simp
    qed
    have "keepNot (set ds) 0 a = keepNot (set ds) 0 (take ai a) @ drop ai a"
      by (rule keepNot_split) (use prems in auto)
    moreover have "\<forall>d \<in> set ds. d < length a" using prems by auto
    ultimately show ?thesis unfolding e m using prems by blast
  next
    case True
    then have ai: "ai < length a" and bi: "bi < length b" by simp_all
    have da: "drop ai a = a ! ai # drop (Suc ai) a"
      using ai by (simp add: Cons_nth_drop_Suc)
    have db: "drop bi b = b ! bi # drop (Suc bi) b"
      using bi by (simp add: Cons_nth_drop_Suc)
    consider (lt) "cmp (a ! ai) (b ! bi) < 0"
      | (gt) "\<not> cmp (a ! ai) (b ! bi) < 0" "cmp (a ! ai) (b ! bi) > 0"
      | (eq) "\<not> cmp (a ! ai) (b ! bi) < 0" "\<not> cmp (a ! ai) (b ! bi) > 0"
      by blast
    then show ?thesis
    proof cases
      case lt
      have step: "diffSortedLists_loop cmp eq a b ai bi deletes
          = diffSortedLists_loop cmp eq a b (ai + 1) bi deletes"
        by (subst diffSortedLists_loop.simps) (simp only: ai bi lt if_True simp_thms)
      have b': "\<forall>d \<in> set ds. d < ai + 1" using prems by auto
      from "1.IH"(1)[OF True lt prems(1) _ prems(3) b'] ai
      obtain ds' where r: "diffSortedLists_loop cmp eq a b (ai + 1) bi deletes = map int ds'"
        "sorted_wrt (<) ds'" "\<forall>d \<in> set ds'. d < length a"
        "keepNot (set ds') 0 a
           = keepNot (set ds) 0 (take (ai + 1) a) @ diffF cmp eq (drop (ai + 1) a) (drop bi b)"
        by auto
      have "take (ai + 1) a = take ai a @ [a ! ai]" using ai by (simp add: take_Suc_conv_app_nth)
      moreover have "ai \<notin> set ds" using prems by auto
      ultimately have k: "keepNot (set ds) 0 (take (ai + 1) a) = keepNot (set ds) 0 (take ai a) @ [a ! ai]"
        using ai by (simp add: keepNot_append)
      have m: "diffF cmp eq (drop ai a) (drop bi b) = a ! ai # diffF cmp eq (drop (ai + 1) a) (drop bi b)"
        using lt by (simp add: da) (simp add: db)
      show ?thesis unfolding step using r k m by auto
    next
      case gt
      have step: "diffSortedLists_loop cmp eq a b ai bi deletes
          = diffSortedLists_loop cmp eq a b ai (bi + 1) deletes"
        by (subst diffSortedLists_loop.simps) (simp only: ai bi gt if_True if_False simp_thms)
      from "1.IH"(2)[OF True gt prems]
      obtain ds' where r: "diffSortedLists_loop cmp eq a b ai (bi + 1) deletes = map int ds'"
        "sorted_wrt (<) ds'" "\<forall>d \<in> set ds'. d < length a"
        "keepNot (set ds') 0 a
           = keepNot (set ds) 0 (take ai a) @ diffF cmp eq (drop ai a) (drop (bi + 1) b)"
        by auto
      have m: "diffF cmp eq (drop ai a) (drop bi b) = diffF cmp eq (drop ai a) (drop (bi + 1) b)"
        using gt by (simp add: db) (simp add: da)
      show ?thesis unfolding step using r m by auto
    next
      case eq
      define ar where "ar = runEq (drop ai a) cmp"
      define br where "br = runEq (drop bi b) cmp"
      define Q where "Q = (\<lambda>i. ContainsFunc br (\<lambda>be. eq (ar ! i) be))"
      define P where "P = (\<lambda>ae. ContainsFunc br (\<lambda>be. eq ae be))"
      define marks where "marks = map (\<lambda>i. ai + i) (filter Q [0 ..< length ar])"
      define ds1 where "ds1 = ds @ marks"
      define ai' where "ai' = ai + length ar"
      define bi' where "bi' = bi + length br"
      have d1: "deletes @ map (\<lambda>i. int (ai + i)) (filter Q [0 ..< length ar]) = map int ds1"
        using prems(1) by (simp add: ds1_def marks_def comp_def)
      have step: "diffSortedLists_loop cmp eq a b ai bi deletes
          = diffSortedLists_loop cmp eq a b ai' bi' (map int ds1)"
        unfolding d1[symmetric] ai'_def bi'_def Q_def ar_def br_def
        by (subst diffSortedLists_loop.simps) (simp only: ai bi eq if_True if_False simp_thms)
      have lar: "length ar \<le> length a - ai"
        using length_runEq_le[of "drop ai a" cmp] by (simp add: ar_def)
      have ai'le: "ai' \<le> length a" using lar ai by (simp add: ai'_def)
      have sm: "sorted_wrt (<) marks"
        unfolding marks_def sorted_wrt_map by (rule sorted_wrt_filter) simp
      have mb: "\<forall>d \<in> set marks. ai \<le> d \<and> d < ai'" by (auto simp: marks_def ai'_def)
      have s1: "sorted_wrt (<) ds1"
        unfolding ds1_def sorted_wrt_append using prems(3,4) sm mb by fastforce
      have b1: "\<forall>d \<in> set ds1. d < ai'" using prems(4) mb by (auto simp: ds1_def ai'_def)
      from "1.IH"(3)[OF True eq, folded ar_def br_def, folded Q_def ai'_def bi'_def, OF d1 ai'le s1 b1]
      obtain ds' where r: "diffSortedLists_loop cmp eq a b ai' bi' (map int ds1) = map int ds'"
        "sorted_wrt (<) ds'" "\<forall>d \<in> set ds'. d < length a"
        "keepNot (set ds') 0 a
           = keepNot (set ds1) 0 (take ai' a) @ diffF cmp eq (drop ai' a) (drop bi' b)"
        unfolding d1 by auto
      have "ar = take (length ar) (drop ai a)" unfolding ar_def by (rule runEq_prefix)
      then have tk: "take ai' a = take ai a @ ar"
        by (simp add: ai'_def take_add)
      have k1: "keepNot (set ds1) 0 (take ai a) = keepNot (set ds) 0 (take ai a)"
        by (rule keepNot_cong) (use mb ai in \<open>auto simp: ds1_def\<close>)
      have k2: "keepNot (set ds1) ai ar = filter (\<lambda>x. \<not> P x) ar"
      proof (rule keepNot_filter)
        fix i assume i: "i < length ar"
        have "ai + i \<notin> set ds" using prems(4) by auto
        moreover have "(ai + i \<in> set marks) = Q i" using i by (auto simp: marks_def)
        ultimately show "(ai + i \<in> set ds1) = P (ar ! i)" by (simp add: ds1_def Q_def P_def)
      qed
      have k: "keepNot (set ds1) 0 (take ai' a) = keepNot (set ds) 0 (take ai a) @ filter (\<lambda>x. \<not> P x) ar"
        unfolding tk keepNot_append using k1 k2 ai by simp
      have dd: "drop (length ar) (drop ai a) = drop ai' a" by (simp add: ai'_def add.commute)
      have dd2: "drop (length br) (drop bi b) = drop bi' b" by (simp add: bi'_def add.commute)
      have m: "diffF cmp eq (drop ai a) (drop bi b)
          = filter (\<lambda>x. \<not> P x) ar @ diffF cmp eq (drop ai' a) (drop bi' b)"
        unfolding dd[symmetric] dd2[symmetric] P_def ar_def br_def
        using eq by (simp add: da) (simp add: db)
      show ?thesis unfolding step using r k m by auto
    qed
  qed
qed

lemma diffSortedLists_F: "diffSortedLists z a b cmp eq = Some (diffF cmp eq a b)"
proof -
  from diff_loop[of "[]" "[]" 0 a cmp eq b 0]
  obtain ds' where r: "diffSortedLists_loop cmp eq a b 0 0 [] = map int ds'"
    "sorted_wrt (<) ds'" "\<forall>d \<in> set ds'. d < length a"
    "keepNot (set ds') 0 a = diffF cmp eq a b"
    by auto
  show ?thesis
    unfolding diffSortedLists_def r(1) using deleteFrom_keep[OF r(2,3), of z] r(4) by simp
qed

subsection \<open>Removal of duplicates\<close>

lemma length_dedupStep: "length (dedupStep eq acc x) \<le> Suc (length acc)"
  by (simp add: dedupStep_def split: option.splits)

lemma length_foldl_dedupStep:
  "length (foldl (dedupStep eq) acc xs) \<le> length acc + length xs"
proof (induction xs arbitrary: acc)
  case Nil
  then show ?case by simp
next
  case (Cons x xs)
  have "length (foldl (dedupStep eq) (dedupStep eq acc x) xs) \<le> length (dedupStep eq acc x) + length xs"
    by (rule Cons.IH)
  then show ?case using length_dedupStep[of eq acc x] by simp
qed

lemma length_dedupF: "length (dedupF eq xs) \<le> length xs"
  using length_foldl_dedupStep[of eq "[hd xs]" "tl xs"]
  by (cases xs) (simp_all add: dedupF_def)

lemma uniqEqSlow_loop_F:
  "dst = int d \<Longrightarrow> d \<le> src \<Longrightarrow> src \<le> n \<Longrightarrow> length list = n \<Longrightarrow>
   \<exists>list' d'. uniqEqSlow_loop eq n list src dst = Some (list', int d') \<and> length list' = n \<and>
      d' \<le> n \<and> take d' list' = foldl (dedupStep eq) (take d list) (drop src list)"
proof (induction eq n list src dst arbitrary: d rule: uniqEqSlow_loop.induct)
  case (1 eq n list src dst)
  note prems = "1.prems"
  show ?case
  proof (cases "src < n")
    case False
    have e: "uniqEqSlow_loop eq n list src dst = Some (list, dst)"
      by (subst uniqEqSlow_loop.simps) (simp only: False if_False)
    have "drop src list = []" using False prems by simp
    then show ?thesis unfolding e using prems by auto
  next
    case True
    define x where "x = list ! src"
    define pre where "pre = take d list"
    have dn: "d < n" using True prems by simp
    have r1: "reslice list 0 dst = Some pre"
      using reslice_nat[of 0 d list] dn prems by (simp add: pre_def)
    have ds: "drop src list = x # drop (Suc src) list"
      using True prems by (simp add: x_def Cons_nth_drop_Suc)
    show ?thesis
    proof (cases "IndexFunc pre (\<lambda>a. eq x a)")
      case (Some idx)
      have il: "idx < d" using IndexFunc_less[OF Some] dn prems by (simp add: pre_def)
      define l1 where "l1 = list[idx := x]"
      have r2: "store_at list (int idx) x = Some l1"
        using il dn prems by (simp add: store_at_nat l1_def)
      have step: "uniqEqSlow_loop eq n list src dst = uniqEqSlow_loop eq n l1 (src + 1) dst"
        by (subst uniqEqSlow_loop.simps)
           (simp add: True r1 x_def[symmetric] Some r2)
      have Some': "IndexFunc pre (\<lambda>a. eq (list ! src) a) = Some idx" using Some by (simp add: x_def)
      have r2': "store_at list (int idx) (list ! src) = Some l1" using r2 by (simp add: x_def)
      have ll1: "length l1 = n" using prems by (simp add: l1_def)
      have le1: "d \<le> src + 1" "src + 1 \<le> n" using prems True by simp_all
      from "1.IH"(2)[OF True r1 Some' r2' prems(1) le1 ll1]
      obtain list' d' where r: "uniqEqSlow_loop eq n l1 (src + 1) dst = Some (list', int d')"
        "length list' = n" "d' \<le> n"
        "take d' list' = foldl (dedupStep eq) (take d l1) (drop (src + 1) l1)"
        by auto
      have t: "take d l1 = dedupStep eq pre x"
        using Some il by (simp add: l1_def dedupStep_def pre_def take_update_swap)
      have dr: "drop (src + 1) l1 = drop (Suc src) list"
        using il prems by (simp add: l1_def)
      show ?thesis unfolding step using r t dr ds by (auto simp: pre_def)
    next
      case None
      define l1 where "l1 = list[d := x]"
      have r2: "store_at list dst x = Some l1"
        using dn prems by (simp add: store_at_nat l1_def)
      have step: "uniqEqSlow_loop eq n list src dst = uniqEqSlow_loop eq n l1 (src + 1) (dst + 1)"
        by (subst uniqEqSlow_loop.simps)
           (simp add: True r1 x_def[symmetric] None r2)
      have d1: "dst + 1 = int (Suc d)" using prems by simp
      have None': "IndexFunc pre (\<lambda>a. eq (list ! src) a) = None" using None by (simp add: x_def)
      have r2': "store_at list dst (list ! src) = Some l1" using r2 by (simp add: x_def)
      have ll1: "length l1 = n" using prems by (simp add: l1_def)
      have le1: "Suc d \<le> src + 1" "src + 1 \<le> n" using prems True by simp_all
      from "1.IH"(1)[OF True r1 None' r2' d1 le1 ll1]
      obtain list' d' where r: "uniqEqSlow_loop eq n l1 (src + 1) (dst + 1) = Some (list', int d')"
        "length list' = n" "d' \<le> n"
        "take d' list' = foldl (dedupStep eq) (take (Suc d) l1) (drop (src + 1) l1)"
        by auto
      have t: "take (Suc d) l1 = dedupStep eq pre x"
        using None dn prems by (simp add: l1_def dedupStep_def pre_def take_Suc_conv_app_nth)
      have dr: "drop (src + 1) l1 = drop (Suc src) list"
        using prems by (simp add: l1_def)
      show ?thesis unfolding step using r t dr ds by (auto simp: pre_def)
    qed
  qed
qed

lemma uniqEqSlow_F:
  "\<exists>cells. uniqEqSlow z list eq = Some (cells, dedupF eq list) \<and> length cells = length list"
proof (cases "length list < 2")
  case True
  then have "dedupF eq list = list"
    by (cases list; cases "tl list") (auto simp: dedupF_def)
  then show ?thesis using True by (simp add: uniqEqSlow_def)
next
  case False
  then obtain x y rest where l: "list = x # y # rest"
    by (cases list; cases "tl list") auto
  from uniqEqSlow_loop_F[of 1 1 1 "length list" list eq] False
  obtain list' d' where r: "uniqEqSlow_loop eq (length list) list 1 1 = Some (list', int d')"
    "length list' = length list" "d' \<le> length list"
    "take d' list' = foldl (dedupStep eq) (take 1 list) (drop 1 list)"
    by auto
  have f: "take d' list' = dedupF eq list" using r(4) l by (simp add: dedupF_def)
  define cells where "cells = take d' list' @ replicate (length list' - d') z"
  have c: "clear_from z list' (int d') = Some cells"
    using r(2,3) by (simp add: clear_from_nat cells_def)
  have lc: "length cells = length list" using r(2,3) by (simp add: cells_def)
  have s: "reslice cells 0 (int d') = Some (take d' list')"
    using r(2,3) reslice_nat[of 0 d' cells] by (simp add: cells_def)
  show ?thesis
    using False r(1) c s f lc by (simp add: uniqEqSlow_def Let_def)
qed

lemma takeWhile_run:
  "(\<forall>x \<in> set xs. P x) \<Longrightarrow> \<not> P y \<Longrightarrow> takeWhile P (xs @ y # ys) = xs \<and> dropWhile P (xs @ y # ys) = y # ys"
  by (induction xs) simp_all

lemma uniqCmpEq_loop_F:
  "dst = int d \<Longrightarrow> d \<le> src \<Longrightarrow> src < i \<Longrightarrow> i \<le> n \<Longrightarrow> length list = n \<Longrightarrow> prev = list ! src \<Longrightarrow>
   (\<forall>k. src < k \<and> k < i \<longrightarrow> cmp (list ! k) prev = 0) \<Longrightarrow>
   \<exists>l1 src' d'. uniqCmpEq_loop z cmp eq n list i src dst prev = Some (l1, src', int d') \<and>
      length l1 = n \<and> d' \<le> src' \<and> src' < n \<and>
      take d' l1 @ dedupF eq (drop src' l1) = take d list @ uniqF cmp eq (drop src list)"
proof (induction z cmp eq n list i src dst prev arbitrary: d rule: uniqCmpEq_loop.induct)
  case (1 z cmp eq n list i src dst prev)
  note prems = "1.prems"
  have sn: "src < n" using prems by simp
  have ds: "drop src list = prev # drop (Suc src) list"
    using sn prems by (simp add: Cons_nth_drop_Suc)
  show ?case
  proof (cases "i < n")
    case False
    have e: "uniqCmpEq_loop z cmp eq n list i src dst prev = Some (list, src, dst)"
      by (subst uniqCmpEq_loop.simps) (simp only: False if_False)
    have "\<forall>v \<in> set (drop (Suc src) list). cmp v prev = 0"
    proof
      fix v assume "v \<in> set (drop (Suc src) list)"
      then obtain k where "Suc src \<le> k" "k < length list" "v = list ! k"
        using set_drop_nth by metis
      then show "cmp v prev = 0" using prems False by simp
    qed
    then have tw: "takeWhile (\<lambda>v. cmp v prev = 0) (drop (Suc src) list) = drop (Suc src) list"
      and dw: "dropWhile (\<lambda>v. cmp v prev = 0) (drop (Suc src) list) = []"
      by simp_all
    have "uniqF cmp eq (prev # drop (Suc src) list) = dedupF eq (prev # drop (Suc src) list)"
      by (simp add: tw dw)
    then have "uniqF cmp eq (drop src list) = dedupF eq (drop src list)"
      by (simp only: ds)
    then show ?thesis unfolding e using prems sn by auto
  next
    case True
    show ?thesis
    proof (cases "cmp (list ! i) prev = 0")
      case c: True
      have step: "uniqCmpEq_loop z cmp eq n list i src dst prev
          = uniqCmpEq_loop z cmp eq n list (i + 1) src dst prev"
        by (subst uniqCmpEq_loop.simps) (simp only: True c if_True simp_thms)
      have inv: "\<forall>k. src < k \<and> k < i + 1 \<longrightarrow> cmp (list ! k) prev = 0"
        using prems(7) c by (auto simp: less_Suc_eq)
      from "1.IH"(1)[OF True c prems(1,2) _ _ prems(5,6) inv] True prems(3)
      show ?thesis unfolding step by simp
    next
      case c: False
      define run where "run = take (i - src) (drop src list)"
      have r1: "reslice list (int src) (int i) = Some run"
        using prems True by (subst reslice_nat) (simp_all add: run_def)
      have lrun: "length run = i - src" using prems True by (simp add: run_def)
      from uniqEqSlow_F[of z run eq]
      obtain run1 where r2: "uniqEqSlow z run eq = Some (run1, dedupF eq run)"
        and lrun1: "length run1 = i - src" using lrun by auto
      define res where "res = dedupF eq run"
      define m where "m = length res"
      have mle: "m \<le> i - src" using length_dedupF[of eq run] lrun by (simp add: m_def res_def)
      define list1 where "list1 = take src list @ run1 @ drop i list"
      have l1: "length list1 = n" using prems True lrun1 by (simp add: list1_def)
      define list2 where "list2 = take d list1 @ res @ drop (d + m) list1"
      have dm: "d + m \<le> i" using mle prems by simp
      have r3: "copy_from list1 dst res = Some (list2, int m)"
        using copy_from_fit[of d res list1] dm True l1 prems(1)
        by (simp add: list2_def m_def)
      have l2: "length list2 = n" using dm True l1 by (simp add: list2_def m_def)
      have step: "uniqCmpEq_loop z cmp eq n list i src dst prev
          = uniqCmpEq_loop z cmp eq n list2 (i + 1) i (dst + int m) (list ! i)"
        by (subst uniqCmpEq_loop.simps)
           (simp add: True c r1 r2 list1_def[symmetric] res_def[symmetric] r3)
      have t1: "take d list1 = take d list" using prems by (simp add: list1_def)
      have lpre1: "length (take src list @ run1) = i" using prems True lrun1 by simp
      have di1: "drop i list1 = drop i list"
        using drop_app_len[OF lpre1, of "drop i list"] by (simp add: list1_def)
      have lpre2: "length (take d list1 @ res) = d + m" using l1 dm True by (simp add: m_def)
      have "drop (d + m) list2 = drop (d + m) list1"
        using drop_app_len[OF lpre2, of "drop (d + m) list1"] by (simp add: list2_def)
      then have "drop (i - (d + m)) (drop (d + m) list2) = drop (i - (d + m)) (drop (d + m) list1)"
        by simp
      then have di2: "drop i list2 = drop i list" using dm di1 by simp
      have t2: "take (d + m) list2 = take d list @ res"
        using take_app_len[OF lpre2, of "drop (d + m) list1"] t1 by (simp add: list2_def)
      have nth2: "list2 ! i = list ! i"
      proof -
        have "list2 ! i = hd (drop i list2)" using True l2 by (simp add: hd_drop_conv_nth)
        also have "\<dots> = hd (drop i list)" using di2 by simp
        also have "\<dots> = list ! i" using True prems by (simp add: hd_drop_conv_nth)
        finally show ?thesis .
      qed
      have p1: "dst + int m = int (d + m)" using prems by simp
      have inv: "\<forall>k. i < k \<and> k < i + 1 \<longrightarrow> cmp (list2 ! k) (list ! i) = 0" by simp
      have r2': "uniqEqSlow z run eq = Some (run1, res)" using r2 by (simp add: res_def)
      have r3': "copy_from (take src list @ run1 @ drop i list) dst res = Some (list2, int m)"
        using r3 by (simp add: list1_def)
      have i1: "i < i + 1" "i + 1 \<le> n" using True by simp_all
      from "1.IH"(2)[OF True c r1 r2' refl r3' refl p1 dm i1 l2 nth2[symmetric] inv]
      obtain la src' d' where r: "uniqCmpEq_loop z cmp eq n list2 (i + 1) i (dst + int m) (list ! i)
            = Some (la, src', int d')"
        "length la = n" "d' \<le> src'" "src' < n"
        "take d' la @ dedupF eq (drop src' la) = take (d + m) list2 @ uniqF cmp eq (drop i list2)"
        by auto
      have rest: "drop (Suc src) list = take (i - Suc src) (drop (Suc src) list) @ list ! i # drop (Suc i) list"
      proof -
        have "drop (Suc src) list = take (i - Suc src) (drop (Suc src) list) @ drop (i - Suc src) (drop (Suc src) list)"
          by (rule append_take_drop_id[symmetric])
        also have "drop (i - Suc src) (drop (Suc src) list) = drop i list" using prems by simp
        also have "\<dots> = list ! i # drop (Suc i) list" using True prems by (simp add: Cons_nth_drop_Suc)
        finally show ?thesis .
      qed
      have all: "\<forall>v \<in> set (take (i - Suc src) (drop (Suc src) list)). cmp v prev = 0"
      proof
        fix v assume "v \<in> set (take (i - Suc src) (drop (Suc src) list))"
        then obtain k where k: "k < i - Suc src" "k < length (drop (Suc src) list)"
            "v = drop (Suc src) list ! k"
          using set_take_nth by metis
        then have "v = list ! (Suc src + k)" using prems True by simp
        then show "cmp v prev = 0" using prems(7) k by simp
      qed
      have di: "list ! i # drop (Suc i) list = drop i list"
        using True prems by (simp add: Cons_nth_drop_Suc)
      have tw: "takeWhile (\<lambda>v. cmp v prev = 0) (drop (Suc src) list) = take (i - Suc src) (drop (Suc src) list)"
        and dw: "dropWhile (\<lambda>v. cmp v prev = 0) (drop (Suc src) list) = drop i list"
        using takeWhile_run[OF all c, of "drop (Suc i) list", unfolded rest[symmetric]] di
        by simp_all
      have runeq: "run = prev # take (i - Suc src) (drop (Suc src) list)"
      proof -
        have "run = take (Suc (i - Suc src)) (prev # drop (Suc src) list)"
          using prems ds by (simp add: run_def Suc_diff_Suc)
        then show ?thesis by simp
      qed
      have "uniqF cmp eq (prev # drop (Suc src) list) = res @ uniqF cmp eq (drop i list)"
        by (simp add: tw dw res_def runeq)
      then have u: "uniqF cmp eq (drop src list) = res @ uniqF cmp eq (drop i list)"
        by (simp only: ds)
      show ?thesis unfolding step using r u t2 di2 by auto
    qed
  qed
qed

lemma uniqCmpEq_F: "uniqCmpEq z list cmp eq = Some (uniqF cmp eq list)"
proof (cases "length list = 0")
  case True
  then show ?thesis by (simp add: uniqCmpEq_def)
next
  case False
  define n where "n = length list"
  have n1: "1 \<le> n" using False by (cases list) (simp_all add: n_def)
  have "\<exists>l1 src' d'. uniqCmpEq_loop z cmp eq n list 1 0 0 (list ! 0) = Some (l1, src', int d') \<and>
      length l1 = n \<and> d' \<le> src' \<and> src' < n \<and>
      take d' l1 @ dedupF eq (drop src' l1) = take 0 list @ uniqF cmp eq (drop 0 list)"
    by (rule uniqCmpEq_loop_F[of 0 0 0 1 n list "list ! 0" cmp z eq])
       (use n1 in \<open>simp_all add: n_def\<close>)
  then obtain l1 src d where r: "uniqCmpEq_loop z cmp eq n list 1 0 0 (list ! 0) = Some (l1, src, int d)"
    "length l1 = n" "d \<le> src" "src < n"
    "take d l1 @ dedupF eq (drop src l1) = uniqF cmp eq list"
    by auto
  define run where "run = drop src l1"
  have r1: "reslice l1 (int src) (int (length l1)) = Some run"
    using r(2,4) by (subst reslice_nat) (simp_all add: run_def)
  from uniqEqSlow_F[of z run eq]
  obtain run1 where r2: "uniqEqSlow z run eq = Some (run1, dedupF eq run)"
    and lrun1: "length run1 = n - src" using r(2) by (auto simp: run_def)
  define res where "res = dedupF eq run"
  define m where "m = length res"
  have mle: "m \<le> n - src" using length_dedupF[of eq run] r(2) by (simp add: m_def res_def run_def)
  define l2 where "l2 = take src l1 @ run1"
  have ll2: "length l2 = n" using r(2,4) lrun1 by (simp add: l2_def)
  define l3 where "l3 = take d l2 @ res @ drop (d + m) l2"
  have dm: "d + m \<le> n" using mle r(3,4) by simp
  have r3: "copy_from l2 (int d) res = Some (l3, int m)"
    using copy_from_fit[of d res l2] dm ll2 by (simp add: l3_def m_def)
  have ll3: "length l3 = n" using dm ll2 by (simp add: l3_def m_def)
  have r4: "clear_from z l3 (int (d + m)) = Some (take (d + m) l3 @ replicate (n - (d + m)) z)"
    using dm ll3 by (subst clear_from_nat) simp_all
  have r5: "reslice (take (d + m) l3 @ replicate (n - (d + m)) z) 0 (int (d + m)) = Some (take (d + m) l3)"
    using dm ll3 reslice_nat[of 0 "d + m" "take (d + m) l3 @ replicate (n - (d + m)) z"] by simp
  have lpre: "length (take d l2 @ res) = d + m" using ll2 dm by (simp add: m_def)
  have t3: "take (d + m) l3 = take d l1 @ res"
    using take_app_len[OF lpre, of "drop (d + m) l2"] r(2,3,4) by (simp add: l3_def l2_def)
  have r3': "copy_from (take src l1 @ run1) (int d) (dedupF eq run) = Some (l3, int m)"
    using r3 by (simp only: l2_def res_def)
  have r4': "clear_from z l3 (int d + int m) = Some (take (d + m) l3 @ replicate (n - (d + m)) z)"
    using r4 by simp
  have r5': "reslice (take (d + m) l3 @ replicate (n - (d + m)) z) 0 (int d + int m) = Some (take (d + m) l3)"
    using r5 by simp
  have r0: "uniqCmpEq_loop z cmp eq (length list) list (Suc 0) 0 0 (list ! 0) = Some (l1, src, int d)"
    using r(1) by (simp add: n_def)
  have main: "uniqCmpEq z list cmp eq = Some (take (d + m) l3)"
    unfolding uniqCmpEq_def Let_def
    using False by (simp add: r0 r1 r2 r3' r4' r5' del: of_nat_add)
  have "take (d + m) l3 = uniqF cmp eq list"
    using t3 r(5) by (simp add: res_def run_def)
  then show ?thesis using main by simp
qed

lemma stableSortUniqCmpEq_F:
  "stableSortUniqCmpEq z list cmp eq = Some (uniqF cmp eq (SortStableFunc list cmp))"
  by (simp add: stableSortUniqCmpEq_def stableSortCmp_def uniqCmpEq_F)

lemma StableSortUniqFuncs_F:
  "StableSortUniqFuncs z list cmp eq = Some (uniqF cmp eq (SortStableFunc list cmp))"
  by (simp add: StableSortUniqFuncs_def UniqSortedFuncs_def uniqCmpEq_F)

subsection \<open>The loops for ordered element types\<close>

lemma mergeUniqF_Nil2 [simp]: "mergeUniqF a [] = a"
  by (cases a) simp_all

lemma diffUniqF_Nil2 [simp]: "diffUniqF a [] = a"
  by (cases a) simp_all

lemma mergeUniq_loop:
  "length a = an \<Longrightarrow> ai \<le> an \<Longrightarrow> bi \<le> length b \<Longrightarrow> positions_ok ins ai \<Longrightarrow>
   (case mergeUniqSortedLists_loop an a b ai bi ins of
      (a', bi', ins') \<Rightarrow>
        length a' = an \<and> positions_ok ins' an \<and>
        woven a' ins' @ drop bi' b = woven (take ai a) ins @ mergeUniqF (drop ai a) (drop bi b))"
proof (induction an a b ai bi ins rule: mergeUniqSortedLists_loop.induct)
  case (1 an a b ai bi inserts)
  note prems = "1.prems"
  show ?case
  proof (cases "ai < an \<and> bi < length b")
    case False
    have w: "woven a inserts = woven (take ai a) inserts @ drop ai a"
      using woven_append[of inserts "take ai a" "drop ai a"] prems by simp
    have m: "mergeUniqF (drop ai a) (drop bi b) = drop ai a @ drop bi b"
    proof (cases "ai < an")
      case True
      with False prems have "drop bi b = []" by simp
      then show ?thesis by simp
    next
      case False
      with prems have "drop ai a = []" by simp
      then show ?thesis by simp
    qed
    have "mergeUniqSortedLists_loop an a b ai bi inserts = (a, bi, inserts)"
      by (subst mergeUniqSortedLists_loop.simps) (simp only: False if_False simp_thms)
    then show ?thesis using prems w m by (simp add: positions_ok_mono)
  next
    case True
    then have ai: "ai < an" and bi: "bi < length b" by simp_all
    have da: "drop ai a = a ! ai # drop (Suc ai) a"
      using ai prems by (simp add: Cons_nth_drop_Suc)
    have db: "drop bi b = b ! bi # drop (Suc bi) b"
      using bi by (simp add: Cons_nth_drop_Suc)
    have tk: "take (Suc ai) a = take ai a @ [a ! ai]"
      using ai prems by (simp add: take_Suc_conv_app_nth)
    have okt: "positions_ok inserts (length (take ai a))" using prems by simp
    consider (lt) "a ! ai < b ! bi"
      | (gt) "\<not> a ! ai < b ! bi" "a ! ai > b ! bi"
      | (eq) "\<not> a ! ai < b ! bi" "\<not> a ! ai > b ! bi"
      by blast
    then show ?thesis
    proof cases
      case lt
      have step: "mergeUniqSortedLists_loop an a b ai bi inserts
          = mergeUniqSortedLists_loop an a b (Suc ai) bi inserts"
        by (subst mergeUniqSortedLists_loop.simps) (simp only: ai bi lt if_True simp_thms Suc_eq_plus1)
      have ih: "case mergeUniqSortedLists_loop an a b (Suc ai) bi inserts of
          (a', bi', ins') \<Rightarrow> length a' = an \<and> positions_ok ins' an \<and>
            woven a' ins' @ drop bi' b
              = woven (take (Suc ai) a) inserts @ mergeUniqF (drop (Suc ai) a) (drop bi b)"
        using "1.IH"(1)[OF True lt] prems ai by (simp add: positions_ok_mono)
      have w: "woven (take (Suc ai) a) inserts = woven (take ai a) inserts @ [a ! ai]"
        using woven_append[OF okt, of "[a ! ai]"] tk by simp
      have m: "mergeUniqF (drop ai a) (drop bi b)
          = a ! ai # mergeUniqF (drop (Suc ai) a) (drop bi b)"
        using lt by (simp add: da) (simp add: db)
      show ?thesis unfolding step using ih by (simp add: w m split: prod.splits)
    next
      case gt
      have step: "mergeUniqSortedLists_loop an a b ai bi inserts
          = mergeUniqSortedLists_loop an a b ai (Suc bi) (inserts @ [(int ai, b ! bi)])"
        by (subst mergeUniqSortedLists_loop.simps)
           (simp only: ai bi gt if_True if_False simp_thms Suc_eq_plus1)
      have ih: "case mergeUniqSortedLists_loop an a b ai (Suc bi) (inserts @ [(int ai, b ! bi)]) of
          (a', bi', ins') \<Rightarrow> length a' = an \<and> positions_ok ins' an \<and>
            woven a' ins' @ drop bi' b
              = woven (take ai a) (inserts @ [(int ai, b ! bi)])
                @ mergeUniqF (drop ai a) (drop (Suc bi) b)"
        using "1.IH"(2)[OF True gt] prems bi by (simp add: positions_ok_snoc)
      have w: "woven (take ai a) (inserts @ [(int ai, b ! bi)]) = woven (take ai a) inserts @ [b ! bi]"
        using woven_snoc[OF okt, of "b ! bi"] prems by simp
      have m: "mergeUniqF (drop ai a) (drop bi b)
          = b ! bi # mergeUniqF (drop ai a) (drop (Suc bi) b)"
        using gt by (simp add: db) (simp add: da)
      show ?thesis unfolding step using ih by (simp add: w m split: prod.splits)
    next
      case eq
      define a1 where "a1 = a[ai := b ! bi]"
      have step: "mergeUniqSortedLists_loop an a b ai bi inserts
          = mergeUniqSortedLists_loop an a1 b (Suc ai) (Suc bi) inserts"
        unfolding a1_def
        by (subst mergeUniqSortedLists_loop.simps)
           (simp only: ai bi eq if_True if_False simp_thms Suc_eq_plus1)
      have la1: "length a1 = an" using prems by (simp add: a1_def)
      have ih: "case mergeUniqSortedLists_loop an a1 b (Suc ai) (Suc bi) inserts of
          (a', bi', ins') \<Rightarrow> length a' = an \<and> positions_ok ins' an \<and>
            woven a' ins' @ drop bi' b
              = woven (take (Suc ai) a1) inserts @ mergeUniqF (drop (Suc ai) a1) (drop (Suc bi) b)"
        using "1.IH"(3)[OF True eq, folded a1_def] la1 prems ai bi by (simp add: positions_ok_mono)
      have t1: "take (Suc ai) a1 = take ai a @ [b ! bi]"
        using ai prems by (simp add: a1_def take_Suc_conv_app_nth)
      have d1: "drop (Suc ai) a1 = drop (Suc ai) a" by (simp add: a1_def)
      have w: "woven (take (Suc ai) a1) inserts = woven (take ai a) inserts @ [b ! bi]"
        unfolding t1 by (rule woven_append[OF okt])
      have m: "mergeUniqF (drop ai a) (drop bi b)
          = b ! bi # mergeUniqF (drop (Suc ai) a) (drop (Suc bi) b)"
        using eq by (simp add: da) (simp add: db)
      show ?thesis unfolding step using ih by (simp add: w m d1 split: prod.splits)
    qed
  qed
qed

lemma mergeUniqSortedLists_F: "mergeUniqSortedLists z a b = Some (mergeUniqF a b)"
proof -
  obtain a' bi' ins' where l: "mergeUniqSortedLists_loop (length a) a b 0 0 [] = (a', bi', ins')"
    by (cases "mergeUniqSortedLists_loop (length a) a b 0 0 []") auto
  from mergeUniq_loop[of a "length a" 0 0 b "[]"] l
  have la: "length a' = length a" and ok: "positions_ok ins' (length a)"
    and w: "woven a' ins' @ drop bi' b = mergeUniqF a b"
    by simp_all
  show ?thesis
    using insertInto_woven[of ins' a' z "drop bi' b"] ok la w
    by (simp add: mergeUniqSortedLists_def l)
qed

lemma diffUniq_loop:
  "deletes = map int ds \<Longrightarrow> ai \<le> length a \<Longrightarrow> sorted_wrt (<) ds \<Longrightarrow> \<forall>d \<in> set ds. d < ai \<Longrightarrow>
   \<exists>ds'. diffUniqSortedLists_loop a b ai bi deletes = map int ds' \<and>
         sorted_wrt (<) ds' \<and> (\<forall>d \<in> set ds'. d < length a) \<and>
         keepNot (set ds') 0 a = keepNot (set ds) 0 (take ai a) @ diffUniqF (drop ai a) (drop bi b)"
proof (induction a b ai bi deletes arbitrary: ds rule: diffUniqSortedLists_loop.induct)
  case (1 a b ai bi deletes)
  note prems = "1.prems"
  show ?case
  proof (cases "ai < length a \<and> bi < length b")
    case False
    have e: "diffUniqSortedLists_loop a b ai bi deletes = deletes"
      by (subst diffUniqSortedLists_loop.simps) (simp only: False if_False simp_thms)
    have m: "diffUniqF (drop ai a) (drop bi b) = drop ai a"
    proof (cases "ai < length a")
      case True
      with False have "drop bi b = []" by simp
      then show ?thesis by simp
    next
      case False
      then have "drop ai a = []" by simp
      then show ?thesis by simp
    qed
    have "keepNot (set ds) 0 a = keepNot (set ds) 0 (take ai a) @ drop ai a"
      by (rule keepNot_split) (use prems in auto)
    moreover have "\<forall>d \<in> set ds. d < length a" using prems by auto
    ultimately show ?thesis unfolding e m using prems by blast
  next
    case True
    then have ai: "ai < length a" and bi: "bi < length b" by simp_all
    have da: "drop ai a = a ! ai # drop (Suc ai) a"
      using ai by (simp add: Cons_nth_drop_Suc)
    have db: "drop bi b = b ! bi # drop (Suc bi) b"
      using bi by (simp add: Cons_nth_drop_Suc)
    have tk: "take (ai + 1) a = take ai a @ [a ! ai]" using ai by (simp add: take_Suc_conv_app_nth)
    have notin: "ai \<notin> set ds" using prems by auto
    consider (lt) "a ! ai < b ! bi"
      | (gt) "\<not> a ! ai < b ! bi" "a ! ai > b ! bi"
      | (eq) "\<not> a ! ai < b ! bi" "\<not> a ! ai > b ! bi"
      by blast
    then show ?thesis
    proof cases
      case lt
      have step: "diffUniqSortedLists_loop a b ai bi deletes
          = diffUniqSortedLists_loop a b (ai + 1) bi deletes"
        by (subst diffUniqSortedLists_loop.simps) (simp only: ai bi lt if_True simp_thms)
      have b': "\<forall>d \<in> set ds. d < ai + 1" using prems by auto
      from "1.IH"(1)[OF True lt prems(1) _ prems(3) b'] ai
      obtain ds' where r: "diffUniqSortedLists_loop a b (ai + 1) bi deletes = map int ds'"
        "sorted_wrt (<) ds'" "\<forall>d \<in> set ds'. d < length a"
        "keepNot (set ds') 0 a
           = keepNot (set ds) 0 (take (ai + 1) a) @ diffUniqF (drop (ai + 1) a) (drop bi b)"
        by auto
      have k: "keepNot (set ds) 0 (take (ai + 1) a) = keepNot (set ds) 0 (take ai a) @ [a ! ai]"
        using ai notin unfolding tk by (simp add: keepNot_append)
      have m: "diffUniqF (drop ai a) (drop bi b) = a ! ai # diffUniqF (drop (ai + 1) a) (drop bi b)"
        using lt by (simp add: da) (simp add: db)
      show ?thesis unfolding step using r k m by auto
    next
      case gt
      have step: "diffUniqSortedLists_loop a b ai bi deletes
          = diffUniqSortedLists_loop a b ai (bi + 1) deletes"
        by (subst diffUniqSortedLists_loop.simps) (simp only: ai bi gt if_True if_False simp_thms)
      from "1.IH"(2)[OF True gt prems]
      obtain ds' where r: "diffUniqSortedLists_loop a b ai (bi + 1) deletes = map int ds'"
        "sorted_wrt (<) ds'" "\<forall>d \<in> set ds'. d < length a"
        "keepNot (set ds') 0 a
           = keepNot (set ds) 0 (take ai a) @ diffUniqF (drop ai a) (drop (bi + 1) b)"
        by auto
      have m: "diffUniqF (drop ai a) (drop bi b) = diffUniqF (drop ai a) (drop (bi + 1) b)"
        using gt by (simp add: db) (simp add: da)
      show ?thesis unfolding step using r m by auto
    next
      case eq
      define ds1 where "ds1 = ds @ [ai]"
      have d1: "deletes @ [int ai] = map int ds1" using prems(1) by (simp add: ds1_def)
      have step: "diffUniqSortedLists_loop a b ai bi deletes
          = diffUniqSortedLists_loop a b (ai + 1) (bi + 1) (map int ds1)"
        unfolding d1[symmetric]
        by (subst diffUniqSortedLists_loop.simps) (simp only: ai bi eq if_True if_False simp_thms)
      have s1: "sorted_wrt (<) ds1"
        unfolding ds1_def sorted_wrt_append using prems(3,4) by simp
      have b1: "\<forall>d \<in> set ds1. d < ai + 1" using prems(4) by (auto simp: ds1_def)
      have ale: "ai + 1 \<le> length a" using ai by simp
      from "1.IH"(3)[OF True eq d1 ale s1 b1]
      obtain ds' where r: "diffUniqSortedLists_loop a b (ai + 1) (bi + 1) (map int ds1) = map int ds'"
        "sorted_wrt (<) ds'" "\<forall>d \<in> set ds'. d < length a"
        "keepNot (set ds') 0 a
           = keepNot (set ds1) 0 (take (ai + 1) a) @ diffUniqF (drop (ai + 1) a) (drop (bi + 1) b)"
        unfolding d1 by auto
      have k1: "keepNot (set ds1) 0 (take ai a) = keepNot (set ds) 0 (take ai a)"
        by (rule keepNot_cong) (use ai in \<open>auto simp: ds1_def\<close>)
      have k: "keepNot (set ds1) 0 (take (ai + 1) a) = keepNot (set ds) 0 (take ai a)"
        unfolding tk keepNot_append using k1 ai by (simp add: ds1_def)
      have m: "diffUniqF (drop ai a) (drop bi b) = diffUniqF (drop (ai + 1) a) (drop (bi + 1) b)"
        using eq by (simp add: da) (simp add: db)
      show ?thesis unfolding step using r k m by auto
    qed
  qed
qed

lemma diffUniqSortedLists_F: "diffUniqSortedLists z a b = Some (diffUniqF a b)"
proof -
  from diffUniq_loop[of "[]" "[]" 0 a b 0]
  obtain ds' where r: "diffUniqSortedLists_loop a b 0 0 [] = map int ds'"
    "sorted_wrt (<) ds'" "\<forall>d \<in> set ds'. d < length a"
    "keepNot (set ds') 0 a = diffUniqF a b"
    by auto
  show ?thesis
    unfolding diffUniqSortedLists_def r(1) using deleteFrom_keep[OF r(2,3), of z] r(4) by simp
qed

subsection \<open>Shifting one element in or out\<close>

lemma insert_block:
  assumes b: "idx \<le> length es"
  shows "do {
           let grown = es @ [e];
           src \<leftarrow> reslice grown (int idx) (int (length grown));
           (es1, m) \<leftarrow> copy_from grown (int idx + 1) src;
           es2 \<leftarrow> store_at es1 (int idx) e;
           Some (f es2)
         } = Some (f (take idx es @ e # drop idx es))"
proof -
  define grown where "grown = es @ [e]"
  define src where "src = drop idx es @ [e]"
  define es1 where "es1 = take (Suc idx) grown @ drop idx es"
  have r1: "reslice grown (int idx) (int (length grown)) = Some src"
    using b by (subst reslice_nat) (simp_all add: grown_def src_def)
  have mn: "min (length grown - Suc idx) (length src) = length es - idx"
    using b by (simp add: grown_def src_def)
  have t: "take (length es - idx) src = drop idx es" using b by (simp add: src_def)
  have d: "drop (Suc idx + (length es - idx)) grown = []" using b by (simp add: grown_def)
  have lg: "Suc idx \<le> length grown" using b by (simp add: grown_def)
  have r2: "copy_from grown (int (Suc idx)) src = Some (es1, int (length es - idx))"
    using copy_from_nat[OF lg, of src] unfolding mn t d by (simp add: es1_def)
  have l1: "idx < length es1" using b by (simp add: es1_def grown_def)
  have r3: "store_at es1 (int idx) e = Some (es1[idx := e])"
    using l1 by (rule store_at_nat)
  have "take (Suc idx) grown = take idx grown @ [grown ! idx]"
    using lg by (simp add: take_Suc_conv_app_nth)
  moreover have "take idx grown = take idx es" using b by (simp add: grown_def)
  ultimately have "take (Suc idx) grown = take idx es @ [grown ! idx]" by simp
  then have "es1[idx := e] = take idx es @ e # drop idx es"
    using b by (simp add: es1_def list_update_append)
  moreover have e': "int idx + 1 = int (Suc idx)" by simp
  ultimately show ?thesis
    by (simp add: Let_def grown_def[symmetric] r1 e' r2 r3 del: of_nat_Suc)
qed

lemma remove_shift:
  assumes b: "idx < length es"
  shows "\<exists>es1 m. reslice es (int idx + 1) (int (length es)) = Some (drop (Suc idx) es) \<and>
           copy_from es (int idx) (drop (Suc idx) es) = Some (es1, m) \<and>
           length es1 = length es \<and>
           take (length es - 1) es1 = take idx es @ drop (Suc idx) es"
proof -
  define src where "src = drop (Suc idx) es"
  define es1 where "es1 = take idx es @ src @ drop (idx + length src) es"
  have e': "int idx + 1 = int (Suc idx)" by simp
  have r1: "reslice es (int idx + 1) (int (length es)) = Some src"
    unfolding e' using b by (subst reslice_nat) (simp_all add: src_def)
  have r2: "copy_from es (int idx) src = Some (es1, int (length src))"
    using b by (subst copy_from_fit) (simp_all add: src_def es1_def)
  have l: "length es1 = length es" using b by (simp add: es1_def src_def)
  have lpre: "length (take idx es @ src) = length es - 1" using b by (simp add: src_def)
  have t: "take (length es - 1) es1 = take idx es @ src"
    using take_app_len[OF lpre, of "drop (idx + length src) es"] by (simp add: es1_def)
  show ?thesis using r1 r2 l t by (auto simp: src_def)
qed

lemma Remove_eq:
  "Remove z s e = Some (case search s e of
      (idx, found) \<Rightarrow> if found then s\<lparr>elems := take idx (elems s) @ drop (Suc idx) (elems s)\<rparr> else s)"
proof (cases "search s e")
  case (Pair idx found)
  show ?thesis
  proof (cases found)
    case False
    then show ?thesis using Pair by (simp add: Remove_def)
  next
    case True
    define es where "es = elems s"
    have b: "idx < length es" using search_bounds[of s e idx found] Pair True by (simp add: es_def)
    from remove_shift[OF b] obtain es1 m where
      r1: "reslice es (int idx + 1) (int (length es)) = Some (drop (Suc idx) es)"
      and r2: "copy_from es (int idx) (drop (Suc idx) es) = Some (es1, m)"
      and l: "length es1 = length es"
      and t: "take (length es - 1) es1 = take idx es @ drop (Suc idx) es" by blast
    define k where "k = length es - 1"
    have kl: "k < length es1" using b l by (simp add: k_def)
    have ek: "int (length es) - 1 = int k" using b by (simp add: k_def)
    have r3: "store_at es1 (int k) z = Some (es1[k := z])" using kl by (rule store_at_nat)
    have r4: "reslice (es1[k := z]) 0 (int k) = Some (take k es1)"
      using kl reslice_nat[of 0 k "es1[k := z]"] by simp
    have t': "take k es1 = take idx es @ drop (Suc idx) es" using t by (simp add: k_def)
    show ?thesis
      using Pair True
      by (simp add: Remove_def Let_def es_def[symmetric] r1 r2 ek r3 r4 t')
  qed
qed

lemma funcSorted_scan_bounds:
  "funcSorted_scan cmp eq e xs pos n = (r, f) \<Longrightarrow> pos + length xs = n \<Longrightarrow>
   r \<le> n \<and> (f \<longrightarrow> r < n)"
  by (induction xs arbitrary: pos) (auto split: if_splits)

lemma funcSorted_search_bounds:
  "funcSorted_search s e = (r, found) \<Longrightarrow> r \<le> length (elems s) \<and> (found \<longrightarrow> r < length (elems s))"
proof -
  assume h: "funcSorted_search s e = (r, found)"
  define i where "i = sort_Search_loop (\<lambda>h. \<not> cmpFn s (elems s ! h) e < 0) 0 (length (elems s))"
  have b: "i \<le> length (elems s)"
    using sort_Search_loop_bounds[of 0 "length (elems s)"] by (simp add: i_def)
  show ?thesis
  proof (cases "i < length (elems s) \<and> cmpFn s (elems s ! i) e = 0")
    case False
    then have "funcSorted_search s e = (i, False)"
      by (auto simp: funcSorted_search_def BinarySearchFunc_def Let_def i_def)
    with h b show ?thesis by simp
  next
    case True
    then have "funcSorted_search s e
        = funcSorted_scan (cmpFn s) (eqFn s) e (drop i (elems s)) i (length (elems s))"
      by (auto simp: funcSorted_search_def BinarySearchFunc_def Let_def i_def)
    with h funcSorted_scan_bounds[of "cmpFn s" "eqFn s" e "drop i (elems s)" i "length (elems s)" r found] b
    show ?thesis by simp
  qed
qed

lemma funcSorted_insert_eq':
  "funcSorted_insert s e = Some (case funcSorted_search s e of
      (i, ok) \<Rightarrow> if ok then s\<lparr>elems := (elems s)[i := e]\<rparr>
                 else s\<lparr>elems := take i (elems s) @ e # drop i (elems s)\<rparr>)"
proof (cases "funcSorted_search s e")
  case (Pair i ok)
  from funcSorted_search_bounds[OF Pair] have b: "i \<le> length (elems s)" "ok \<longrightarrow> i < length (elems s)"
    by simp_all
  show ?thesis
  proof (cases ok)
    case True
    then show ?thesis using Pair b by (simp add: funcSorted_insert_def store_at_nat)
  next
    case False
    then show ?thesis
      using Pair insert_block[OF b(1), of e "\<lambda>es2. s\<lparr>elems := es2\<rparr>"]
      by (simp add: funcSorted_insert_def)
  qed
qed

lemma funcSorted_remove_eq:
  "funcSorted_remove z s e = Some (case funcSorted_search s e of
      (i, ok) \<Rightarrow> if ok then s\<lparr>elems := take i (elems s) @ drop (Suc i) (elems s)\<rparr> else s)"
proof (cases "funcSorted_search s e")
  case (Pair idx found)
  show ?thesis
  proof (cases found)
    case False
    then show ?thesis using Pair by (simp add: funcSorted_remove_def)
  next
    case True
    define es where "es = elems s"
    have b: "idx < length es" using funcSorted_search_bounds[of s e idx found] Pair True by (simp add: es_def)
    from remove_shift[OF b] obtain es1 m where
      r1: "reslice es (int idx + 1) (int (length es)) = Some (drop (Suc idx) es)"
      and r2: "copy_from es (int idx) (drop (Suc idx) es) = Some (es1, m)"
      and l: "length es1 = length es"
      and t: "take (length es - 1) es1 = take idx es @ drop (Suc idx) es" by blast
    define k where "k = length es - 1"
    have kl: "k < length es1" using b l by (simp add: k_def)
    have ek: "int (length es) - 1 = int k" using b by (simp add: k_def)
    define cells where "cells = take k es1 @ replicate (length es1 - k) z"
    have t': "take k es1 = take idx es @ drop (Suc idx) es" using t by (simp add: k_def)
    have r3: "clear_from z es1 (int k) = Some cells"
      using kl by (subst clear_from_nat) (simp_all add: cells_def)
    have lc: "k \<le> length cells" using kl by (simp add: cells_def)
    have tc: "take k cells = take k es1" using kl by (simp add: cells_def)
    have "reslice cells 0 (int k) = Some (take k cells)"
      using reslice_nat[of 0 k cells] lc by simp
    then have r4: "reslice cells 0 (int k) = Some (take idx es @ drop (Suc idx) es)"
      by (simp only: tc t')
    show ?thesis
      using Pair True
      by (simp add: funcSorted_remove_def Let_def es_def[symmetric] r1 r2 ek r3 r4)
  qed
qed

lemma ordered_insert_total: "\<exists>l'. ordered_insert l e = Some l'"
  using Insert_total[of "\<lparr>elems = l, cmpFn = cmp_Compare, eqFn = equal\<rparr>" e]
  by (auto simp: ordered_insert_Insert)

subsection \<open>The bulk operations as functions of lists\<close>

lemma insertAll_F:
  "insertAll z s es
     = Some (s\<lparr>elems := mergeF (cmpFn s) (eqFn s) (elems s)
                          (uniqF (cmpFn s) (eqFn s) (SortStableFunc es (cmpFn s)))\<rparr>)"
  by (simp add: insertAll_def stableSortUniqCmpEq_F mergeSortedLists_F)

lemma funcSorted_insertAll_eq: "funcSorted_insertAll z s es = insertAll z s es"
  by (simp add: funcSorted_insertAll_def insertAll_def MergeSorted_def StableSortUniqFuncs_F
                stableSortUniqCmpEq_F)

lemma removeAll_sorted_F:
  "removeAll_sorted z s es
     = Some (s\<lparr>elems := diffF (cmpFn s) (eqFn s) (elems s) (SortStableFunc es (cmpFn s))\<rparr>)"
  by (simp add: removeAll_sorted_def stableSortCmp_def diffSortedLists_F)

lemma funcSorted_removeAll_eq: "funcSorted_removeAll z s es = removeAll_sorted z s es"
  by (simp add: funcSorted_removeAll_def removeAll_sorted_def DeleteSorted_def stableSortCmp_def)

lemma NewSortedCmpEqFunc_F:
  "NewSortedCmpEqFunc z cmp eq es
     = Some \<lparr>elems = uniqF cmp eq (SortStableFunc es cmp), cmpFn = cmp, eqFn = eq\<rparr>"
  by (simp add: NewSortedCmpEqFunc_def stableSortUniqCmpEq_F)

lemma funcSort_eq: "funcSort z es cmp eq = NewSortedCmpEqFunc z cmp eq es"
  by (simp add: funcSort_def NewSortedCmpEqFunc_def StableSortUniqFuncs_F stableSortUniqCmpEq_F)

lemma funcSorted_removeSet_Self:
  "funcSorted_removeSet z s Self = Some (s\<lparr>elems := []\<rparr>)"
  using clear_from_nat[of 0 "elems s" z]
  by (simp add: funcSorted_removeSet_def reslice_def)

subsection \<open>Runs of a sorted list\<close>

lemma cmp_ok_eq_trans: "cmp_ok cmp \<Longrightarrow> cmp a b = 0 \<Longrightarrow> cmp b c = 0 \<Longrightarrow> cmp a c = 0"
proof -
  assume ok: "cmp_ok cmp" and ab: "cmp a b = 0" and bc: "cmp b c = 0"
  have "cmp a c \<le> 0" using cmp_ok_trans[OF ok, of a b c] ab bc by simp
  moreover have "cmp c b = 0" "cmp b a = 0" using ab bc cmp_ok_sym0[OF ok] by blast+
  then have "cmp c a \<le> 0" using cmp_ok_trans[OF ok, of c b a] by simp
  then have "0 \<le> cmp a c" using cmp_ok_ge[OF ok, of a c] by simp
  ultimately show ?thesis by simp
qed

lemma cmp_ok_lt_eq: "cmp_ok cmp \<Longrightarrow> cmp a b = 0 \<Longrightarrow> cmp b c < 0 \<Longrightarrow> cmp a c < 0"
  using cmp_ok_trans_lt2[of cmp a b c] by simp

lemma cmp_ok_eq_lt: "cmp_ok cmp \<Longrightarrow> cmp a b < 0 \<Longrightarrow> cmp b c = 0 \<Longrightarrow> cmp a c < 0"
  using cmp_ok_trans_lt1[of cmp a b c] by simp

lemma eq_ok_lt: "cmp_ok cmp \<Longrightarrow> eq_ok cmp eq \<Longrightarrow> cmp a b < 0 \<Longrightarrow> \<not> eq a b \<and> \<not> eq b a"
proof -
  assume ok: "cmp_ok cmp" and eok: "eq_ok cmp eq" and l: "cmp a b < 0"
  have "\<not> eq a b" using eq_ok_cmp[OF eok, of a b] l by auto
  moreover have "\<not> eq b a" using eq_ok_sym[OF eok, of b a] calculation by blast
  ultimately show ?thesis by simp
qed

lemma run_split:
  assumes ok: "cmp_ok cmp" and so: "sortedBy cmp (x # a)"
  shows "x # a = runEq (x # a) cmp @ drop (length (runEq (x # a) cmp)) (x # a) \<and>
         (\<forall>v \<in> set (runEq (x # a) cmp). cmp x v = 0) \<and>
         (\<forall>v \<in> set (drop (length (runEq (x # a) cmp)) (x # a)). cmp x v < 0)"
proof -
  define P where "P = (\<lambda>v. cmp x v = 0)"
  have le: "\<forall>v \<in> set a. cmp x v \<le> 0" using so by (simp add: sortedBy_def)
  have sa: "sorted_wrt (\<lambda>a b. cmp a b \<le> 0) a" using so by (simp add: sortedBy_def)
  have d: "drop (length (runEq (x # a) cmp)) (x # a) = dropWhile P a"
    by (simp add: P_def dropWhile_eq_drop)
  have r: "runEq (x # a) cmp = x # takeWhile P a" by (simp add: P_def)
  have 1: "\<forall>v \<in> set (runEq (x # a) cmp). cmp x v = 0"
    using cmp_ok_refl[OF ok] r by (auto simp: P_def dest: set_takeWhileD)
  have 2: "\<forall>v \<in> set (dropWhile P a). cmp x v < 0"
  proof (cases "dropWhile P a")
    case Nil
    show ?thesis unfolding Nil by simp
  next
    case (Cons w ws)
    have "\<not> P w" using Cons hd_dropWhile[of P a] by (metis list.distinct(1) list.sel(1))
    moreover have "w \<in> set a" using Cons set_dropWhileD[of w P a] by simp
    ultimately have w: "cmp x w < 0" using le by (auto simp: P_def)
    have "sorted_wrt (\<lambda>a b. cmp a b \<le> 0) (takeWhile P a @ dropWhile P a)" using sa by simp
    then have "sorted_wrt (\<lambda>a b. cmp a b \<le> 0) (w # ws)"
      unfolding sorted_wrt_append Cons by simp
    then have "\<forall>v \<in> set ws. cmp w v \<le> 0" by simp
    then have "\<forall>v \<in> set ws. cmp x v < 0" using cmp_ok_trans_lt1[OF ok w] by blast
    then show ?thesis using w Cons by simp
  qed
  have 0: "x # a = runEq (x # a) cmp @ drop (length (runEq (x # a) cmp)) (x # a)"
  proof -
    have "x # a = (x # takeWhile P a) @ dropWhile P a" by simp
    then show ?thesis using d r by simp
  qed
  show ?thesis using 0 1 2 d by simp
qed

lemma sortedBy_append:
  "sortedBy cmp (xs @ ys) = (sortedBy cmp xs \<and> sortedBy cmp ys \<and> (\<forall>x \<in> set xs. \<forall>y \<in> set ys. cmp x y \<le> 0))"
  by (simp add: sortedBy_def sorted_wrt_append)

lemma uniqueBy_append:
  "uniqueBy eq (xs @ ys) = (uniqueBy eq xs \<and> uniqueBy eq ys \<and> (\<forall>x \<in> set xs. \<forall>y \<in> set ys. \<not> eq x y))"
  by (simp add: uniqueBy_def sorted_wrt_append)

lemma sortedBy_Cons: "sortedBy cmp (x # xs) = ((\<forall>y \<in> set xs. cmp x y \<le> 0) \<and> sortedBy cmp xs)"
  by (simp add: sortedBy_def)

lemma uniqueBy_Cons: "uniqueBy eq (x # xs) = ((\<forall>y \<in> set xs. \<not> eq x y) \<and> uniqueBy eq xs)"
  by (simp add: uniqueBy_def)

lemma sortedBy_all_equal:
  "cmp_ok cmp \<Longrightarrow> \<forall>v \<in> set xs. cmp x v = 0 \<Longrightarrow> sortedBy cmp xs"
proof -
  assume ok: "cmp_ok cmp" and e: "\<forall>v \<in> set xs. cmp x v = 0"
  have "\<And>u v. u \<in> set xs \<Longrightarrow> v \<in> set xs \<Longrightarrow> cmp u v \<le> 0"
  proof -
    fix u v assume "u \<in> set xs" "v \<in> set xs"
    then have "cmp x u = 0" "cmp x v = 0" using e by simp_all
    then have "cmp u v = 0" using cmp_ok_eq_trans[OF ok, of u x v] cmp_ok_sym0[OF ok, of x u] by simp
    then show "cmp u v \<le> 0" by simp
  qed
  then show ?thesis unfolding sortedBy_def by (simp add: sorted_wrt_iff_nth_less)
qed

lemma uniqueBy_distinct: "eq_ok cmp eq \<Longrightarrow> uniqueBy eq xs \<Longrightarrow> distinct xs"
proof (induction xs)
  case Nil
  then show ?case by simp
next
  case (Cons x xs)
  then have "\<forall>y \<in> set xs. \<not> eq x y" "distinct xs" by (simp_all add: uniqueBy_Cons)
  then show ?case using eq_ok_refl[OF Cons.prems(1)] by auto
qed

lemma uniqueBy_set:
  "eq_ok cmp eq \<Longrightarrow> uniqueBy eq xs \<Longrightarrow> u \<in> set xs \<Longrightarrow> v \<in> set xs \<Longrightarrow> eq u v \<Longrightarrow> u = v"
  using uniqueBy_nth[of cmp eq xs] by (metis in_set_conv_nth)

subsection \<open>The merge of two runs\<close>

lemma IndexFunc_Some: "IndexFunc xs f = Some i \<Longrightarrow> i < length xs \<and> f (xs ! i)"
  by (induction xs arbitrary: i) (auto split: if_splits)

lemma IndexFunc_None: "IndexFunc xs f = None \<Longrightarrow> \<forall>x \<in> set xs. \<not> f x"
  by (induction xs) (auto split: if_splits)

lemma ContainsFunc_iff: "ContainsFunc xs f = (\<exists>x \<in> set xs. f x)"
proof (cases "IndexFunc xs f")
  case None
  then show ?thesis using IndexFunc_None[OF None] by (simp add: ContainsFunc_def)
next
  case (Some i)
  then show ?thesis using IndexFunc_Some[OF Some] by (auto simp: ContainsFunc_def)
qed

lemma mergeRunF_props:
  assumes eok: "eq_ok cmp eq"
  shows "uniqueBy eq ar \<Longrightarrow> uniqueBy eq br \<Longrightarrow>
         uniqueBy eq (fst (mergeRunF eq br ar) @ snd (mergeRunF eq br ar)) \<and>
         set (fst (mergeRunF eq br ar) @ snd (mergeRunF eq br ar))
           = set br \<union> {a \<in> set ar. \<not> (\<exists>b \<in> set br. eq b a)}"
proof (induction br arbitrary: ar)
  case Nil
  then show ?case by simp
next
  case (Cons be br)
  have ub: "uniqueBy eq br" and nb: "\<forall>b \<in> set br. \<not> eq be b"
    using Cons.prems(2) by (simp_all add: uniqueBy_Cons)
  have nb': "\<forall>b \<in> set br. \<not> eq b be" using nb eq_ok_sym[OF eok] by blast
  show ?case
  proof (cases "IndexFunc ar (\<lambda>ae. eq be ae)")
    case None
    have na: "\<forall>a \<in> set ar. \<not> eq be a" using IndexFunc_None[OF None] by simp
    have na': "\<forall>a \<in> set ar. \<not> eq a be" using na eq_ok_sym[OF eok] by blast
    define r where "r = mergeRunF eq br ar"
    from Cons.IH[OF Cons.prems(1) ub]
    have u: "uniqueBy eq (fst r @ snd r)"
      and s: "set (fst r @ snd r) = set br \<union> {a \<in> set ar. \<not> (\<exists>b \<in> set br. eq b a)}"
      by (simp_all add: r_def)
    have e: "mergeRunF eq (be # br) ar = (fst r, be # snd r)" using None by (simp add: r_def)
    have inr: "\<forall>v \<in> set (fst r) \<union> set (snd r). v \<in> set br \<or> v \<in> set ar" using s by auto
    have u': "uniqueBy eq (fst r @ be # snd r)"
      using u inr na na' nb nb' unfolding uniqueBy_append uniqueBy_Cons by auto
    have s': "set (fst r @ be # snd r) = set (be # br) \<union> {a \<in> set ar. \<not> (\<exists>b \<in> set (be # br). eq b a)}"
      using s na by auto
    show ?thesis unfolding e using u' s' by simp
  next
    case (Some i)
    from IndexFunc_Some[OF Some] have i: "i < length ar" and ei: "eq be (ar ! i)" by simp_all
    define ar1 where "ar1 = ar[i := be]"
    have u1: "uniqueBy eq ar1"
      unfolding ar1_def by (rule uniqueBy_update[OF eok Cons.prems(1) i eq_ok_sym[OF eok ei]])
    define r where "r = mergeRunF eq br ar1"
    from Cons.IH[OF u1 ub]
    have u: "uniqueBy eq (fst r @ snd r)"
      and s: "set (fst r @ snd r) = set br \<union> {a \<in> set ar1. \<not> (\<exists>b \<in> set br. eq b a)}"
      by (simp_all add: r_def)
    have e: "mergeRunF eq (be # br) ar = r" using Some by (simp add: r_def ar1_def)
    have da: "distinct ar" using uniqueBy_distinct[OF eok Cons.prems(1)] .
    have s1: "set ar1 = insert be (set ar - {ar ! i})"
      unfolding ar1_def by (rule set_update_distinct[OF da i])
    have other: "\<not> eq be a" if "a \<in> set ar" "a \<noteq> ar ! i" for a
    proof
      assume "eq be a"
      then have "eq a (ar ! i)" using eq_ok_trans[OF eok eq_ok_sym[OF eok \<open>eq be a\<close>] ei] by simp
      then have "a = ar ! i" using uniqueBy_set[OF eok Cons.prems(1) that(1) _ ] i by simp
      with that(2) show False by simp
    qed
    have s': "set (fst r @ snd r) = set (be # br) \<union> {a \<in> set ar. \<not> (\<exists>b \<in> set (be # br). eq b a)}"
    proof -
      have "{a \<in> set ar1. \<not> (\<exists>b \<in> set br. eq b a)}
          = insert be {a \<in> set ar. a \<noteq> ar ! i \<and> \<not> (\<exists>b \<in> set br. eq b a)}"
        using s1 nb' by auto
      moreover have "{a \<in> set ar. \<not> (\<exists>b \<in> set (be # br). eq b a)}
          = {a \<in> set ar. a \<noteq> ar ! i \<and> \<not> (\<exists>b \<in> set br. eq b a)}"
        using other ei by auto
      ultimately show ?thesis using s by auto
    qed
    show ?thesis unfolding e using u s' by simp
  qed
qed


subsection \<open>The merge of two sorted lists\<close>


lemma mergeF_props:
  "cmp_ok cmp \<Longrightarrow> eq_ok cmp eq \<Longrightarrow> sortedBy cmp a \<Longrightarrow> uniqueBy eq a \<Longrightarrow> sortedBy cmp b \<Longrightarrow> uniqueBy eq b \<Longrightarrow>
         sortedBy cmp (mergeF cmp eq a b) \<and> uniqueBy eq (mergeF cmp eq a b) \<and>
         set (mergeF cmp eq a b) = mergeSpec eq a b"
proof (induction cmp eq a b rule: mergeF.induct)
  case (1 cmp eq b)
  then show ?case by (simp add: mergeF.simps mergeSpec_def)
next
  case (2 cmp eq x a)
  then show ?case by (auto simp add: mergeF.simps mergeSpec_def)
next
  case (3 cmp eq x a y b)
  note ok = \<open>cmp_ok cmp\<close> and eok = \<open>eq_ok cmp eq\<close>
  have sa: "sortedBy cmp a" and xa: "\<forall>v \<in> set a. cmp x v \<le> 0"
    and ua: "uniqueBy eq a" and nxa: "\<forall>v \<in> set a. \<not> eq x v"
    and sb: "sortedBy cmp b" and yb: "\<forall>v \<in> set b. cmp y v \<le> 0"
    and ub: "uniqueBy eq b" and nyb: "\<forall>v \<in> set b. \<not> eq y v"
    using "3.prems" by (simp_all add: sortedBy_Cons uniqueBy_Cons)
  consider (lt) "cmp x y < 0" | (gt) "\<not> cmp x y < 0" "cmp x y > 0" | (eq) "\<not> cmp x y < 0" "\<not> cmp x y > 0"
    by blast
  then show ?case
  proof cases
    case lt
    define m where "m = mergeF cmp eq a (y # b)"
    have e: "mergeF cmp eq (x # a) (y # b) = x # m" using lt by (simp add: mergeF.simps m_def)
    from "3.IH"(1)[OF lt ok eok sa ua "3.prems"(5,6)]
    have sm: "sortedBy cmp m" and um: "uniqueBy eq m" and setm: "set m = mergeSpec eq a (y # b)"
      by (simp_all add: m_def)
    have xb: "\<forall>v \<in> set (y # b). cmp x v < 0"
      using lt yb cmp_ok_trans_lt1[OF ok lt] by auto
    have nxb: "\<forall>v \<in> set (y # b). \<not> eq x v \<and> \<not> eq v x"
      using xb eq_ok_lt[OF ok eok] by blast
    have sub: "set m \<subseteq> set a \<union> set (y # b)" unfolding setm mergeSpec_def by auto
    have 1: "sortedBy cmp (x # m)"
      unfolding sortedBy_Cons using sm sub xa xb by (auto simp: less_imp_le)
    have 2: "uniqueBy eq (x # m)"
      unfolding uniqueBy_Cons using um sub nxa nxb by auto
    have 3: "set (x # m) = mergeSpec eq (x # a) (y # b)"
      using setm nxb unfolding mergeSpec_def by auto
    show ?thesis unfolding e using 1 2 3 by simp
  next
    case gt
    define m where "m = mergeF cmp eq (x # a) b"
    have e: "mergeF cmp eq (x # a) (y # b) = y # m" using gt by (simp add: mergeF.simps m_def)
    from "3.IH"(2)[OF gt ok eok "3.prems"(3,4) sb ub]
    have sm: "sortedBy cmp m" and um: "uniqueBy eq m" and setm: "set m = mergeSpec eq (x # a) b"
      by (simp_all add: m_def)
    have yx: "cmp y x < 0" using gt(2) cmp_ok_flip[OF ok, of y x] by simp
    have ya: "\<forall>v \<in> set (x # a). cmp y v < 0"
      using yx xa cmp_ok_trans_lt1[OF ok yx] by auto
    have nya: "\<forall>v \<in> set (x # a). \<not> eq y v \<and> \<not> eq v y"
      using ya eq_ok_lt[OF ok eok] by blast
    have sub: "set m \<subseteq> set (x # a) \<union> set b" unfolding setm mergeSpec_def by auto
    have 1: "sortedBy cmp (y # m)"
      unfolding sortedBy_Cons using sm sub ya yb by (auto simp: less_imp_le)
    have 2: "uniqueBy eq (y # m)"
      unfolding uniqueBy_Cons using um sub nya nyb by auto
    have 3: "set (y # m) = mergeSpec eq (x # a) (y # b)"
      using setm nya unfolding mergeSpec_def by auto
    show ?thesis unfolding e using 1 2 3 by simp
  next
    case eq
    have xy: "cmp x y = 0" using eq by simp
    have yx: "cmp y x = 0" using xy cmp_ok_sym0[OF ok] by blast
    define ar where "ar = runEq (x # a) cmp"
    define br where "br = runEq (y # b) cmp"
    define a2 where "a2 = drop (length ar) (x # a)"
    define b2 where "b2 = drop (length br) (y # b)"
    define r where "r = mergeRunF eq br ar"
    define m where "m = mergeF cmp eq a2 b2"
    have e: "mergeF cmp eq (x # a) (y # b) = (fst r @ snd r) @ m"
      using eq by (simp add: mergeF.simps m_def r_def ar_def br_def a2_def b2_def)
    from run_split[OF ok "3.prems"(3)]
    have asplit: "x # a = ar @ a2" and are: "\<forall>v \<in> set ar. cmp x v = 0"
      and a2g: "\<forall>v \<in> set a2. cmp x v < 0"
      by (simp_all add: ar_def a2_def)
    from run_split[OF ok "3.prems"(5)]
    have bsplit: "y # b = br @ b2" and bre: "\<forall>v \<in> set br. cmp y v = 0"
      and b2g: "\<forall>v \<in> set b2. cmp y v < 0"
      by (simp_all add: br_def b2_def)
    have sar: "sortedBy cmp ar" and sa2: "sortedBy cmp a2"
      using "3.prems"(3) unfolding asplit sortedBy_append by simp_all
    have uar: "uniqueBy eq ar" and ua2: "uniqueBy eq a2"
      using "3.prems"(4) unfolding asplit uniqueBy_append by simp_all
    have sbr: "sortedBy cmp br" and sb2: "sortedBy cmp b2"
      using "3.prems"(5) unfolding bsplit sortedBy_append by simp_all
    have ubr: "uniqueBy eq br" and ub2: "uniqueBy eq b2"
      using "3.prems"(6) unfolding bsplit uniqueBy_append by simp_all
    from "3.IH"(3)[OF eq ok eok] sa2 ua2 sb2 ub2
    have sm: "sortedBy cmp m" and um: "uniqueBy eq m" and setm: "set m = mergeSpec eq a2 b2"
      by (simp_all add: m_def a2_def b2_def ar_def br_def)
    from mergeRunF_props[OF eok uar ubr]
    have ur: "uniqueBy eq (fst r @ snd r)" and setr: "set (fst r @ snd r) = mergeSpec eq ar br"
      by (simp_all add: r_def mergeSpec_def)
    have bre': "\<forall>v \<in> set br. cmp x v = 0" using bre cmp_ok_eq_trans[OF ok xy] by blast
    have b2g': "\<forall>v \<in> set b2. cmp x v < 0" using b2g cmp_ok_lt_eq[OF ok xy] by blast
    have re: "\<forall>v \<in> set (fst r @ snd r). cmp x v = 0"
      unfolding setr mergeSpec_def using are bre' by auto
    have mg: "\<forall>v \<in> set m. cmp x v < 0"
      unfolding setm mergeSpec_def using a2g b2g' by auto
    have cross: "cmp u v < 0" if "cmp x u = 0" "cmp x v < 0" for u v
      using cmp_ok_lt_eq[OF ok _ that(2), of u] cmp_ok_sym0[OF ok, of x u] that(1) by simp
    have ncross: "\<not> eq u v \<and> \<not> eq v u" if "cmp x u = 0" "cmp x v < 0" for u v
      using eq_ok_lt[OF ok eok cross[OF that]] .
    have 1: "sortedBy cmp ((fst r @ snd r) @ m)"
      unfolding sortedBy_append[of cmp "fst r @ snd r" m]
      using sortedBy_all_equal[OF ok re] sm re mg cross by (auto simp: less_imp_le)
    have 2: "uniqueBy eq ((fst r @ snd r) @ m)"
      unfolding uniqueBy_append[of eq "fst r @ snd r" m]
      using ur um re mg ncross by blast
    have sA: "set (x # a) = set ar \<union> set a2" unfolding asplit by simp
    have sB: "set (y # b) = set br \<union> set b2" unfolding bsplit by simp
    have n1: "\<not> eq v u" if "u \<in> set ar" "v \<in> set b2" for u v
      using ncross[of u v] are b2g' that by blast
    have n2: "\<not> eq v u" if "u \<in> set a2" "v \<in> set br" for u v
      using ncross[of v u] bre' a2g that by blast
    have 3: "set ((fst r @ snd r) @ m) = mergeSpec eq (x # a) (y # b)"
    proof -
      have "set ((fst r @ snd r) @ m) = set (fst r @ snd r) \<union> set m"
        by (rule set_append)
      then have "set ((fst r @ snd r) @ m) = mergeSpec eq ar br \<union> mergeSpec eq a2 b2"
        unfolding setr setm .
      also have "\<dots> = mergeSpec eq (x # a) (y # b)"
        unfolding mergeSpec_def sA sB using n1 n2 by blast
      finally show ?thesis .
    qed
    show ?thesis unfolding e using 1 2 3 by simp
  qed
qed

lemma mergeUniqF_props:
  "sorted_wrt (<) a \<Longrightarrow> sorted_wrt (<) b \<Longrightarrow>
   sorted_wrt (<) (mergeUniqF a b) \<and> set (mergeUniqF a b) = set a \<union> set b"
proof (induction a b rule: mergeUniqF.induct)
  case (1 b)
  then show ?case by simp
next
  case (2 x a)
  then show ?case by simp
next
  case (3 x a y b)
  have sa: "sorted_wrt (<) a" and xa: "\<forall>v \<in> set a. x < v"
    and sb: "sorted_wrt (<) b" and yb: "\<forall>v \<in> set b. y < v"
    using "3.prems" by simp_all
  consider (lt) "x < y" | (gt) "\<not> x < y" "y < x" | (eq) "x = y" by fastforce
  then show ?case
  proof cases
    case lt
    from "3.IH"(1)[OF lt sa "3.prems"(2)]
    have "sorted_wrt (<) (mergeUniqF a (y # b))" "set (mergeUniqF a (y # b)) = set a \<union> set (y # b)"
      by simp_all
    then show ?thesis using lt xa yb by auto
  next
    case gt
    from "3.IH"(2)[OF gt "3.prems"(1) sb]
    have "sorted_wrt (<) (mergeUniqF (x # a) b)" "set (mergeUniqF (x # a) b) = set (x # a) \<union> set b"
      by simp_all
    then show ?thesis using gt xa yb by auto
  next
    case eq
    have n: "\<not> x < y" "\<not> y < x" using eq by simp_all
    from "3.IH"(3)[OF n sa sb]
    have "sorted_wrt (<) (mergeUniqF a b)" "set (mergeUniqF a b) = set a \<union> set b"
      by simp_all
    then show ?thesis using eq xa yb by auto
  qed
qed

subsection \<open>The difference of two sorted lists\<close>

lemma diffF_props:
  "cmp_ok cmp \<Longrightarrow> eq_ok cmp eq \<Longrightarrow> sortedBy cmp a \<Longrightarrow> sortedBy cmp b \<Longrightarrow>
   diffF cmp eq a b = filter (\<lambda>x. \<not> (\<exists>y \<in> set b. eq x y)) a"
proof (induction cmp eq a b rule: diffF.induct)
  case (1 cmp eq b)
  then show ?case by (simp add: diffF.simps)
next
  case (2 cmp eq x a)
  then show ?case by (simp add: diffF.simps)
next
  case (3 cmp eq x a y b)
  note ok = \<open>cmp_ok cmp\<close> and eok = \<open>eq_ok cmp eq\<close>
  have sa: "sortedBy cmp a" and xa: "\<forall>v \<in> set a. cmp x v \<le> 0"
    and sb: "sortedBy cmp b" and yb: "\<forall>v \<in> set b. cmp y v \<le> 0"
    using "3.prems" by (simp_all add: sortedBy_Cons)
  consider (lt) "cmp x y < 0" | (gt) "\<not> cmp x y < 0" "cmp x y > 0" | (eq) "\<not> cmp x y < 0" "\<not> cmp x y > 0"
    by blast
  then show ?case
  proof cases
    case lt
    have e: "diffF cmp eq (x # a) (y # b) = x # diffF cmp eq a (y # b)"
      using lt by (simp add: diffF.simps)
    have xb: "\<forall>v \<in> set (y # b). cmp x v < 0"
      using lt yb cmp_ok_trans_lt1[OF ok lt] by auto
    have nxb: "\<not> (\<exists>v \<in> set (y # b). eq x v)"
      using xb eq_ok_lt[OF ok eok] by blast
    show ?thesis unfolding e "3.IH"(1)[OF lt ok eok sa "3.prems"(4)] using nxb by simp
  next
    case gt
    have e: "diffF cmp eq (x # a) (y # b) = diffF cmp eq (x # a) b"
      using gt by (simp add: diffF.simps)
    have yx: "cmp y x < 0" using gt(2) cmp_ok_flip[OF ok, of y x] by simp
    have ya: "\<forall>v \<in> set (x # a). cmp y v < 0"
      using yx xa cmp_ok_trans_lt1[OF ok yx] by auto
    have nya: "\<forall>v \<in> set (x # a). \<not> eq v y"
      using ya eq_ok_lt[OF ok eok] by blast
    have "filter (\<lambda>x. \<not> (\<exists>y \<in> set b. eq x y)) (x # a)
        = filter (\<lambda>x. \<not> (\<exists>y \<in> set (y # b). eq x y)) (x # a)"
      by (rule filter_cong[OF refl]) (use nya in auto)
    then show ?thesis unfolding e "3.IH"(2)[OF gt ok eok "3.prems"(3) sb] .
  next
    case eq
    have xy: "cmp x y = 0" using eq by simp
    define ar where "ar = runEq (x # a) cmp"
    define br where "br = runEq (y # b) cmp"
    define a2 where "a2 = drop (length ar) (x # a)"
    define b2 where "b2 = drop (length br) (y # b)"
    have e: "diffF cmp eq (x # a) (y # b)
        = filter (\<lambda>ae. \<not> ContainsFunc br (\<lambda>be. eq ae be)) ar @ diffF cmp eq a2 b2"
      using eq by (simp add: diffF.simps ar_def br_def a2_def b2_def)
    from run_split[OF ok "3.prems"(3)]
    have asplit: "x # a = ar @ a2" and are: "\<forall>v \<in> set ar. cmp x v = 0"
      and a2g: "\<forall>v \<in> set a2. cmp x v < 0"
      by (simp_all add: ar_def a2_def)
    from run_split[OF ok "3.prems"(4)]
    have bsplit: "y # b = br @ b2" and bre: "\<forall>v \<in> set br. cmp y v = 0"
      and b2g: "\<forall>v \<in> set b2. cmp y v < 0"
      by (simp_all add: br_def b2_def)
    have sa2: "sortedBy cmp a2" using "3.prems"(3) unfolding asplit sortedBy_append by simp
    have sb2: "sortedBy cmp b2" using "3.prems"(4) unfolding bsplit sortedBy_append by simp
    from "3.IH"(3)[OF eq ok eok] sa2 sb2
    have ih: "diffF cmp eq a2 b2 = filter (\<lambda>x. \<not> (\<exists>y \<in> set b2. eq x y)) a2"
      by (simp add: a2_def b2_def ar_def br_def)
    have bre': "\<forall>v \<in> set br. cmp x v = 0" using bre cmp_ok_eq_trans[OF ok xy] by blast
    have b2g': "\<forall>v \<in> set b2. cmp x v < 0" using b2g cmp_ok_lt_eq[OF ok xy] by blast
    have cross: "cmp u v < 0" if "cmp x u = 0" "cmp x v < 0" for u v
      using cmp_ok_lt_eq[OF ok _ that(2), of u] cmp_ok_sym0[OF ok, of x u] that(1) by simp
    have ncross: "\<not> eq u v \<and> \<not> eq v u" if "cmp x u = 0" "cmp x v < 0" for u v
      using eq_ok_lt[OF ok eok cross[OF that]] .
    have sB: "set (y # b) = set br \<union> set b2" unfolding bsplit by simp
    have f1: "filter (\<lambda>ae. \<not> ContainsFunc br (\<lambda>be. eq ae be)) ar
        = filter (\<lambda>x. \<not> (\<exists>y \<in> set (y # b). eq x y)) ar"
    proof (rule filter_cong[OF refl])
      fix u assume u: "u \<in> set ar"
      have "\<not> eq u v" if "v \<in> set b2" for v using ncross[of u v] are b2g' u that by blast
      then show "(\<not> ContainsFunc br (\<lambda>be. eq u be)) = (\<not> (\<exists>y \<in> set (y # b). eq u y))"
        unfolding ContainsFunc_iff sB by blast
    qed
    have f2: "filter (\<lambda>x. \<not> (\<exists>y \<in> set b2. eq x y)) a2
        = filter (\<lambda>x. \<not> (\<exists>y \<in> set (y # b). eq x y)) a2"
    proof (rule filter_cong[OF refl])
      fix u assume u: "u \<in> set a2"
      have "\<not> eq u v" if "v \<in> set br" for v using ncross[of v u] bre' a2g u that by blast
      then show "(\<not> (\<exists>y \<in> set b2. eq u y)) = (\<not> (\<exists>y \<in> set (y # b). eq u y))"
        unfolding sB by blast
    qed
    have "filter (\<lambda>x. \<not> (\<exists>y \<in> set (y # b). eq x y)) (x # a)
        = filter (\<lambda>x. \<not> (\<exists>y \<in> set (y # b). eq x y)) ar
          @ filter (\<lambda>x. \<not> (\<exists>y \<in> set (y # b). eq x y)) a2"
      unfolding asplit by (rule filter_append)
    then show ?thesis unfolding e ih f1 f2 by simp
  qed
qed

lemma diffUniqF_props:
  "sorted_wrt (<) a \<Longrightarrow> sorted b \<Longrightarrow> diffUniqF a b = filter (\<lambda>x. x \<notin> set b) a"
proof (induction a b rule: diffUniqF.induct)
  case (1 b)
  then show ?case by simp
next
  case (2 x a)
  then show ?case by simp
next
  case (3 x a y b)
  have sa: "sorted_wrt (<) a" and xa: "\<forall>v \<in> set a. x < v"
    and sb: "sorted b" and yb: "\<forall>v \<in> set b. y \<le> v"
    using "3.prems" by simp_all
  consider (lt) "x < y" | (gt) "\<not> x < y" "y < x" | (eq) "x = y" by fastforce
  then show ?case
  proof cases
    case lt
    have "x \<notin> set (y # b)" using lt yb by auto
    then show ?thesis using lt "3.IH"(1)[OF lt sa "3.prems"(2)] by simp
  next
    case gt
    have "filter (\<lambda>v. v \<notin> set b) (x # a) = filter (\<lambda>v. v \<notin> set (y # b)) (x # a)"
      by (rule filter_cong[OF refl]) (use gt xa in auto)
    then show ?thesis using gt "3.IH"(2)[OF gt "3.prems"(1) sb] by simp
  next
    case eq
    have n: "\<not> x < y" "\<not> y < x" using eq by simp_all
    have "filter (\<lambda>v. v \<notin> set b) a = filter (\<lambda>v. v \<notin> set (y # b)) a"
      by (rule filter_cong[OF refl]) (use eq xa in auto)
    then show ?thesis using eq "3.IH"(3)[OF n sa sb] by simp
  qed
qed

subsection \<open>The stable sort\<close>

lemma mset_insertLeft: "mset (insertLeft cmp x acc) = add_mset x (mset acc)"
  by (induction acc) simp_all

lemma set_insertLeft: "set (insertLeft cmp x acc) = insert x (set acc)"
  by (induction acc) auto

lemma filter_insertLeft:
  assumes ok: "cmp_ok cmp"
  shows "filter (\<lambda>v. cmp k v = 0) (insertLeft cmp x acc)
       = (if cmp k x = 0 then x # filter (\<lambda>v. cmp k v = 0) acc else filter (\<lambda>v. cmp k v = 0) acc)"
proof (induction acc)
  case Nil
  then show ?case by simp
next
  case (Cons y ys)
  show ?case
  proof (cases "cmp x y < 0")
    case True
    have "\<not> (cmp k x = 0 \<and> cmp k y = 0)"
    proof
      assume a: "cmp k x = 0 \<and> cmp k y = 0"
      then have "cmp x k = 0" using cmp_ok_sym0[OF ok] by blast
      then have "cmp x y = 0" using cmp_ok_eq_trans[OF ok, of x k y] a by simp
      with True show False by simp
    qed
    then show ?thesis using True Cons.IH by auto
  next
    case False
    then show ?thesis by simp
  qed
qed

lemma sorted_insertLeft:
  assumes ok: "cmp_ok cmp"
  shows "sorted_wrt (\<lambda>a b. cmp b a \<le> 0) acc \<Longrightarrow> sorted_wrt (\<lambda>a b. cmp b a \<le> 0) (insertLeft cmp x acc)"
proof (induction acc)
  case Nil
  then show ?case by simp
next
  case (Cons y ys)
  have ys: "\<forall>v \<in> set ys. cmp v y \<le> 0" and s: "sorted_wrt (\<lambda>a b. cmp b a \<le> 0) ys"
    using Cons.prems by simp_all
  show ?case
  proof (cases "cmp x y < 0")
    case True
    have "\<forall>v \<in> set (insertLeft cmp x ys). cmp v y \<le> 0"
      using ys True by (auto simp: set_insertLeft)
    then show ?thesis using True Cons.IH[OF s] by simp
  next
    case False
    then have yx: "cmp y x \<le> 0" using cmp_ok_ge[OF ok, of x y] by simp
    have "\<forall>v \<in> set ys. cmp v x \<le> 0" using ys yx cmp_ok_trans[OF ok] by blast
    then show ?thesis using False yx Cons.prems by simp
  qed
qed

lemma SortStableFunc_snoc:
  "SortStableFunc (l @ [x]) cmp = rev (insertLeft cmp x (rev (SortStableFunc l cmp)))"
  by (simp add: SortStableFunc_def)

lemma mset_SortStableFunc: "mset (SortStableFunc l cmp) = mset l"
proof (induction l rule: rev_induct)
  case Nil
  then show ?case by (simp add: SortStableFunc_def)
next
  case (snoc x xs)
  have "mset (SortStableFunc (xs @ [x]) cmp) = add_mset x (mset (SortStableFunc xs cmp))"
    unfolding SortStableFunc_snoc by (simp add: mset_insertLeft)
  then show ?case using snoc.IH by simp
qed

lemma set_SortStableFunc: "set (SortStableFunc l cmp) = set l"
  using mset_SortStableFunc[of l cmp] by (metis set_mset_mset)

lemma sortedBy_SortStableFunc:
  assumes ok: "cmp_ok cmp"
  shows "sortedBy cmp (SortStableFunc l cmp)"
proof -
  have "sorted_wrt (\<lambda>a b. cmp b a \<le> 0) (rev (SortStableFunc l cmp))"
  proof (induction l rule: rev_induct)
    case Nil
    then show ?case by (simp add: SortStableFunc_def)
  next
    case (snoc x xs)
    then show ?case unfolding SortStableFunc_snoc rev_rev_ident by (rule sorted_insertLeft[OF ok])
  qed
  then show ?thesis unfolding sortedBy_def sorted_wrt_rev .
qed

lemma stable_SortStableFunc:
  assumes ok: "cmp_ok cmp"
  shows "filter (\<lambda>v. cmp k v = 0) (SortStableFunc l cmp) = filter (\<lambda>v. cmp k v = 0) l"
proof (induction l rule: rev_induct)
  case Nil
  then show ?case by (simp add: SortStableFunc_def)
next
  case (snoc x xs)
  have "filter (\<lambda>v. cmp k v = 0) (SortStableFunc (xs @ [x]) cmp)
      = rev (filter (\<lambda>v. cmp k v = 0) (insertLeft cmp x (rev (SortStableFunc xs cmp))))"
    unfolding SortStableFunc_snoc by (simp add: rev_filter)
  also have "\<dots> = filter (\<lambda>v. cmp k v = 0) (SortStableFunc xs cmp) @ (if cmp k x = 0 then [x] else [])"
    unfolding filter_insertLeft[OF ok] by (simp add: rev_filter)
  finally show ?case using snoc.IH by simp
qed

subsection \<open>Removal of duplicates\<close>

lemma set_dedupSpec: "set (dedupSpec eq xs) \<subseteq> set xs"
proof (induction eq xs rule: dedupSpec.induct)
  case (1 eq)
  then show ?case by simp
next
  case (2 eq x xs)
  have "last (x # filter (\<lambda>v. eq x v) xs) \<in> set (x # filter (\<lambda>v. eq x v) xs)"
    by (rule last_in_set) simp
  then have "last (x # filter (\<lambda>v. eq x v) xs) \<in> set (x # xs)" by auto
  moreover have "set (dedupSpec eq (filter (\<lambda>v. \<not> eq x v) xs)) \<subseteq> set xs" using 2 by auto
  ultimately show ?case by auto
qed

lemma last_class:
  assumes eok: "eq_ok cmp eq"
  shows "eq x (last (x # filter (\<lambda>v. eq x v) xs))"
proof -
  have "last (x # filter (\<lambda>v. eq x v) xs) \<in> set (x # filter (\<lambda>v. eq x v) xs)"
    by (rule last_in_set) simp
  then show ?thesis using eq_ok_refl[OF eok] by auto
qed

lemma dedupSpec_rest:
  "u \<in> set (dedupSpec eq (filter (\<lambda>v. \<not> eq x v) xs)) \<Longrightarrow> u \<in> set xs \<and> \<not> eq x u"
  using set_dedupSpec[of eq "filter (\<lambda>v. \<not> eq x v) xs"] by auto

lemma uniqueBy_dedupSpec:
  assumes eok: "eq_ok cmp eq"
  shows "uniqueBy eq (dedupSpec eq xs)"
  using eok
proof (induction eq xs rule: dedupSpec.induct)
  case (1 eq)
  then show ?case by (simp add: uniqueBy_def)
next
  case (2 eq x xs)
  define u where "u = last (x # filter (\<lambda>v. eq x v) xs)"
  have xu: "eq x u" unfolding u_def by (rule last_class[OF "2.prems"])
  have "\<not> eq u w" if "w \<in> set (dedupSpec eq (filter (\<lambda>v. \<not> eq x v) xs))" for w
  proof
    assume "eq u w"
    then have "eq x w" using eq_ok_trans[OF "2.prems" xu] by blast
    with dedupSpec_rest[OF that] show False by simp
  qed
  then show ?case using "2.IH"[OF "2.prems"] by (simp add: uniqueBy_Cons u_def)
qed

lemma sortedBy_filter: "sortedBy cmp xs \<Longrightarrow> sortedBy cmp (filter P xs)"
  unfolding sortedBy_def by (rule sorted_wrt_filter)


lemma sortedBy_dedupSpec:
  assumes ok: "cmp_ok cmp" and eok: "eq_ok cmp eq"
  shows "sortedBy cmp xs \<Longrightarrow> sortedBy cmp (dedupSpec eq xs)"
  using eok
proof (induction eq xs rule: dedupSpec.induct)
  case (1 eq)
  then show ?case by (simp add: sortedBy_def)
next
  case (2 eq x xs)
  define u where "u = last (x # filter (\<lambda>v. eq x v) xs)"
  have xu: "cmp x u = 0" unfolding u_def by (rule eq_ok_cmp[OF "2.prems"(2) last_class[OF "2.prems"(2)]])
  then have ux: "cmp u x = 0" using cmp_ok_sym0[OF ok] by blast
  have xs: "\<forall>v \<in> set xs. cmp x v \<le> 0" and s: "sortedBy cmp xs"
    using "2.prems"(1) by (simp_all add: sortedBy_Cons)
  have "cmp u w \<le> 0" if "w \<in> set (dedupSpec eq (filter (\<lambda>v. \<not> eq x v) xs))" for w
    using cmp_ok_trans[OF ok, of u x w] ux xs dedupSpec_rest[OF that] by simp
  then show ?case
    using "2.IH"[OF sortedBy_filter[OF s] "2.prems"(2)] by (simp add: sortedBy_Cons u_def)
qed

lemma dedupSpec_append:
  "\<forall>a \<in> set xs. \<forall>b \<in> set ys. \<not> eq a b \<Longrightarrow>
   dedupSpec eq (xs @ ys) = dedupSpec eq xs @ dedupSpec eq ys"
proof (induction eq xs arbitrary: ys rule: dedupSpec.induct)
  case (1 eq)
  then show ?case by simp
next
  case (2 eq x xs)
  have f1: "filter (\<lambda>v. eq x v) ys = []" using "2.prems" by (auto simp: filter_empty_conv)
  have f2: "filter (\<lambda>v. \<not> eq x v) ys = ys" using "2.prems" by (auto simp: filter_id_conv)
  have "\<forall>a \<in> set (filter (\<lambda>v. \<not> eq x v) xs). \<forall>b \<in> set ys. \<not> eq a b" using "2.prems" by auto
  from "2.IH"[OF this] show ?case by (simp add: f1 f2)
qed

lemma foldl_dedupStep:
  assumes eok: "eq_ok cmp eq"
  shows "uniqueBy eq acc \<Longrightarrow>
         foldl (dedupStep eq) acc xs
           = map (\<lambda>a. last (a # filter (\<lambda>v. eq a v) xs)) acc
             @ dedupSpec eq (filter (\<lambda>v. \<not> (\<exists>a \<in> set acc. eq a v)) xs)"
proof (induction xs arbitrary: acc)
  case Nil
  then show ?case by simp
next
  case (Cons v vs)
  show ?case
  proof (cases "IndexFunc acc (\<lambda>a. eq v a)")
    case None
    have nv: "\<forall>a \<in> set acc. \<not> eq v a" using IndexFunc_None[OF None] by simp
    have nv': "\<forall>a \<in> set acc. \<not> eq a v" using nv eq_ok_sym[OF eok] by blast
    have st: "dedupStep eq acc v = acc @ [v]" using None by (simp add: dedupStep_def)
    have u: "uniqueBy eq (acc @ [v])"
      unfolding uniqueBy_append using Cons.prems nv' by (simp add: uniqueBy_def)
    define Q where "Q = (\<lambda>w. \<not> (\<exists>a \<in> set acc. eq a w))"
    have ih: "foldl (dedupStep eq) (acc @ [v]) vs
        = map (\<lambda>a. last (a # filter (\<lambda>w. eq a w) vs)) (acc @ [v])
          @ dedupSpec eq (filter (\<lambda>w. \<not> (\<exists>a \<in> set (acc @ [v]). eq a w)) vs)"
      by (rule Cons.IH[OF u])
    have m: "map (\<lambda>a. last (a # filter (\<lambda>w. eq a w) (v # vs))) acc
           = map (\<lambda>a. last (a # filter (\<lambda>w. eq a w) vs)) acc"
      by (rule map_cong[OF refl]) (use nv' in simp)
    have f1: "filter (\<lambda>w. eq v w) (filter Q vs) = filter (\<lambda>w. eq v w) vs"
    proof -
      have "Q w" if "eq v w" for w
      proof -
        have "\<not> eq a w" if a: "a \<in> set acc" for a
        proof
          assume "eq a w"
          then have "eq a v" using eq_ok_trans[OF eok _ eq_ok_sym[OF eok \<open>eq v w\<close>]] by blast
          with nv' a show False by blast
        qed
        then show ?thesis unfolding Q_def by blast
      qed
      then show ?thesis unfolding filter_filter by (intro filter_cong[OF refl]) auto
    qed
    have f2: "filter (\<lambda>w. \<not> eq v w) (filter Q vs)
            = filter (\<lambda>w. \<not> (\<exists>a \<in> set (acc @ [v]). eq a w)) vs"
      unfolding filter_filter Q_def by (intro filter_cong[OF refl]) auto
    have qv: "Q v" unfolding Q_def using nv' by blast
    have "filter Q (v # vs) = v # filter Q vs" using qv by simp
    then have "dedupSpec eq (filter Q (v # vs))
        = last (v # filter (\<lambda>w. eq v w) (filter Q vs))
          # dedupSpec eq (filter (\<lambda>w. \<not> eq v w) (filter Q vs))"
      by (simp only: dedupSpec.simps)
    then have ds: "dedupSpec eq (filter (\<lambda>w. \<not> (\<exists>a \<in> set acc. eq a w)) (v # vs))
        = last (v # filter (\<lambda>w. eq v w) vs)
          # dedupSpec eq (filter (\<lambda>w. \<not> (\<exists>a \<in> set (acc @ [v]). eq a w)) vs)"
      unfolding f1 f2 unfolding Q_def .
    show ?thesis
      unfolding foldl_Cons st ih m ds by simp
  next
    case (Some i)
    from IndexFunc_Some[OF Some] have i: "i < length acc" and ei: "eq v (acc ! i)" by simp_all
    have ei': "eq (acc ! i) v" using eq_ok_sym[OF eok ei] .
    have st: "dedupStep eq acc v = acc[i := v]" using Some by (simp add: dedupStep_def)
    have u: "uniqueBy eq (acc[i := v])" by (rule uniqueBy_update[OF eok Cons.prems i ei'])
    have ih: "foldl (dedupStep eq) (acc[i := v]) vs
        = map (\<lambda>a. last (a # filter (\<lambda>w. eq a w) vs)) (acc[i := v])
          @ dedupSpec eq (filter (\<lambda>w. \<not> (\<exists>a \<in> set (acc[i := v]). eq a w)) vs)"
      by (rule Cons.IH[OF u])
    have same: "(\<exists>a \<in> set (acc[i := v]). eq a w) = (\<exists>a \<in> set acc. eq a w)" for w
    proof
      assume "\<exists>a \<in> set (acc[i := v]). eq a w"
      then obtain a where a: "a \<in> set (acc[i := v])" "eq a w" by blast
      then have "a = v \<or> a \<in> set acc" using set_update_subset_insert[of acc i v] by auto
      then show "\<exists>a \<in> set acc. eq a w"
      proof
        assume "a = v"
        then have "eq (acc ! i) w" using eq_ok_trans[OF eok ei'] a(2) by blast
        then show ?thesis using i nth_mem by blast
      next
        assume "a \<in> set acc"
        then show ?thesis using a(2) by blast
      qed
    next
      assume "\<exists>a \<in> set acc. eq a w"
      then obtain j where j: "j < length acc" "eq (acc ! j) w" by (auto simp: in_set_conv_nth)
      show "\<exists>a \<in> set (acc[i := v]). eq a w"
      proof (cases "j = i")
        case True
        have "eq v w" using eq_ok_trans[OF eok ei] j(2) True by blast
        moreover have "v \<in> set (acc[i := v])" using i by (simp add: set_update_memI)
        ultimately show ?thesis by blast
      next
        case False
        then have "acc[i := v] ! j = acc ! j" by simp
        then have "acc ! j \<in> set (acc[i := v])" using j(1) by (metis length_list_update nth_mem)
        then show ?thesis using j(2) by blast
      qed
    qed
    have f: "filter (\<lambda>w. \<not> (\<exists>a \<in> set acc. eq a w)) (v # vs)
           = filter (\<lambda>w. \<not> (\<exists>a \<in> set (acc[i := v]). eq a w)) vs"
    proof -
      have "\<exists>a \<in> set acc. eq a v" using i ei' nth_mem by blast
      then show ?thesis by (simp add: same)
    qed
    have m: "map (\<lambda>a. last (a # filter (\<lambda>w. eq a w) (v # vs))) acc
           = map (\<lambda>a. last (a # filter (\<lambda>w. eq a w) vs)) (acc[i := v])"
    proof (rule nth_equalityI)
      show "length (map (\<lambda>a. last (a # filter (\<lambda>w. eq a w) (v # vs))) acc)
          = length (map (\<lambda>a. last (a # filter (\<lambda>w. eq a w) vs)) (acc[i := v]))" by simp
    next
      fix j assume "j < length (map (\<lambda>a. last (a # filter (\<lambda>w. eq a w) (v # vs))) acc)"
      then have j: "j < length acc" by simp
      show "map (\<lambda>a. last (a # filter (\<lambda>w. eq a w) (v # vs))) acc ! j
          = map (\<lambda>a. last (a # filter (\<lambda>w. eq a w) vs)) (acc[i := v]) ! j"
      proof (cases "j = i")
        case True
        have "filter (\<lambda>w. eq (acc ! i) w) vs = filter (\<lambda>w. eq v w) vs"
        proof (rule filter_cong[OF refl])
          fix w
          show "eq (acc ! i) w = eq v w"
            using eq_ok_trans[OF eok ei, of w] eq_ok_trans[OF eok ei', of w] by blast
        qed
        then show ?thesis using True i ei' by simp
      next
        case False
        have "\<not> eq (acc ! j) v"
        proof
          assume "eq (acc ! j) v"
          then have "eq (acc ! j) (acc ! i)" using eq_ok_trans[OF eok _ ei] by blast
          with uniqueBy_nth[OF eok Cons.prems j i False] show False by simp
        qed
        then show ?thesis using False j by simp
      qed
    qed
    show ?thesis unfolding foldl_Cons st ih f m ..
  qed
qed

lemma dedupF_dedupSpec:
  assumes eok: "eq_ok cmp eq"
  shows "dedupF eq run = dedupSpec eq run"
proof (cases run)
  case Nil
  then show ?thesis by (simp add: dedupF_def)
next
  case (Cons x xs)
  have u: "uniqueBy eq [x]" by (simp add: uniqueBy_def)
  show ?thesis unfolding Cons by (simp add: dedupF_def foldl_dedupStep[OF eok u])
qed

lemma uniqF_runs:
  assumes ok: "cmp_ok cmp" and eok: "eq_ok cmp eq"
  shows "uniqF cmp eq xs = concat (map (dedupSpec eq) (runsOf cmp xs))"
  using ok eok
proof (induction cmp eq xs rule: uniqF.induct)
  case (1 cmp eq)
  then show ?case by simp
next
  case (2 cmp eq x xs)
  have p: "(\<lambda>v. cmp v x = 0) = (\<lambda>v. cmp x v = 0)"
    using cmp_ok_sym0[OF "2.prems"(1)] by blast
  show ?case
    using "2.IH"[OF "2.prems"] by (simp add: dedupF_dedupSpec[OF "2.prems"(2)] p)
qed

lemma uniqF_dedupSpec:
  assumes ok: "cmp_ok cmp" and eok: "eq_ok cmp eq"
  shows "sortedBy cmp xs \<Longrightarrow> uniqF cmp eq xs = dedupSpec eq xs"
  using ok eok
proof (induction cmp eq xs rule: uniqF.induct)
  case (1 cmp eq)
  then show ?case by simp
next
  case (2 cmp eq x xs)
  note ok = "2.prems"(2) and eok = "2.prems"(3)
  have p: "(\<lambda>v. cmp v x = 0) = (\<lambda>v. cmp x v = 0)"
    using cmp_ok_sym0[OF ok] by blast
  define ar where "ar = x # takeWhile (\<lambda>v. cmp x v = 0) xs"
  define rest where "rest = dropWhile (\<lambda>v. cmp x v = 0) xs"
  have r: "runEq (x # xs) cmp = ar" by (simp add: ar_def)
  have d: "drop (length ar) (x # xs) = rest"
    by (simp add: ar_def rest_def dropWhile_eq_drop)
  from run_split[OF ok "2.prems"(1)]
  have split: "x # xs = ar @ rest" and are: "\<forall>v \<in> set ar. cmp x v = 0"
    and rg: "\<forall>v \<in> set rest. cmp x v < 0"
    unfolding r d by simp_all
  have sr: "sortedBy cmp rest" using "2.prems"(1) unfolding split sortedBy_append by simp
  have cross: "\<forall>a \<in> set ar. \<forall>b \<in> set rest. \<not> eq a b"
  proof (intro ballI)
    fix a b assume a: "a \<in> set ar" and b: "b \<in> set rest"
    have "cmp a x = 0" using are a cmp_ok_sym0[OF ok] by blast
    then have "cmp a b < 0" using cmp_ok_lt_eq[OF ok _ rg[rule_format, OF b]] by blast
    then show "\<not> eq a b" using eq_ok_lt[OF ok eok] by blast
  qed
  have "uniqF cmp eq (x # xs) = dedupSpec eq ar @ dedupSpec eq rest"
    using "2.IH"[unfolded p, OF sr[unfolded rest_def] ok eok]
    by (simp add: dedupF_dedupSpec[OF eok] p ar_def rest_def)
  also have "\<dots> = dedupSpec eq (ar @ rest)" by (rule dedupSpec_append[OF cross, symmetric])
  finally show ?case unfolding split .
qed

lemma uniqF_sorted_unique:
  assumes ok: "cmp_ok cmp" and eok: "eq_ok cmp eq" and s: "sortedBy cmp xs"
  shows "sortedBy cmp (uniqF cmp eq xs) \<and> uniqueBy eq (uniqF cmp eq xs) \<and>
         set (uniqF cmp eq xs) \<subseteq> set xs"
  unfolding uniqF_dedupSpec[OF ok eok s]
  by (intro conjI sortedBy_dedupSpec[OF ok eok s] uniqueBy_dedupSpec[OF eok] set_dedupSpec)

lemma cmp_ok_byTens: "cmp_ok byTens"
  unfolding byTens_def by (rule cmp_ok_Compare)

lemma eq_ok_byTens: "eq_ok byTens sameKey"
  by (auto simp: eq_ok_def byTens_def sameKey_def cmp_Compare_def)

lemma uniqEqSlow_dedupSpec:
  assumes eok: "eq_ok cmp eq"
  shows "map_option snd (uniqEqSlow z run eq) = Some (dedupSpec eq run)"
  using uniqEqSlow_F[of z run eq] by (auto simp: dedupF_dedupSpec[OF eok])

subsection \<open>Every operation keeps the invariant\<close>

lemma wellFormed_elems:
  "wellFormed s \<Longrightarrow> sortedBy (cmpFn s) es \<Longrightarrow> uniqueBy (eqFn s) es \<Longrightarrow>
   wellFormed (s\<lparr>elems := es\<rparr>) \<and> cmpFn (s\<lparr>elems := es\<rparr>) = cmpFn s \<and> eqFn (s\<lparr>elems := es\<rparr>) = eqFn s"
  by (simp add: wellFormed_def)




lemma sortedUniq_sorted_unique:
  assumes ok: "cmp_ok cmp" and eok: "eq_ok cmp eq"
  shows "sortedBy cmp (uniqF cmp eq (SortStableFunc es cmp)) \<and>
         uniqueBy eq (uniqF cmp eq (SortStableFunc es cmp))"
  using uniqF_sorted_unique[OF ok eok sortedBy_SortStableFunc[OF ok, of es]] by simp

lemma insertAll_wellFormed:
  assumes wf: "wellFormed s"
  shows "\<exists>s'. insertAll z s es = Some s' \<and> wellFormed s' \<and> cmpFn s' = cmpFn s \<and> eqFn s' = eqFn s"
proof -
  have ok: "cmp_ok (cmpFn s)" and eok: "eq_ok (cmpFn s) (eqFn s)"
    and so: "sortedBy (cmpFn s) (elems s)" and un: "uniqueBy (eqFn s) (elems s)"
    using wf by (simp_all add: wellFormed_def)
  define b where "b = uniqF (cmpFn s) (eqFn s) (SortStableFunc es (cmpFn s))"
  have sb: "sortedBy (cmpFn s) b" and ub: "uniqueBy (eqFn s) b"
    unfolding b_def using sortedUniq_sorted_unique[OF ok eok] by simp_all
  from mergeF_props[OF ok eok so un sb ub]
  have m: "sortedBy (cmpFn s) (mergeF (cmpFn s) (eqFn s) (elems s) b)"
    "uniqueBy (eqFn s) (mergeF (cmpFn s) (eqFn s) (elems s) b)" by simp_all
  have e: "insertAll z s es = Some (s\<lparr>elems := mergeF (cmpFn s) (eqFn s) (elems s) b\<rparr>)"
    unfolding b_def by (rule insertAll_F)
  show ?thesis unfolding e using wellFormed_elems[OF wf m] by simp
qed











subsection \<open>\<open>InsertSet\<close> and one \<open>Insert\<close> per element on comparator sets\<close>

lemma dedupSpec_covers:
  assumes eok: "eq_ok cmp eq"
  shows "v \<in> set xs \<Longrightarrow> \<exists>u \<in> set (dedupSpec eq xs). eq u v"
  using eok
proof (induction eq xs rule: dedupSpec.induct)
  case (1 eq)
  then show ?case by simp
next
  case (2 eq x xs)
  define u where "u = last (x # filter (\<lambda>v. eq x v) xs)"
  have xu: "eq x u" unfolding u_def by (rule last_class[OF "2.prems"(2)])
  have ux: "eq u x" by (rule eq_ok_sym[OF "2.prems"(2) xu])
  show ?case
  proof (cases "eq x v")
    case True
    then have "eq u v" using eq_ok_trans[OF "2.prems"(2) ux] by blast
    then show ?thesis by (auto simp: u_def)
  next
    case False
    then have "v \<noteq> x" using eq_ok_refl[OF "2.prems"(2)] by auto
    then have "v \<in> set (filter (\<lambda>v. \<not> eq x v) xs)" using "2.prems"(1) False by simp
    from "2.IH"[OF this "2.prems"(2)] show ?thesis by auto
  qed
qed

lemma Insert_membership:
  assumes wf: "wellFormed s"
  shows "\<exists>s'. Insert s x = Some s' \<and> wellFormed s' \<and> cmpFn s' = cmpFn s \<and> eqFn s' = eqFn s \<and>
              (\<forall>e. (\<exists>y \<in> set (elems s'). eqFn s y e)
                    = ((\<exists>y \<in> set (elems s). eqFn s y e) \<or> eqFn s x e))"
proof -
  have ok: "cmp_ok (cmpFn s)" and eok: "eq_ok (cmpFn s) (eqFn s)"
    and so: "sortedBy (cmpFn s) (elems s)" and un: "uniqueBy (eqFn s) (elems s)"
    using wf by (simp_all add: wellFormed_def)
  from Insert_wellFormed[OF wf, of x] obtain s' where
    s': "Insert s x = Some s'" "wellFormed s'" "cmpFn s' = cmpFn s" "eqFn s' = eqFn s" by blast
  obtain i found where h: "search s x = (i, found)" by (cases "search s x")
  have m: "(\<exists>y \<in> set (elems s'). eqFn s y e) = ((\<exists>y \<in> set (elems s). eqFn s y e) \<or> eqFn s x e)" for e
  proof (cases found)
    case True
    then have h': "search s x = (i, True)" using h by simp
    from search_found[OF ok so h'] have i: "i < length (elems s)" and ei: "eqFn s (elems s ! i) x"
      by simp_all
    have xe: "eqFn s x (elems s ! i)" by (rule eq_ok_sym[OF eok ei])
    have el: "elems s' = (elems s)[i := x]" using Insert_found[OF h'] s'(1) by simp
    have st: "set (elems s') = insert x (set (elems s) - {elems s ! i})"
      unfolding el by (rule set_update_distinct[OF uniqueBy_distinct[OF eok un] i])
    have same: "eqFn s (elems s ! i) e = eqFn s x e"
      using eq_ok_trans[OF eok xe, of e] eq_ok_trans[OF eok ei, of e] by blast
    have mem: "elems s ! i \<in> set (elems s)" using i by simp
    show ?thesis unfolding st using same mem by auto
  next
    case False
    then have h': "search s x = (i, False)" using h by simp
    have el: "elems s' = take i (elems s) @ x # drop i (elems s)"
      using Insert_notfound[OF h'] s'(1) by simp
    have "set (take i (elems s)) \<union> set (drop i (elems s)) = set (elems s)"
      using set_append[of "take i (elems s)" "drop i (elems s)"] by simp
    then have st: "set (elems s') = insert x (set (elems s))" unfolding el by auto
    show ?thesis unfolding st using eq_ok_refl[OF eok] by auto
  qed
  show ?thesis using s' m by blast
qed

lemma insertAll_membership:
  assumes wf: "wellFormed s"
  shows "\<exists>s'. insertAll z s es = Some s' \<and> wellFormed s' \<and> cmpFn s' = cmpFn s \<and> eqFn s' = eqFn s \<and>
              (\<forall>e. (\<exists>y \<in> set (elems s'). eqFn s y e)
                    = ((\<exists>y \<in> set (elems s). eqFn s y e) \<or> (\<exists>y \<in> set es. eqFn s y e)))"
proof -
  have ok: "cmp_ok (cmpFn s)" and eok: "eq_ok (cmpFn s) (eqFn s)"
    and so: "sortedBy (cmpFn s) (elems s)" and un: "uniqueBy (eqFn s) (elems s)"
    using wf by (simp_all add: wellFormed_def)
  define srt where "srt = SortStableFunc es (cmpFn s)"
  define b where "b = uniqF (cmpFn s) (eqFn s) srt"
  have ss: "sortedBy (cmpFn s) srt" unfolding srt_def by (rule sortedBy_SortStableFunc[OF ok])
  have bd: "b = dedupSpec (eqFn s) srt" unfolding b_def by (rule uniqF_dedupSpec[OF ok eok ss])
  have sb: "sortedBy (cmpFn s) b" and ub: "uniqueBy (eqFn s) b"
    unfolding b_def srt_def using sortedUniq_sorted_unique[OF ok eok] by simp_all
  have bsub: "set b \<subseteq> set es"
    unfolding bd using set_dedupSpec[of "eqFn s" srt] set_SortStableFunc[of es "cmpFn s"]
    by (simp add: srt_def)
  have bcov: "\<exists>u \<in> set b. eqFn s u v" if "v \<in> set es" for v
    unfolding bd using dedupSpec_covers[OF eok, of v srt] that set_SortStableFunc[of es "cmpFn s"]
    by (simp add: srt_def)
  from insertAll_wellFormed[OF wf, of z es] obtain s' where
    s': "insertAll z s es = Some s'" "wellFormed s'" "cmpFn s' = cmpFn s" "eqFn s' = eqFn s" by blast
  have el: "elems s' = mergeF (cmpFn s) (eqFn s) (elems s) b"
    using s'(1) unfolding insertAll_F b_def srt_def by auto
  from mergeF_props[OF ok eok so un sb ub]
  have st: "set (elems s') = set b \<union> {x \<in> set (elems s). \<not> (\<exists>y \<in> set b. eqFn s y x)}"
    unfolding el mergeSpec_def by simp
  have m: "(\<exists>y \<in> set (elems s'). eqFn s y e)
         = ((\<exists>y \<in> set (elems s). eqFn s y e) \<or> (\<exists>y \<in> set es. eqFn s y e))" for e
  proof
    assume "\<exists>y \<in> set (elems s'). eqFn s y e"
    then show "(\<exists>y \<in> set (elems s). eqFn s y e) \<or> (\<exists>y \<in> set es. eqFn s y e)"
      unfolding st using bsub by auto
  next
    assume a: "(\<exists>y \<in> set (elems s). eqFn s y e) \<or> (\<exists>y \<in> set es. eqFn s y e)"
    show "\<exists>y \<in> set (elems s'). eqFn s y e"
    proof (cases "\<exists>y \<in> set b. eqFn s y e")
      case True
      then show ?thesis unfolding st by auto
    next
      case False
      have "\<not> (\<exists>y \<in> set es. eqFn s y e)"
      proof
        assume "\<exists>y \<in> set es. eqFn s y e"
        then obtain y where y: "y \<in> set es" "eqFn s y e" by blast
        from bcov[OF y(1)] obtain u where "u \<in> set b" "eqFn s u y" by blast
        then have "\<exists>u \<in> set b. eqFn s u e" using eq_ok_trans[OF eok _ y(2)] by blast
        with False show False by simp
      qed
      with a obtain x where x: "x \<in> set (elems s)" "eqFn s x e" by blast
      have "\<not> (\<exists>y \<in> set b. eqFn s y x)"
      proof
        assume "\<exists>y \<in> set b. eqFn s y x"
        then obtain y where "y \<in> set b" "eqFn s y x" by blast
        then have "\<exists>u \<in> set b. eqFn s u e" using eq_ok_trans[OF eok _ x(2)] by blast
        with False show False by simp
      qed
      then show ?thesis unfolding st using x by auto
    qed
  qed
  show ?thesis using s' m by blast
qed

lemma insertEach_Cons:
  "insertEach s (x # xs) = Option.bind (Insert s x) (\<lambda>s'. insertEach s' xs)"
proof -
  have n: "foldl (\<lambda>acc e. Option.bind acc (\<lambda>s'. Insert s' e)) None ys = None" for ys
    by (induction ys) simp_all
  show ?thesis by (cases "Insert s x") (simp_all add: insertEach_def n)
qed

lemma insertEach_membership:
  "wellFormed s \<Longrightarrow>
   \<exists>s'. insertEach s es = Some s' \<and> wellFormed s' \<and> cmpFn s' = cmpFn s \<and> eqFn s' = eqFn s \<and>
        (\<forall>e. (\<exists>y \<in> set (elems s'). eqFn s y e)
              = ((\<exists>y \<in> set (elems s). eqFn s y e) \<or> (\<exists>y \<in> set es. eqFn s y e)))"
proof (induction es arbitrary: s)
  case Nil
  then show ?case by (simp add: insertEach_def)
next
  case (Cons x xs)
  from Insert_membership[OF Cons.prems, of x] obtain s1 where
    s1: "Insert s x = Some s1" "wellFormed s1" "cmpFn s1 = cmpFn s" "eqFn s1 = eqFn s"
    and m1: "\<And>e. (\<exists>y \<in> set (elems s1). eqFn s y e)
                = ((\<exists>y \<in> set (elems s). eqFn s y e) \<or> eqFn s x e)"
    by blast
  from Cons.IH[OF s1(2)] obtain s2 where
    s2: "insertEach s1 xs = Some s2" "wellFormed s2" "cmpFn s2 = cmpFn s1" "eqFn s2 = eqFn s1"
    and m2: "\<And>e. (\<exists>y \<in> set (elems s2). eqFn s1 y e)
                = ((\<exists>y \<in> set (elems s1). eqFn s1 y e) \<or> (\<exists>y \<in> set xs. eqFn s1 y e))"
    by blast
  have e: "insertEach s (x # xs) = Some s2" unfolding insertEach_Cons using s1(1) s2(1) by simp
  have m: "(\<exists>y \<in> set (elems s2). eqFn s y e)
         = ((\<exists>y \<in> set (elems s). eqFn s y e) \<or> (\<exists>y \<in> set (x # xs). eqFn s y e))" for e
    using m2[of e] m1[of e] unfolding s1(4) by auto
  show ?case using e s2(2,3,4) s1(3,4) m by auto
qed

lemma same_identities_same_length:
  assumes eok: "eq_ok cmp eq" and ux: "uniqueBy eq xs" and uy: "uniqueBy eq ys"
    and m: "\<And>e. (\<exists>x \<in> set xs. eq x e) = (\<exists>y \<in> set ys. eq y e)"
  shows "length xs = length ys"
proof -
  have le: "length as \<le> length bs"
    if ua: "uniqueBy eq as" and ub: "uniqueBy eq bs"
      and cov: "\<And>a. a \<in> set as \<Longrightarrow> \<exists>b \<in> set bs. eq b a" for as bs
  proof -
    define f where "f = (\<lambda>a. SOME b. b \<in> set bs \<and> eq b a)"
    have f: "f a \<in> set bs \<and> eq (f a) a" if "a \<in> set as" for a
      unfolding f_def using someI_ex[of "\<lambda>b. b \<in> set bs \<and> eq b a"] cov[OF that] by blast
    have inj: "inj_on f (set as)"
    proof (rule inj_onI)
      fix a a' assume a: "a \<in> set as" and a': "a' \<in> set as" and e: "f a = f a'"
      have "eq a (f a)" using f[OF a] eq_ok_sym[OF eok] by blast
      moreover have "eq (f a) a'" using f[OF a'] e by simp
      ultimately have "eq a a'" using eq_ok_trans[OF eok] by blast
      then show "a = a'" using uniqueBy_set[OF eok ua a a'] by simp
    qed
    have "f ` set as \<subseteq> set bs" using f by blast
    then have "card (set as) \<le> card (set bs)" using card_inj_on_le[OF inj] by simp
    then show ?thesis
      using distinct_card[OF uniqueBy_distinct[OF eok ua]] distinct_card[OF uniqueBy_distinct[OF eok ub]]
      by simp
  qed
  have 1: "\<exists>b \<in> set ys. eq b a" if "a \<in> set xs" for a
    using m[of a] that eq_ok_refl[OF eok] by blast
  have 2: "\<exists>b \<in> set xs. eq b a" if "a \<in> set ys" for a
    using m[of a] that eq_ok_refl[OF eok] by blast
  show ?thesis using le[OF ux uy 1] le[OF uy ux 2] by simp
qed

text \<open>
  On a well-formed comparator set, \<open>InsertSet\<close> of another set and one \<open>Insert\<close> for each
  element of its \<open>Elems()\<close> both return, and the two results have the same \<open>Contains\<close> and
  the same \<open>Len\<close>.
\<close>

lemma InsertSet_insertEach_comparator:
  assumes wf: "wellFormed s"
  shows "\<exists>s1 s2. InsertSet z s other = Some s1 \<and>
                 insertEach s (case other of Self \<Rightarrow> Elems s | Other es c \<Rightarrow> es) = Some s2 \<and>
                 funcSorted_insertSet z s other = Some s1 \<and>
                 (\<forall>e. Contains s1 e = Contains s2 e) \<and> Len s1 = Len s2"
proof -
  have eok: "eq_ok (cmpFn s) (eqFn s)" using wf by (simp add: wellFormed_def)
  define es where "es = (case other of Self \<Rightarrow> Elems s | Other es c \<Rightarrow> es)"
  from insertEach_membership[OF wf, of es] obtain s2 where
    s2: "insertEach s es = Some s2" "wellFormed s2" "cmpFn s2 = cmpFn s" "eqFn s2 = eqFn s"
    and m2: "\<And>e. (\<exists>y \<in> set (elems s2). eqFn s y e)
                = ((\<exists>y \<in> set (elems s). eqFn s y e) \<or> (\<exists>y \<in> set es. eqFn s y e))"
    by blast
  have "\<exists>s1. InsertSet z s other = Some s1 \<and> funcSorted_insertSet z s other = Some s1 \<and>
             wellFormed s1 \<and> cmpFn s1 = cmpFn s \<and> eqFn s1 = eqFn s \<and>
             (\<forall>e. (\<exists>y \<in> set (elems s1). eqFn s y e)
                   = ((\<exists>y \<in> set (elems s). eqFn s y e) \<or> (\<exists>y \<in> set es. eqFn s y e)))"
  proof (cases other)
    case Self
    then show ?thesis using wf
      by (auto simp: InsertSet_def funcSorted_insertSet_def es_def Elems_def)
  next
    case (Other xs c)
    then show ?thesis using insertAll_membership[OF wf, of z xs]
      by (simp add: InsertSet_def funcSorted_insertSet_def funcSorted_insertAll_eq es_def)
  qed
  then obtain s1 where
    s1: "InsertSet z s other = Some s1" "funcSorted_insertSet z s other = Some s1"
      "wellFormed s1" "cmpFn s1 = cmpFn s" "eqFn s1 = eqFn s"
    and m1: "\<And>e. (\<exists>y \<in> set (elems s1). eqFn s y e)
                = ((\<exists>y \<in> set (elems s). eqFn s y e) \<or> (\<exists>y \<in> set es. eqFn s y e))"
    by blast
  have same: "(\<exists>y \<in> set (elems s1). eqFn s y e) = (\<exists>y \<in> set (elems s2). eqFn s y e)" for e
    using m1[of e] m2[of e] by simp
  have c: "Contains s1 e = Contains s2 e" for e
    unfolding Contains_iff[OF s1(3)] Contains_iff[OF s2(2)] s1(5) s2(4) by (rule same)
  have u1: "uniqueBy (eqFn s) (elems s1)" using s1(3,5) by (simp add: wellFormed_def)
  have u2: "uniqueBy (eqFn s) (elems s2)" using s2(2,4) by (simp add: wellFormed_def)
  have "length (elems s1) = length (elems s2)"
    by (rule same_identities_same_length[OF eok u1 u2 same])
  then have l: "Len s1 = Len s2" by (simp add: Len_def)
  show ?thesis using s1(1,2) s2(1) c l unfolding es_def by blast
qed

section \<open>The claims\<close>

text \<open>
  C10. In a well-formed comparator set (of either version), inserting an element \<open>e\<close>
  whose identity is that of the stored element at index \<open>i\<close> succeeds and yields the set
  whose list has \<open>e\<close> itself at index \<open>i\<close> and is otherwise unchanged; the length is the
  same.
\<close>

theorem Insert_replaces_stored_element:
  assumes wf: "wellFormed s" and i: "i < length (elems s)" and e: "eqFn s (elems s ! i) e"
  shows "Insert s e = Some (s\<lparr>elems := (elems s)[i := e]\<rparr>) \<and>
         funcSorted_insert s e = Some (s\<lparr>elems := (elems s)[i := e]\<rparr>) \<and>
         Len (s\<lparr>elems := (elems s)[i := e]\<rparr>) = Len s \<and>
         Elems (s\<lparr>elems := (elems s)[i := e]\<rparr>) ! i = e"
  using Insert_found[OF search_unique[OF wf i e]] funcSorted_insert_eq[OF wf, of e] i
  by (simp add: Len_def Elems_def)

theorem Insert_replaces_stored_element_witness:
  "wellFormed \<lparr>elems = [(1, ''a''), (2, ''b'')], cmpFn = byKey, eqFn = sameKey\<rparr> \<and>
   sameKey ([(1, ''a''), (2, ''b'')] ! 1) (2, ''c'') \<and>
   Insert \<lparr>elems = [(1, ''a''), (2, ''b'')], cmpFn = byKey, eqFn = sameKey\<rparr> (2, ''c'')
     = Some \<lparr>elems = [(1, ''a''), (2, ''c'')], cmpFn = byKey, eqFn = sameKey\<rparr> \<and>
   funcSorted_insert \<lparr>elems = [(1, ''a''), (2, ''b'')], cmpFn = byKey, eqFn = sameKey\<rparr> (2, ''c'')
     = Some \<lparr>elems = [(1, ''a''), (2, ''c'')], cmpFn = byKey, eqFn = sameKey\<rparr>"
proof -
  have wf: "wellFormed \<lparr>elems = [(1, ''a''), (2, ''b'')], cmpFn = byKey, eqFn = sameKey\<rparr>"
    by (simp add: wellFormed_def cmp_ok_byKey eq_ok_byKey sortedBy_def uniqueBy_def
                  byKey_def sameKey_def cmp_Compare_def)
  have e: "sameKey ([(1, ''a''), (2, ''b'')] ! 1) (2, ''c'')" by (simp add: sameKey_def)
  show ?thesis
    using Insert_replaces_stored_element[OF wf, of 1 "(2, ''c'')"] wf e by simp
qed

text \<open>
  Idempotence of insertion where the invariant holds: in a well-formed comparator set (of
  either version) an insertion succeeds, and inserting the same element again returns the
  very same set, so \<open>Len\<close> and \<open>Elems\<close> are those after the first insertion. The same
  holds for the natural-order set of version 2 as long as its list is strictly ascending.
\<close>

theorem Insert_idempotent_wellFormed:
  assumes wf: "wellFormed s" and l: "sorted_wrt (<) l"
  shows "(\<exists>s1. Insert s e = Some s1 \<and> Insert s1 e = Some s1 \<and>
               funcSorted_insert s e = Some s1 \<and> funcSorted_insert s1 e = Some s1) \<and>
         (\<exists>l1. ordered_insert l x = Some l1 \<and> ordered_insert l1 x = Some l1)"
proof -
  have twice: "\<exists>s1. Insert s e = Some s1 \<and> wellFormed s1 \<and> Insert s1 e = Some s1 \<and>
                 cmpFn s1 = cmpFn s \<and> eqFn s1 = eqFn s"
    if wf: "wellFormed s" for s :: "'c sortedSet" and e
  proof -
    from Insert_wellFormed[OF wf, of e] obtain s1 i where
      s1: "Insert s e = Some s1" "wellFormed s1" "i < length (elems s1)" "elems s1 ! i = e"
      and fn: "cmpFn s1 = cmpFn s" "eqFn s1 = eqFn s"
      by blast
    have "eqFn s1 (elems s1 ! i) e"
      using s1(2,4) eq_ok_refl[of "cmpFn s1" "eqFn s1"] by (simp add: wellFormed_def)
    moreover have "(elems s1)[i := e] = elems s1"
      using list_update_id[of "elems s1" i] s1(4) by simp
    ultimately have "Insert s1 e = Some s1"
      using Insert_found[OF search_unique[OF s1(2,3)], of e] by simp
    with s1 fn show ?thesis by blast
  qed
  from twice[OF wf, of e] obtain s1 where
    s1: "Insert s e = Some s1" "wellFormed s1" "Insert s1 e = Some s1" by blast
  have a: "\<exists>s1. Insert s e = Some s1 \<and> Insert s1 e = Some s1 \<and>
               funcSorted_insert s e = Some s1 \<and> funcSorted_insert s1 e = Some s1"
    using s1 funcSorted_insert_eq[OF wf, of e] funcSorted_insert_eq[OF s1(2), of e] by simp
  define n where "n = \<lparr>elems = l, cmpFn = cmp_Compare, eqFn = equal\<rparr>"
  have "wellFormed n" unfolding n_def by (rule wellFormed_natural[OF l])
  from twice[OF this, of x] obtain n1 where
    n1: "Insert n x = Some n1" "Insert n1 x = Some n1" "cmpFn n1 = cmp_Compare" "eqFn n1 = equal"
    by (auto simp: n_def)
  have "n1 = \<lparr>elems = elems n1, cmpFn = cmp_Compare, eqFn = equal\<rparr>"
    using n1(3,4) by (cases n1) simp
  then have "ordered_insert (elems n1) x = Some (elems n1)"
    using n1(2) ordered_insert_Insert[of "elems n1" x] by simp
  moreover have "ordered_insert l x = Some (elems n1)"
    using n1(1) ordered_insert_Insert[of l x] by (simp add: n_def)
  ultimately show ?thesis using a by blast
qed

theorem Insert_idempotent_wellFormed_witness:
  "wellFormed \<lparr>elems = [''ab'', ''cd''], cmpFn = byLength, eqFn = equal\<rparr> \<and>
   sorted_wrt (<) [1, 3, 5 :: int] \<and>
   (\<exists>s1. Insert \<lparr>elems = [''ab'', ''cd''], cmpFn = byLength, eqFn = equal\<rparr> ''ef'' = Some s1 \<and>
         Insert s1 ''ef'' = Some s1) \<and>
   (\<exists>l1. ordered_insert [1, 3, 5 :: int] 4 = Some l1 \<and> ordered_insert l1 4 = Some l1)"
proof -
  have wf: "wellFormed \<lparr>elems = [''ab'', ''cd''], cmpFn = byLength, eqFn = equal\<rparr>"
    by (simp add: wellFormed_def cmp_ok_byLength eq_ok_byLength sortedBy_def uniqueBy_def
                  byLength_def equal_def cmp_Compare_def)
  have l: "sorted_wrt (<) [1, 3, 5 :: int]" by simp
  show ?thesis
    using Insert_idempotent_wellFormed[OF wf l, of "''ef''" 4] wf l by blast
qed

text \<open>
  C6. A comparator set over strings ordered by length and identified by exact value
  keeps \<open>''ab''\<close> and \<open>''cd''\<close> as two members (in either version of the set):
  both are contained and the length is 2. In every well-formed comparator set
  \<open>search\<close>, which is the binary search on the sort key followed by the scan of the
  run with the matching key, finds an element exactly if some stored element has its
  identity, and then returns the index of that element, whose sort key matches.
\<close>

theorem Contains_equal_key_distinct_identity:
  assumes wf: "wellFormed s"
  shows "Contains s e = (\<exists>x \<in> set (elems s). eqFn s x e) \<and>
         funcSorted_Contains s e = (\<exists>x \<in> set (elems s). eqFn s x e) \<and>
         search s e = search_scan (cmpFn s) (eqFn s) (elems s) e
                        (sort_Search (length (elems s)) (\<lambda>i. cmpFn s e (elems s ! i) \<le> 0)) \<and>
         (\<forall>r. search s e = (r, True) \<longrightarrow>
              r < length (elems s) \<and> eqFn s (elems s ! r) e \<and> cmpFn s e (elems s ! r) = 0) \<and>
         do {
           s0 \<leftarrow> NewSortedCmpEqFunc [] byLength equal [];
           s1 \<leftarrow> Insert s0 ''ab'';
           s2 \<leftarrow> Insert s1 ''cd'';
           Some (Contains s2 ''ab'', Contains s2 ''cd'', Len s2, Elems s2)
         } = Some (True, True, 2, [''ab'', ''cd'']) \<and>
         do {
           s0 \<leftarrow> NewSortedMutableFuncs [] byLength equal [];
           s1 \<leftarrow> funcSorted_insert s0 ''ab'';
           s2 \<leftarrow> funcSorted_insert s1 ''cd'';
           Some (funcSorted_Contains s2 ''ab'', funcSorted_Contains s2 ''cd'', Len s2, Elems s2)
         } = Some (True, True, 2, [''ab'', ''cd''])"
proof -
  have a: "Contains s e = (\<exists>x \<in> set (elems s). eqFn s x e)" by (rule Contains_iff[OF wf])
  have b: "funcSorted_Contains s e = (\<exists>x \<in> set (elems s). eqFn s x e)"
    using a funcSorted_Contains_eq[OF wf] by simp
  have c: "search s e = search_scan (cmpFn s) (eqFn s) (elems s) e
             (sort_Search (length (elems s)) (\<lambda>i. cmpFn s e (elems s ! i) \<le> 0))"
    by (simp add: search_def Let_def)
  have d: "\<forall>r. search s e = (r, True) \<longrightarrow>
              r < length (elems s) \<and> eqFn s (elems s ! r) e \<and> cmpFn s e (elems s ! r) = 0"
    using search_found[of s e] wf by (simp add: wellFormed_def)
  have s1: "do {
           s0 \<leftarrow> NewSortedCmpEqFunc [] byLength equal [];
           s1 \<leftarrow> Insert s0 ''ab'';
           s2 \<leftarrow> Insert s1 ''cd'';
           Some (Contains s2 ''ab'', Contains s2 ''cd'', Len s2, Elems s2)
         } = Some (True, True, 2, [''ab'', ''cd''])"
    by code_simp
  have s2: "do {
           s0 \<leftarrow> NewSortedMutableFuncs [] byLength equal [];
           s1 \<leftarrow> funcSorted_insert s0 ''ab'';
           s2 \<leftarrow> funcSorted_insert s1 ''cd'';
           Some (funcSorted_Contains s2 ''ab'', funcSorted_Contains s2 ''cd'', Len s2, Elems s2)
         } = Some (True, True, 2, [''ab'', ''cd''])"
    by code_simp
  show ?thesis by (intro conjI a b c d s1 s2)
qed

theorem Contains_equal_key_distinct_identity_witness:
  "wellFormed \<lparr>elems = [''ab'', ''cd''], cmpFn = byLength, eqFn = equal\<rparr> \<and>
   Contains \<lparr>elems = [''ab'', ''cd''], cmpFn = byLength, eqFn = equal\<rparr> ''cd'' \<and>
   \<not> Contains \<lparr>elems = [''ab'', ''cd''], cmpFn = byLength, eqFn = equal\<rparr> ''xy''"
proof -
  have wf: "wellFormed \<lparr>elems = [''ab'', ''cd''], cmpFn = byLength, eqFn = equal\<rparr>"
    by (simp add: wellFormed_def cmp_ok_byLength eq_ok_byLength sortedBy_def uniqueBy_def
                  byLength_def equal_def cmp_Compare_def)
  have "Contains \<lparr>elems = [''ab'', ''cd''], cmpFn = byLength, eqFn = equal\<rparr> ''cd''"
    using Contains_equal_key_distinct_identity[OF wf, of "''cd''", THEN conjunct1]
    by (simp add: equal_def)
  moreover have "\<not> Contains \<lparr>elems = [''ab'', ''cd''], cmpFn = byLength, eqFn = equal\<rparr> ''xy''"
    using Contains_equal_key_distinct_identity[OF wf, of "''xy''", THEN conjunct1]
    by (simp add: equal_def)
  ultimately show ?thesis using wf by simp
qed

text \<open>
  C9. \<open>Elems\<close> returns a slice on a newly allocated array that holds the set's
  elements. An assignment through the returned slice leaves the set's value, and so the
  results of \<open>Contains\<close>, \<open>Len\<close> and \<open>Elems\<close>, unchanged; and a later \<open>Insert\<close>,
  \<open>Remove\<close>, \<open>InsertAll\<close> or \<open>RemoveAll\<close> on the set leaves the elements seen through
  the returned slice unchanged.
\<close>

theorem Elems_returns_fresh_copy:
  assumes a: "sptr (ref S) < length st" and el: "Elems_ref st S = (st1, out)"
  shows "view st1 out = Elems (deref st S) \<and>
         sptr out \<noteq> sptr (ref S) \<and>
         deref st1 S = deref st S \<and>
         (\<forall>i v st2. assign_through st1 out i v = Some st2 \<longrightarrow>
            deref st2 S = deref st1 S \<and>
            (\<forall>e. Contains (deref st2 S) e = Contains (deref st1 S) e) \<and>
            Len (deref st2 S) = Len (deref st1 S) \<and>
            Elems (deref st2 S) = Elems (deref st1 S)) \<and>
         (\<forall>z e st2 S2. Insert_ref z st1 S e = Some (st2, S2) \<longrightarrow> view st2 out = view st1 out) \<and>
         (\<forall>z e st2 S2. Remove_ref z st1 S e = Some (st2, S2) \<longrightarrow> view st2 out = view st1 out) \<and>
         (\<forall>z es st2 S2. InsertAll_ref z st1 S es = Some (st2, S2) \<longrightarrow> view st2 out = view st1 out) \<and>
         (\<forall>z es st2 S2. RemoveAll_ref z st1 S es = Some (st2, S2) \<longrightarrow> view st2 out = view st1 out)"
proof -
  have st1: "st1 = st @ [view st (ref S)]" and out: "out = \<lparr>sptr = length st, slen = slen (ref S)\<rparr>"
    using el by (simp_all add: Elems_ref_def slices_Clone_def)
  have c1: "view st1 out = Elems (deref st S)"
    by (simp add: st1 out view_def Elems_def deref_def)
  have c2: "sptr out \<noteq> sptr (ref S)" using a by (simp add: out)
  have c3: "deref st1 S = deref st S" using a by (simp add: st1 deref_def view_def nth_append)
  have asg: "deref st2 S = deref st1 S" if "assign_through st1 out i v = Some st2" for i v st2
  proof -
    from that obtain cells where
      "st2 = st1[sptr out := cells @ drop (slen out) (st1 ! sptr out)]"
      by (auto simp: assign_through_def split: Option.bind_splits)
    then have "st2 ! sptr (ref S) = st1 ! sptr (ref S)" using c2 by simp
    then show ?thesis by (simp add: deref_def view_def)
  qed
  have a1: "sptr (ref S) < length st1" using a by (simp add: st1)
  have o1: "sptr out < length st1" by (simp add: st1 out)
  have mut: "view st2 out = view st1 out"
    if "mutate_ref z mth st1 S = Some (st2, S2)" for z mth st2 S2
    using mutate_ref_frame[OF that a1 o1 c2] by (simp add: view_def)
  have c4: "\<forall>i v st2. assign_through st1 out i v = Some st2 \<longrightarrow>
            deref st2 S = deref st1 S \<and>
            (\<forall>e. Contains (deref st2 S) e = Contains (deref st1 S) e) \<and>
            Len (deref st2 S) = Len (deref st1 S) \<and>
            Elems (deref st2 S) = Elems (deref st1 S)"
    using asg by simp
  have c5: "\<forall>z e st2 S2. Insert_ref z st1 S e = Some (st2, S2) \<longrightarrow> view st2 out = view st1 out"
    unfolding Insert_ref_def using mut by blast
  have c6: "\<forall>z e st2 S2. Remove_ref z st1 S e = Some (st2, S2) \<longrightarrow> view st2 out = view st1 out"
    unfolding Remove_ref_def using mut by blast
  have c7: "\<forall>z es st2 S2. InsertAll_ref z st1 S es = Some (st2, S2) \<longrightarrow> view st2 out = view st1 out"
    unfolding InsertAll_ref_def using mut by blast
  have c8: "\<forall>z es st2 S2. RemoveAll_ref z st1 S es = Some (st2, S2) \<longrightarrow> view st2 out = view st1 out"
    unfolding RemoveAll_ref_def using mut by blast
  show ?thesis by (intro conjI c1 c2 c3 c4 c5 c6 c7 c8)
qed

theorem Elems_returns_fresh_copy_witness:
  "Elems_ref [[1, 3, 5 :: int]] \<lparr>ref = \<lparr>sptr = 0, slen = 3\<rparr>, refCmp = cmp_Compare, refEq = equal\<rparr>
     = ([[1, 3, 5], [1, 3, 5]], \<lparr>sptr = 1, slen = 3\<rparr>) \<and>
   assign_through [[1, 3, 5 :: int], [1, 3, 5]] \<lparr>sptr = 1, slen = 3\<rparr> 0 9 = Some [[1, 3, 5], [9, 3, 5]] \<and>
   Elems (deref [[1, 3, 5 :: int], [9, 3, 5]]
            \<lparr>ref = \<lparr>sptr = 0, slen = 3\<rparr>, refCmp = cmp_Compare, refEq = equal\<rparr>) = [1, 3, 5] \<and>
   map_option (\<lambda>(st, r). (st, ref r))
     (Insert_ref 0 [[1, 3, 5 :: int], [1, 3, 5]]
        \<lparr>ref = \<lparr>sptr = 0, slen = 3\<rparr>, refCmp = cmp_Compare, refEq = equal\<rparr> 4)
     = Some ([[1, 3, 5], [1, 3, 5], [1, 3, 4, 5]], \<lparr>sptr = 2, slen = 4\<rparr>) \<and>
   view [[1, 3, 5 :: int], [1, 3, 5], [1, 3, 4, 5]] \<lparr>sptr = 1, slen = 3\<rparr> = [1, 3, 5]"
proof -
  have a: "sptr (ref \<lparr>ref = \<lparr>sptr = 0, slen = 3\<rparr>, refCmp = cmp_Compare, refEq = (equal :: int EqFunc)\<rparr>)
            < length [[1, 3, 5 :: int]]" by simp
  have el: "Elems_ref [[1, 3, 5 :: int]] \<lparr>ref = \<lparr>sptr = 0, slen = 3\<rparr>, refCmp = cmp_Compare, refEq = equal\<rparr>
     = ([[1, 3, 5], [1, 3, 5]], \<lparr>sptr = 1, slen = 3\<rparr>)"
    by (simp add: Elems_ref_def slices_Clone_def view_def)
  have as: "assign_through [[1, 3, 5 :: int], [1, 3, 5]] \<lparr>sptr = 1, slen = 3\<rparr> 0 9
      = Some [[1, 3, 5], [9, 3, 5]]"
    by (simp add: assign_through_def view_def store_at_def)
  note t = Elems_returns_fresh_copy[OF a el]
  have v: "view [[1, 3, 5 :: int], [1, 3, 5]] \<lparr>sptr = 1, slen = 3\<rparr> = [1, 3, 5]"
    by (simp add: view_def)
  have e: "Elems (deref [[1, 3, 5 :: int], [9, 3, 5]]
            \<lparr>ref = \<lparr>sptr = 0, slen = 3\<rparr>, refCmp = cmp_Compare, refEq = equal\<rparr>) = [1, 3, 5]"
    using t as by (simp add: Elems_def deref_def view_def)
  have i: "map_option (\<lambda>(st, r). (st, ref r))
     (Insert_ref 0 [[1, 3, 5 :: int], [1, 3, 5]]
        \<lparr>ref = \<lparr>sptr = 0, slen = 3\<rparr>, refCmp = cmp_Compare, refEq = equal\<rparr> 4)
     = Some ([[1, 3, 5], [1, 3, 5], [1, 3, 4, 5]], \<lparr>sptr = 2, slen = 4\<rparr>)"
    by code_simp
  then obtain S2 where "Insert_ref 0 [[1, 3, 5 :: int], [1, 3, 5]]
        \<lparr>ref = \<lparr>sptr = 0, slen = 3\<rparr>, refCmp = cmp_Compare, refEq = equal\<rparr> 4
     = Some ([[1, 3, 5], [1, 3, 5], [1, 3, 4, 5]], S2)"
    by auto
  then have w: "view [[1, 3, 5 :: int], [1, 3, 5], [1, 3, 4, 5]] \<lparr>sptr = 1, slen = 3\<rparr> = [1, 3, 5]"
    using t v by metis
  show ?thesis by (intro conjI el as e i w)
qed

text \<open>
  C7. For every comparison function, every equality function and every input list or
  set, each operation of the model returns a result: no checked index or slice bound
  fails, in particular none of those that \<open>insertInto\<close> and \<open>deleteFrom\<close> compute, and
  every loop terminates. This covers the sequence algorithms, the comparator set of
  both versions and the natural-order operations built on the batched passes. (The
  functions are total HOL functions: a nil function value or a nil interface as the
  other operand is outside the model.)
\<close>

theorem no_operation_panics:
  "(\<exists>r. MergeSorted z a b cmp eq = Some r) \<and>
   (\<exists>r. DeleteSorted z a b cmp eq = Some r) \<and>
   (\<exists>r. StableSortUniqFuncs z a cmp eq = Some r) \<and>
   (\<exists>r. mergeSortedLists z a b cmp eq = Some r) \<and>
   (\<exists>r. diffSortedLists z a b cmp eq = Some r) \<and>
   (\<exists>r. stableSortUniqCmpEq z a cmp eq = Some r) \<and>
   (\<exists>r. MergeSortedUniq zl la lb = Some r) \<and>
   (\<exists>r. DeleteSortedUniq zl la lb = Some r) \<and>
   (\<exists>r. NewSortedCmpEqFunc z cmp eq a = Some r) \<and>
   (\<exists>r. Insert s e = Some r) \<and>
   (\<exists>r. InsertAll z s a = Some r) \<and>
   (\<exists>r. InsertSet z s other = Some r) \<and>
   (\<exists>r. Remove z s e = Some r) \<and>
   (\<exists>r. RemoveAll z s a = Some r) \<and>
   (\<exists>r. RemoveSet z s other = Some r) \<and>
   (\<exists>r. Union z s other = Some r) \<and>
   (\<exists>r. SymmetricDifference z s other = Some r) \<and>
   (\<exists>r. funcSort z a cmp eq = Some r) \<and>
   (\<exists>r. funcSorted_insert s e = Some r) \<and>
   (\<exists>r. funcSorted_insertAll z s a = Some r) \<and>
   (\<exists>r. funcSorted_insertSet z s other = Some r) \<and>
   (\<exists>r. funcSorted_remove z s e = Some r) \<and>
   (\<exists>r. funcSorted_removeAll z s a = Some r) \<and>
   (\<exists>r. funcSorted_removeSet z s other = Some r) \<and>
   (\<exists>r. funcSorted_union z s other = Some r) \<and>
   (\<exists>r. funcSorted_symmetricDifference z s other = Some r) \<and>
   (\<exists>r. ordered_insert la x = Some r) \<and>
   (\<exists>r. ordered_insertAll zl la lb = Some r) \<and>
   (\<exists>r. ordered_insertSet zl la ov = Some r)"
proof -
  have ia: "\<And>s a. \<exists>r. insertAll z s a = Some r" by (simp add: insertAll_F)
  have ra: "\<And>s a. \<exists>r. removeAll_sorted z s a = Some r" by (simp add: removeAll_sorted_F)
  have mu: "\<And>la lb. \<exists>r. MergeSortedUniq zl la lb = Some r"
    by (simp add: MergeSortedUniq_def mergeUniqSortedLists_F)
  have 1: "\<exists>r. MergeSorted z a b cmp eq = Some r" by (simp add: MergeSorted_def mergeSortedLists_F)
  have 2: "\<exists>r. DeleteSorted z a b cmp eq = Some r" by (simp add: DeleteSorted_def diffSortedLists_F)
  have 3: "\<exists>r. StableSortUniqFuncs z a cmp eq = Some r" by (simp add: StableSortUniqFuncs_F)
  have 4: "\<exists>r. mergeSortedLists z a b cmp eq = Some r" by (simp add: mergeSortedLists_F)
  have 5: "\<exists>r. diffSortedLists z a b cmp eq = Some r" by (simp add: diffSortedLists_F)
  have 6: "\<exists>r. stableSortUniqCmpEq z a cmp eq = Some r" by (simp add: stableSortUniqCmpEq_F)
  have 7: "\<exists>r. MergeSortedUniq zl la lb = Some r" by (rule mu)
  have 8: "\<exists>r. DeleteSortedUniq zl la lb = Some r"
    by (simp add: DeleteSortedUniq_def diffUniqSortedLists_F)
  have 9: "\<exists>r. NewSortedCmpEqFunc z cmp eq a = Some r" by (simp add: NewSortedCmpEqFunc_F)
  have 10: "\<exists>r. Insert s e = Some r" by (rule Insert_total)
  have 11: "\<exists>r. InsertAll z s a = Some r" unfolding InsertAll_def by (rule ia)
  have 12: "\<exists>r. InsertSet z s other = Some r"
    using ia by (cases other) (simp_all add: InsertSet_def)
  have 13: "\<exists>r. Remove z s e = Some r" by (simp add: Remove_eq)
  have 14: "\<exists>r. RemoveAll z s a = Some r" unfolding RemoveAll_def by (rule ra)
  have 15: "\<exists>r. RemoveSet z s other = Some r"
    using ra by (cases other) (simp_all add: RemoveSet_def)
  have 16: "\<exists>r. Union z s other = Some r"
    using ia by (cases other) (simp_all add: Union_def)
  have 17: "\<exists>r. SymmetricDifference z s other = Some r"
    unfolding SymmetricDifference_def by (rule ia)
  have 18: "\<exists>r. funcSort z a cmp eq = Some r" by (simp add: funcSort_eq NewSortedCmpEqFunc_F)
  have 19: "\<exists>r. funcSorted_insert s e = Some r" by (simp add: funcSorted_insert_eq')
  have 20: "\<exists>r. funcSorted_insertAll z s a = Some r" unfolding funcSorted_insertAll_eq by (rule ia)
  have 21: "\<exists>r. funcSorted_insertSet z s other = Some r"
    using ia by (cases other) (simp_all add: funcSorted_insertSet_def funcSorted_insertAll_eq)
  have 22: "\<exists>r. funcSorted_remove z s e = Some r" by (simp add: funcSorted_remove_eq)
  have 23: "\<exists>r. funcSorted_removeAll z s a = Some r" unfolding funcSorted_removeAll_eq by (rule ra)
  have 24: "\<exists>r. funcSorted_removeSet z s other = Some r"
  proof (cases other)
    case Self
    then show ?thesis by (simp add: funcSorted_removeSet_Self)
  next
    case (Other es c)
    then show ?thesis using ra by (simp add: funcSorted_removeSet_def funcSorted_removeAll_eq)
  qed
  have 25: "\<exists>r. funcSorted_union z s other = Some r"
    using ia by (cases other) (simp_all add: funcSorted_union_def funcSorted_insertAll_eq)
  have 26: "\<exists>r. funcSorted_symmetricDifference z s other = Some r"
    unfolding funcSorted_symmetricDifference_def funcSorted_insertAll_eq by (rule ia)
  have 27: "\<exists>r. ordered_insert la x = Some r" by (rule ordered_insert_total)
  have 28: "\<exists>r. ordered_insertAll zl la lb = Some r" unfolding ordered_insertAll_def by (rule mu)
  have 29: "\<exists>r. ordered_insertSet zl la ov = Some r"
    using mu by (cases ov) (simp_all add: ordered_insertSet_def ordered_insertAll_def)
  show ?thesis
    by (intro conjI 1 2 3 4 5 6 7 8 9 10 11 12 13 14 15 16 17 18 19 20 21 22 23 24 25 26 27 28 29)
qed

theorem no_operation_panics_witness:
  "(\<exists>r. MergeSorted (0 :: int) [3, 1, 2] [2, 2, 0] (\<lambda>a b. 1) (\<lambda>a b. True) = Some r) \<and>
   (\<exists>r. DeleteSorted (0 :: int) [3, 1, 2] [2, 2, 0] (\<lambda>a b. 1) (\<lambda>a b. True) = Some r)"
  using no_operation_panics[where z = "0 :: int" and a = "[3, 1, 2]" and b = "[2, 2, 0]"
          and cmp = "\<lambda>a b. 1" and eq = "\<lambda>a b. True"]
  by blast

text \<open>
  C1. MergeInto: for lists \<open>a\<close> and \<open>b\<close> that are sorted by \<open>cmp\<close> and hold no two elements
  of equal identity under \<open>eq\<close> (with \<open>cmp\<close> an ordering and \<open>eq\<close> an identity consistent with
  it, the documented preconditions), \<open>MergeSorted\<close> returns a list that is sorted by \<open>cmp\<close>,
  holds no two elements of equal identity, and whose elements are those of \<open>b\<close> together with
  the elements of \<open>a\<close> whose identity matches no element of \<open>b\<close>: the union, with the value
  of \<open>b\<close> kept on a collision. The natural-order merge of two strictly ascending lists
  returns the strictly ascending list of the elements of both.
\<close>

theorem MergeSorted_sorted_unique_union:
  fixes a b :: "'a list" and na nb :: "'b::linorder list"
  assumes "cmp_ok cmp" and "eq_ok cmp eq"
    and "sortedBy cmp a" and "uniqueBy eq a"
    and "sortedBy cmp b" and "uniqueBy eq b"
    and "sorted_wrt (<) na" and "sorted_wrt (<) nb"
  shows "(\<exists>r. MergeSorted z a b cmp eq = Some r \<and> sortedBy cmp r \<and> uniqueBy eq r \<and>
              set r = set b \<union> {x \<in> set a. \<not> (\<exists>y \<in> set b. eq y x)}) \<and>
         (\<exists>r. mergeUniqSortedLists nz na nb = Some r \<and> sorted_wrt (<) r \<and>
              set r = set na \<union> set nb)"
proof -
  have 1: "MergeSorted z a b cmp eq = Some (mergeF cmp eq a b)"
    by (simp add: MergeSorted_def mergeSortedLists_F)
  have 2: "mergeUniqSortedLists nz na nb = Some (mergeUniqF na nb)"
    by (rule mergeUniqSortedLists_F)
  from mergeF_props[OF assms(1-6)]
  have 3: "sortedBy cmp (mergeF cmp eq a b)" "uniqueBy eq (mergeF cmp eq a b)"
    "set (mergeF cmp eq a b) = set b \<union> {x \<in> set a. \<not> (\<exists>y \<in> set b. eq y x)}"
    by (simp_all add: mergeSpec_def)
  from mergeUniqF_props[OF assms(7,8)]
  have 4: "sorted_wrt (<) (mergeUniqF na nb)" "set (mergeUniqF na nb) = set na \<union> set nb"
    by simp_all
  show ?thesis unfolding 1 2 using 3 4 by simp
qed

theorem MergeSorted_sorted_unique_union_witness:
  "cmp_ok byKey \<and> eq_ok byKey sameKey \<and>
   sortedBy byKey [(1, ''a''), (2, ''a''), (3, ''a''), (4, ''a''), (5, ''a'')] \<and>
   uniqueBy sameKey [(1, ''a''), (2, ''a''), (3, ''a''), (4, ''a''), (5, ''a'')] \<and>
   sortedBy byKey [(2, ''b''), (6, ''b''), (8, ''b'')] \<and>
   uniqueBy sameKey [(2, ''b''), (6, ''b''), (8, ''b'')] \<and>
   sorted_wrt (<) [1, 2, 3, 4, 5 :: int] \<and> sorted_wrt (<) [2, 6, 8 :: int] \<and>
   MergeSorted (0, '''') [(1, ''a''), (2, ''a''), (3, ''a''), (4, ''a''), (5, ''a'')]
       [(2, ''b''), (6, ''b''), (8, ''b'')] byKey sameKey
     = Some [(1, ''a''), (2, ''b''), (3, ''a''), (4, ''a''), (5, ''a''), (6, ''b''), (8, ''b'')] \<and>
   MergeSorted 0 [1, 2, 3, 4, 5 :: int] [2, 6, 8] cmp_Compare equal = Some [1, 2, 3, 4, 5, 6, 8] \<and>
   mergeUniqSortedLists 0 [1, 2, 3, 4, 5 :: int] [2, 6, 8] = Some [1, 2, 3, 4, 5, 6, 8] \<and>
   (\<exists>r. MergeSorted (0, '''') [(1, ''a''), (2, ''a''), (3, ''a''), (4, ''a''), (5, ''a'')]
           [(2, ''b''), (6, ''b''), (8, ''b'')] byKey sameKey = Some r \<and>
        sortedBy byKey r \<and> uniqueBy sameKey r \<and>
        set r = set [(2, ''b''), (6, ''b''), (8, ''b'')] \<union>
                {x \<in> set [(1, ''a''), (2, ''a''), (3, ''a''), (4, ''a''), (5, ''a'')].
                   \<not> (\<exists>y \<in> set [(2, ''b''), (6, ''b''), (8, ''b'')]. sameKey y x)})"
proof -
  define A :: "(int \<times> string) list" where
    "A = [(1, ''a''), (2, ''a''), (3, ''a''), (4, ''a''), (5, ''a'')]"
  define B :: "(int \<times> string) list" where "B = [(2, ''b''), (6, ''b''), (8, ''b'')]"
  have h: "sortedBy byKey A" "uniqueBy sameKey A" "sortedBy byKey B" "uniqueBy sameKey B"
    by (simp_all add: A_def B_def sortedBy_def uniqueBy_def byKey_def sameKey_def cmp_Compare_def)
  have n: "sorted_wrt (<) [1, 2, 3, 4, 5 :: int]" "sorted_wrt (<) [2, 6, 8 :: int]" by simp_all
  have e1: "MergeSorted (0, '''') A B byKey sameKey
     = Some [(1, ''a''), (2, ''b''), (3, ''a''), (4, ''a''), (5, ''a''), (6, ''b''), (8, ''b'')]"
    unfolding A_def B_def by code_simp
  have e2: "MergeSorted 0 [1, 2, 3, 4, 5 :: int] [2, 6, 8] cmp_Compare equal = Some [1, 2, 3, 4, 5, 6, 8]"
    by code_simp
  have e3: "mergeUniqSortedLists 0 [1, 2, 3, 4, 5 :: int] [2, 6, 8] = Some [1, 2, 3, 4, 5, 6, 8]"
    by code_simp
  from MergeSorted_sorted_unique_union[OF cmp_ok_byKey eq_ok_byKey h n, of "(0, '''')" 0]
  have t: "\<exists>r. MergeSorted (0, '''') A B byKey sameKey = Some r \<and>
        sortedBy byKey r \<and> uniqueBy sameKey r \<and>
        set r = set B \<union> {x \<in> set A. \<not> (\<exists>y \<in> set B. sameKey y x)}"
    by (rule conjunct1)
  show ?thesis
    using cmp_ok_byKey eq_ok_byKey h n e1 e2 e3 t unfolding A_def B_def
    by (intro conjI) assumption+
qed

text \<open>
  C4. DeleteFrom: for lists \<open>a\<close> and \<open>b\<close> sorted by \<open>cmp\<close> (with \<open>cmp\<close> an ordering and \<open>eq\<close>
  an identity consistent with it, the documented preconditions), \<open>a\<close> holding no two
  elements of equal identity, \<open>DeleteSorted\<close> returns \<open>a\<close> without exactly the elements whose
  identity matches an element of \<open>b\<close>, the others in their order. The natural-order
  deletion does the same for a strictly ascending \<open>a\<close> and an ascending \<open>b\<close>.
\<close>

theorem DeleteSorted_removes_matching:
  fixes a b :: "'a list" and na nb :: "'b::linorder list"
  assumes "cmp_ok cmp" and "eq_ok cmp eq"
    and "sortedBy cmp a" and "uniqueBy eq a" and "sortedBy cmp b"
    and "sorted_wrt (<) na" and "sorted nb"
  shows "DeleteSorted z a b cmp eq = Some (filter (\<lambda>x. \<not> (\<exists>y \<in> set b. eq x y)) a) \<and>
         diffUniqSortedLists nz na nb = Some (filter (\<lambda>x. x \<notin> set nb) na)"
proof -
  have 1: "DeleteSorted z a b cmp eq = Some (diffF cmp eq a b)"
    by (simp add: DeleteSorted_def diffSortedLists_F)
  have 2: "diffUniqSortedLists nz na nb = Some (diffUniqF na nb)"
    by (rule diffUniqSortedLists_F)
  show ?thesis
    unfolding 1 2 diffF_props[OF assms(1,2,3,5)] diffUniqF_props[OF assms(6,7)] by simp
qed

theorem DeleteSorted_removes_matching_witness:
  "cmp_ok byKey \<and> eq_ok byKey sameKey \<and>
   sortedBy byKey [(1, ''a''), (2, ''a''), (3, ''a''), (4, ''a''), (5, ''a'')] \<and>
   uniqueBy sameKey [(1, ''a''), (2, ''a''), (3, ''a''), (4, ''a''), (5, ''a'')] \<and>
   sortedBy byKey [(2, ''b''), (4, ''b'')] \<and>
   sorted_wrt (<) [1, 2, 3, 4, 5 :: int] \<and> sorted [2, 4 :: int] \<and>
   DeleteSorted (0, '''') [(1, ''a''), (2, ''a''), (3, ''a''), (4, ''a''), (5, ''a'')]
       [(2, ''b''), (4, ''b'')] byKey sameKey
     = Some [(1, ''a''), (3, ''a''), (5, ''a'')] \<and>
   DeleteSorted 0 [1, 2, 3, 4, 5 :: int] [2, 4] cmp_Compare equal = Some [1, 3, 5] \<and>
   diffUniqSortedLists 0 [1, 2, 3, 4, 5 :: int] [2, 4] = Some [1, 3, 5]"
proof -
  define A :: "(int \<times> string) list" where
    "A = [(1, ''a''), (2, ''a''), (3, ''a''), (4, ''a''), (5, ''a'')]"
  define B :: "(int \<times> string) list" where "B = [(2, ''b''), (4, ''b'')]"
  have h: "sortedBy byKey A" "uniqueBy sameKey A" "sortedBy byKey B"
    by (simp_all add: A_def B_def sortedBy_def uniqueBy_def byKey_def sameKey_def cmp_Compare_def)
  have n: "sorted_wrt (<) [1, 2, 3, 4, 5 :: int]" "sorted [2, 4 :: int]" by simp_all
  have f1: "filter (\<lambda>x. \<not> (\<exists>y \<in> set B. sameKey x y)) A = [(1, ''a''), (3, ''a''), (5, ''a'')]"
    by (simp add: A_def B_def sameKey_def)
  have f2: "filter (\<lambda>x. x \<notin> set [2, 4 :: int]) [1, 2, 3, 4, 5] = [1, 3, 5]" by simp
  from DeleteSorted_removes_matching[OF cmp_ok_byKey eq_ok_byKey h n, of "(0, '''')" 0]
  have e1: "DeleteSorted (0, '''') A B byKey sameKey = Some [(1, ''a''), (3, ''a''), (5, ''a'')]"
    and e3: "diffUniqSortedLists 0 [1, 2, 3, 4, 5 :: int] [2, 4] = Some [1, 3, 5]"
    unfolding f1 f2 by simp_all
  have e2: "DeleteSorted 0 [1, 2, 3, 4, 5 :: int] [2, 4] cmp_Compare equal = Some [1, 3, 5]"
    by code_simp
  show ?thesis
    using cmp_ok_byKey eq_ok_byKey h n e1 e2 e3 unfolding A_def B_def
    by (intro conjI) assumption+
qed

text \<open>
  C8. Insertion is not idempotent in every state that the public operations reach. The
  natural-order set of version 2 built from 0, 2, 4 holds the list 0, 2, 4, 8, 6 after
  \<open>InsertSet\<close> of the comparator set built from 6, 8 with the descending order, whose
  \<open>Elems()\<close> are merged as they come. There the first \<open>Insert(7)\<close> gives a list of
  length 6 and the second \<open>Insert(7)\<close> one of length 7.
\<close>

theorem Insert_twice_after_InsertSet_of_descending_set:
  "do {
     s \<leftarrow> NewSortedMutableFuncs 0 byDescending equal [6, 8];
     l \<leftarrow> ordered_insertSet 0 (order [0, 2, 4]) (FuncSortedView s);
     l1 \<leftarrow> ordered_insert l 7;
     l2 \<leftarrow> ordered_insert l1 7;
     Some (Elems s, l, l1, l2, length l1, length l2)
   } = Some ([8, 6], [0, 2, 4, 8, 6], [0, 2, 4, 8, 6, 7], [0, 2, 4, 7, 8, 6, 7], 6, 7)"
  by code_simp

text \<open>
  C5. \<open>InsertSet\<close> does not agree with one \<open>Insert\<close> per element for every pairing of
  representations. With a natural-order set of version 2 as the receiver and a
  comparator set of version 2 with the descending order as the argument, \<open>InsertSet\<close>
  of the set built from 6, 8 into the set built from 0, 2, 4 leaves 0, 2, 4, 8, 6, where
  \<open>Contains(6)\<close> is false, and one \<open>Insert\<close> per element of \<open>Elems()\<close> leaves
  0, 2, 4, 6, 8, where it is true; \<open>InsertSet\<close> of the set built from 1, 2, 3 into the set
  built from 1, 2, 3 leaves five elements, and one \<open>Insert\<close> per element leaves three.
\<close>

theorem InsertSet_differs_from_Insert_of_each_element:
  "do {
     s \<leftarrow> NewSortedMutableFuncs 0 byDescending equal [6, 8];
     l \<leftarrow> ordered_insertSet 0 (order [0, 2, 4]) (FuncSortedView s);
     l' \<leftarrow> ordered_insertEach (order [0, 2, 4]) (Elems s);
     Some (Elems s, l, ordered_Contains l 6, l', ordered_Contains l' 6)
   } = Some ([8, 6], [0, 2, 4, 8, 6], False, [0, 2, 4, 6, 8], True) \<and>
   do {
     s \<leftarrow> NewSortedMutableFuncs 0 byDescending equal [1, 2, 3];
     l \<leftarrow> ordered_insertSet 0 (order [1, 2, 3]) (FuncSortedView s);
     l' \<leftarrow> ordered_insertEach (order [1, 2, 3]) (Elems s);
     Some (Elems s, l, length l, l', length l')
   } = Some ([3, 2, 1], [1, 2, 3, 2, 1], 5, [1, 2, 3], 3)"
  by code_simp

text \<open>
  C3. StableSortDedup: for every list (with \<open>cmp\<close> an ordering and \<open>eq\<close> an identity
  consistent with it, the documented preconditions), \<open>StableSortUniqFuncs\<close> and
  \<open>stableSortUniqCmpEq\<close> return the stably sorted list, cut into its runs of equal sort
  key, with each run replaced by one element for each of its identities, in the order of
  the first occurrences of the identities and with the value of the last occurrence.
  \<open>uniqEqSlow\<close> does this for one run and \<open>uniqCmpEq\<close> for the runs of any list. The sorted
  list is in non-decreasing order of sort key, has the elements of the list, and keeps
  the elements of each sort key in the order they have in the list.
\<close>

theorem StableSortUniqFuncs_sorts_and_dedups:
  assumes "cmp_ok cmp" and "eq_ok cmp eq"
  shows "StableSortUniqFuncs z list cmp eq
           = Some (concat (map (dedupSpec eq) (runsOf cmp (SortStableFunc list cmp)))) \<and>
         stableSortUniqCmpEq z list cmp eq
           = Some (concat (map (dedupSpec eq) (runsOf cmp (SortStableFunc list cmp)))) \<and>
         uniqCmpEq z l cmp eq = Some (concat (map (dedupSpec eq) (runsOf cmp l))) \<and>
         map_option snd (uniqEqSlow z run eq) = Some (dedupSpec eq run) \<and>
         sortedBy cmp (SortStableFunc list cmp) \<and>
         mset (SortStableFunc list cmp) = mset list \<and>
         (\<forall>k. filter (\<lambda>v. cmp k v = 0) (SortStableFunc list cmp) = filter (\<lambda>v. cmp k v = 0) list)"
proof -
  note r = uniqF_runs[OF assms]
  have 1: "StableSortUniqFuncs z list cmp eq
           = Some (concat (map (dedupSpec eq) (runsOf cmp (SortStableFunc list cmp))))"
    unfolding StableSortUniqFuncs_F r ..
  have 2: "stableSortUniqCmpEq z list cmp eq
           = Some (concat (map (dedupSpec eq) (runsOf cmp (SortStableFunc list cmp))))"
    unfolding stableSortUniqCmpEq_F r ..
  have 3: "uniqCmpEq z l cmp eq = Some (concat (map (dedupSpec eq) (runsOf cmp l)))"
    unfolding uniqCmpEq_F r ..
  have 4: "map_option snd (uniqEqSlow z run eq) = Some (dedupSpec eq run)"
    by (rule uniqEqSlow_dedupSpec[OF assms(2)])
  have 5: "sortedBy cmp (SortStableFunc list cmp)" by (rule sortedBy_SortStableFunc[OF assms(1)])
  have 6: "mset (SortStableFunc list cmp) = mset list" by (rule mset_SortStableFunc)
  have 7: "\<forall>k. filter (\<lambda>v. cmp k v = 0) (SortStableFunc list cmp) = filter (\<lambda>v. cmp k v = 0) list"
    using stable_SortStableFunc[OF assms(1)] by blast
  show ?thesis by (intro conjI 1 2 3 4 5 6 7)
qed

theorem StableSortUniqFuncs_sorts_and_dedups_witness:
  "cmp_ok byTens \<and> eq_ok byTens sameKey \<and>
   SortStableFunc [(21, ''a''), (11, ''b''), (12, ''c''), (11, ''d''), (5, ''e''), (12, ''f'')] byTens
     = [(5, ''e''), (11, ''b''), (12, ''c''), (11, ''d''), (12, ''f''), (21, ''a'')] \<and>
   runsOf byTens [(5, ''e''), (11, ''b''), (12, ''c''), (11, ''d''), (12, ''f''), (21, ''a'')]
     = [[(5, ''e'')], [(11, ''b''), (12, ''c''), (11, ''d''), (12, ''f'')], [(21, ''a'')]] \<and>
   dedupSpec sameKey [(11, ''b''), (12, ''c''), (11, ''d''), (12, ''f'')] = [(11, ''d''), (12, ''f'')] \<and>
   StableSortUniqFuncs (0, '''') [(21, ''a''), (11, ''b''), (12, ''c''), (11, ''d''), (5, ''e''), (12, ''f'')]
       byTens sameKey
     = Some [(5, ''e''), (11, ''d''), (12, ''f''), (21, ''a'')] \<and>
   stableSortUniqCmpEq (0, '''') [(21, ''a''), (11, ''b''), (12, ''c''), (11, ''d''), (5, ''e''), (12, ''f'')]
       byTens sameKey
     = Some [(5, ''e''), (11, ''d''), (12, ''f''), (21, ''a'')]"
proof -
  define L :: "(int \<times> string) list" where
    "L = [(21, ''a''), (11, ''b''), (12, ''c''), (11, ''d''), (5, ''e''), (12, ''f'')]"
  have s: "SortStableFunc L byTens
     = [(5, ''e''), (11, ''b''), (12, ''c''), (11, ''d''), (12, ''f''), (21, ''a'')]"
    unfolding L_def by code_simp
  have r: "runsOf byTens [(5, ''e''), (11, ''b''), (12, ''c''), (11, ''d''), (12, ''f''), (21, ''a'')]
     = [[(5, ''e'')], [(11, ''b''), (12, ''c''), (11, ''d''), (12, ''f'')], [(21, ''a'')]]"
    by code_simp
  have d: "dedupSpec sameKey [(11, ''b''), (12, ''c''), (11, ''d''), (12, ''f'')] = [(11, ''d''), (12, ''f'')]"
    by code_simp
  have c: "concat (map (dedupSpec sameKey) (runsOf byTens (SortStableFunc L byTens)))
     = [(5, ''e''), (11, ''d''), (12, ''f''), (21, ''a'')]"
    unfolding L_def by code_simp
  from StableSortUniqFuncs_sorts_and_dedups[OF cmp_ok_byTens eq_ok_byTens, of "(0, '''')" L]
  have e1: "StableSortUniqFuncs (0, '''') L byTens sameKey
              = Some [(5, ''e''), (11, ''d''), (12, ''f''), (21, ''a'')]"
    and e2: "stableSortUniqCmpEq (0, '''') L byTens sameKey
              = Some [(5, ''e''), (11, ''d''), (12, ''f''), (21, ''a'')]"
    unfolding c by simp_all
  show ?thesis
    using cmp_ok_byTens eq_ok_byTens s r d e1 e2 unfolding L_def
    by (intro conjI) assumption+
qed




end
